(* ===== verification/Prelude.thy ===== *)
theory Prelude
  imports Complex_Main
begin

text \<open>
  Shared vocabulary of the development: results of fallible Go functions, 64-bit signed
  integers with the wrap-around written out, saturating conversion, and the generic list
  lemmas the component theories use. Nothing here is specific to one component.

  Go's \<open>int\<close>, \<open>int64\<close> and \<open>time.Duration\<close> are 64-bit signed integers on the deployed
  platforms. They are modelled by \<open>int\<close>, and every addition, subtraction and
  multiplication the code performs on them goes through \<open>wrap64\<close>, so an overflow in the
  code is an overflow in the model.
\<close>

section \<open>Collections of facts\<close>

named_theorems go_arith \<open>64-bit operations that do not overflow\<close>
named_theorems float_simps \<open>rounding of values that binary64 represents exactly\<close>
named_theorems limiter_defs \<open>definitions a limiter's proofs unfold\<close>

section \<open>Results of fallible functions\<close>

text \<open>A Go function returning \<open>(T, error)\<close> returns \<open>Inl e\<close> or \<open>Inr v\<close>.\<close>

type_synonym ('e, 'a) result = "'e + 'a"

abbreviation Err :: "'e \<Rightarrow> ('e, 'a) result" where
  "Err \<equiv> Inl"

abbreviation Ok :: "'a \<Rightarrow> ('e, 'a) result" where
  "Ok \<equiv> Inr"

text \<open>\<open>v, err := r; if err != nil { return zero, err }\<close> and then the rest of the function.\<close>

definition and_then :: "('e, 'a) result \<Rightarrow> ('a \<Rightarrow> ('e, 'b) result) \<Rightarrow> ('e, 'b) result" where
  "and_then r f = (case r of Inl err \<Rightarrow> Err err | Inr v \<Rightarrow> f v)"

lemma and_then_simps [simp]: "and_then (Ok v) f = f v" "and_then (Err err) f = Err err"
  by (simp_all add: and_then_def)

lemma and_then_eq_Ok [simp]: "and_then r f = Ok y \<longleftrightarrow> (\<exists>v. r = Ok v \<and> f v = Ok y)"
  by (cases r) simp_all

section \<open>64-bit signed integers\<close>

definition max_int64 :: int where
  "max_int64 = 2 ^ 63 - 1"

definition min_int64 :: int where
  "min_int64 = - (2 ^ 63)"

definition in64 :: "int \<Rightarrow> bool" where
  "in64 x \<longleftrightarrow> min_int64 \<le> x \<and> x \<le> max_int64"

definition wrap64 :: "int \<Rightarrow> int" where
  "wrap64 x = (x + 2 ^ 63) mod 2 ^ 64 - 2 ^ 63"

definition add64 :: "int \<Rightarrow> int \<Rightarrow> int" where
  "add64 a b = wrap64 (a + b)"

definition sub64 :: "int \<Rightarrow> int \<Rightarrow> int" where
  "sub64 a b = wrap64 (a - b)"

definition mul64 :: "int \<Rightarrow> int \<Rightarrow> int" where
  "mul64 a b = wrap64 (a * b)"

text \<open>Go's integer division truncates towards zero.\<close>

definition quot64 :: "int \<Rightarrow> int \<Rightarrow> int" where
  "quot64 a b = wrap64 (sgn a * sgn b * (\<bar>a\<bar> div \<bar>b\<bar>))"

text \<open>\<open>time.Time.Sub\<close> saturates instead of wrapping.\<close>

definition saturate64 :: "int \<Rightarrow> int" where
  "saturate64 x = max min_int64 (min max_int64 x)"

lemma in64_wrap64: "in64 (wrap64 x)"
  by (simp add: in64_def wrap64_def max_int64_def min_int64_def)

lemma wrap64_id [simp]: "in64 x \<Longrightarrow> wrap64 x = x"
  by (simp add: in64_def wrap64_def max_int64_def min_int64_def)

lemma wrap64_cong: "wrap64 x = wrap64 y \<longleftrightarrow> x mod 2 ^ 64 = y mod 2 ^ 64"
proof -
  have "(x + 2 ^ 63) mod 2 ^ 64 = (y + 2 ^ 63) mod 2 ^ 64 \<longleftrightarrow> x mod 2 ^ 64 = (y::int) mod 2 ^ 64"
    by (simp add: mod_eq_dvd_iff)
  then show ?thesis by (simp add: wrap64_def)
qed

lemma add64_id [go_arith]: "in64 (a + b) \<Longrightarrow> add64 a b = a + b"
  by (simp add: add64_def)

lemma sub64_id [go_arith]: "in64 (a - b) \<Longrightarrow> sub64 a b = a - b"
  by (simp add: sub64_def)

lemma mul64_id [go_arith]: "in64 (a * b) \<Longrightarrow> mul64 a b = a * b"
  by (simp add: mul64_def)

lemma quot64_nonneg: "0 \<le> a \<Longrightarrow> 0 < b \<Longrightarrow> in64 a \<Longrightarrow> quot64 a b = a div b"
proof -
  assume a: "0 \<le> a" and b: "0 < b" and r: "in64 a"
  have "a div b \<le> a" using zdiv_mono2 [of a 1 b] a b by simp
  moreover have "0 \<le> a div b" using a b by (simp add: pos_imp_zdiv_nonneg_iff)
  ultimately have "in64 (a div b)"
    using r by (simp add: in64_def min_int64_def)
  moreover have "sgn a * sgn b * (\<bar>a\<bar> div \<bar>b\<bar>) = a div b"
    using a b by (cases "a = 0") auto
  ultimately show ?thesis by (simp add: quot64_def)
qed

lemma in64_between: "in64 b \<Longrightarrow> 0 \<le> a \<Longrightarrow> a \<le> b \<Longrightarrow> in64 a"
  by (simp add: in64_def min_int64_def)

lemma in64_diff: "in64 b \<Longrightarrow> 0 \<le> a \<Longrightarrow> 0 \<le> b \<Longrightarrow> in64 a \<Longrightarrow> in64 (b - a)"
  by (simp add: in64_def min_int64_def max_int64_def)

lemma saturate64_in64: "in64 (saturate64 x)"
  by (simp add: saturate64_def in64_def min_int64_def max_int64_def)

lemma saturate64_id [simp]: "in64 x \<Longrightarrow> saturate64 x = x"
  by (simp add: saturate64_def in64_def)

lemma saturate64_pos: "0 < x \<Longrightarrow> 0 < saturate64 x"
  by (simp add: saturate64_def min_int64_def max_int64_def)

lemma saturate64_nonpos: "x \<le> 0 \<Longrightarrow> saturate64 x \<le> 0"
  by (simp add: saturate64_def min_int64_def max_int64_def)

section \<open>Lists\<close>

lemma sum_list_filter_le:
  fixes f :: "'a \<Rightarrow> int"
  shows "(\<And>x. x \<in> set xs \<Longrightarrow> 0 \<le> f x) \<Longrightarrow> sum_list (map f (filter P xs)) \<le> sum_list (map f xs)"
  by (induction xs) (auto simp: add_increasing)

lemma sum_list_map_nonneg:
  fixes f :: "'a \<Rightarrow> int"
  shows "(\<And>x. x \<in> set xs \<Longrightarrow> 0 \<le> f x) \<Longrightarrow> 0 \<le> sum_list (map f xs)"
  by (induction xs) auto

text \<open>Grouping a list by a key does not change its sum.\<close>

lemma sum_groups:
  fixes f :: "'a \<Rightarrow> int"
  assumes "finite K" "key ` set xs \<subseteq> K"
  shows "(\<Sum>k\<in>K. sum_list (map f (filter (\<lambda>x. key x = k) xs))) = sum_list (map f xs)"
  using assms(2)
proof (induction xs)
  case (Cons x xs)
  have "(\<Sum>k\<in>K. sum_list (map f (filter (\<lambda>x. key x = k) (x # xs)))) =
      (\<Sum>k\<in>K. (if k = key x then f x else 0) + sum_list (map f (filter (\<lambda>x. key x = k) xs)))"
    by (intro sum.cong) auto
  also have "\<dots> = f x + sum_list (map f xs)" using Cons assms(1) by (simp add: sum.distrib)
  finally show ?case by simp
qed simp

lemma sum_list_groups:
  fixes f :: "'a \<Rightarrow> int"
  assumes "distinct ks" "set ks = key ` set xs"
  shows "sum_list (map (\<lambda>k. sum_list (map f (filter (\<lambda>x. key x = k) xs))) ks) = sum_list (map f xs)"
  using sum_groups [of "set ks" key xs f] assms by (simp add: sum_list_distinct_conv_sum_set)

end
