(* ===== verification/GoTime.thy ===== *)
theory GoTime
  imports Prelude
begin

text \<open>
  The parts of Go's \<open>time\<close> package the program uses. A \<open>time.Time\<close> is the number of
  nanoseconds since Go's zero time, January 1 of year 1, 00:00:00 UTC (an unbounded
  integer: its range is far wider than 64 bits of nanoseconds), because \<open>Truncate\<close> is
  relative to that instant. A \<open>time.Duration\<close> is a 64-bit number of nanoseconds. A clock
  (\<open>now func() time.Time\<close>) is an argument: the value it returns at that call.
\<close>

type_synonym go_time = int
type_synonym duration = int

definition Millisecond :: duration where
  "Millisecond = 1000000"

definition Second :: duration where
  "Second = 1000000000"

definition Minute :: duration where
  "Minute = 60 * Second"

text \<open>Seconds from the zero time to the Unix epoch.\<close>

definition unix_epoch :: go_time where
  "unix_epoch = 62135596800 * Second"

definition time_Add :: "go_time \<Rightarrow> duration \<Rightarrow> go_time" where
  "time_Add t d = t + d"

definition time_Sub :: "go_time \<Rightarrow> go_time \<Rightarrow> duration" where
  "time_Sub t u = saturate64 (t - u)"

definition time_After :: "go_time \<Rightarrow> go_time \<Rightarrow> bool" where
  "time_After t u \<longleftrightarrow> u < t"

definition time_Equal :: "go_time \<Rightarrow> go_time \<Rightarrow> bool" where
  "time_Equal t u \<longleftrightarrow> t = u"

definition time_IsZero :: "go_time \<Rightarrow> bool" where
  "time_IsZero t \<longleftrightarrow> t = 0"

text \<open>\<open>Truncate\<close> rounds down to a multiple of \<open>d\<close> since the zero time.\<close>

definition time_Truncate :: "go_time \<Rightarrow> duration \<Rightarrow> go_time" where
  "time_Truncate t d = (if d \<le> 0 then t else t - t mod d)"

definition time_UnixMilli :: "int \<Rightarrow> go_time" where
  "time_UnixMilli ms = unix_epoch + ms * Millisecond"

definition duration_Milliseconds :: "duration \<Rightarrow> int" where
  "duration_Milliseconds d = quot64 d Millisecond"

lemma time_Truncate_le: "time_Truncate t d \<le> t"
  by (simp add: time_Truncate_def)

lemma time_Truncate_window: "0 < d \<Longrightarrow> t < time_Truncate t d + d"
  by (simp add: time_Truncate_def)

lemma time_Truncate_eq_iff:
  assumes "0 < d"
  shows "time_Truncate t d = time_Truncate u d \<longleftrightarrow> t div d = u div d"
proof -
  have "time_Truncate x d = d * (x div d)" for x
    using assms minus_mod_eq_mult_div [of x d] by (simp add: time_Truncate_def)
  then show ?thesis using assms by simp
qed

lemma time_Truncate_mono:
  assumes "0 < d" "t \<le> u"
  shows "time_Truncate t d \<le> time_Truncate u d"
proof -
  have "time_Truncate x d = d * (x div d)" for x
    using assms minus_mod_eq_mult_div [of x d] by (simp add: time_Truncate_def)
  then show ?thesis using zdiv_mono1 [OF assms(2,1)] assms(1) by simp
qed

lemma time_Truncate_unique:
  assumes "0 < d" "time_Truncate u d \<le> t" "t < time_Truncate u d + d"
  shows "time_Truncate t d = time_Truncate u d"
proof -
  have tr: "time_Truncate x d = d * (x div d)" for x
    using assms minus_mod_eq_mult_div [of x d] by (simp add: time_Truncate_def)
  have "t div d = u div d"
    using assms unfolding tr
    by (intro int_div_pos_eq [of t d "u div d" "t - d * (u div d)"]) auto
  then show ?thesis by (simp add: tr)
qed

lemma duration_Milliseconds_nonneg:
  "0 \<le> d \<Longrightarrow> in64 d \<Longrightarrow> duration_Milliseconds d = d div Millisecond"
  by (simp add: duration_Milliseconds_def quot64_nonneg Millisecond_def)

lemma time_Sub_pos_iff: "0 < time_Sub t u \<longleftrightarrow> u < t"
  by (auto simp: time_Sub_def saturate64_def min_int64_def max_int64_def)

lemma time_Sub_le: "u \<le> t \<Longrightarrow> time_Sub t u \<le> t - u"
  by (simp add: time_Sub_def saturate64_def min_int64_def max_int64_def)

end
