(* ===== verification/RateLimiter.thy ===== *)
theory RateLimiter
  imports Prelude GoTime
begin

text \<open>
  The limiter contract of \<open>internal/ratelimiter/ratelimiter.go\<close>: keys, policies,
  decisions, the error values, and the interface \<open>Limiter\<close> as a locale whose laws every
  limiter of the package obeys. The validation loop the three in-memory limiters repeat is
  here too.

  A Go map is an association list with distinct keys; the order of the list is the order
  in which one \<open>range\<close> loop visits it. A call of \<open>Allow\<close> takes the state, the context's
  error (\<open>ctx.Err()\<close>), the reading of the clock, the key and the cost. Each call runs
  under the limiter's mutex, so concurrent calls are sequences of calls.
\<close>

section \<open>Types\<close>

record Key =
  ClientID :: string
  Resource :: string

record Policy =
  Limit :: int
  Window :: duration

record Decision =
  Allowed :: bool
  DLimit :: int
  Remaining :: int
  ResetAt :: go_time
  RetryAfterMS :: int

datatype ctx_error = Canceled | DeadlineExceeded

text \<open>
  Errors of \<open>Allow\<close>. The sentinel errors are constants; \<open>ErrRedis\<close> is \<open>"apply redis token
  bucket: %w"\<close>, and \<open>ErrUnavailable (Some e)\<close> is \<open>"%w: %v"\<close> of \<open>ErrUnavailable\<close> and \<open>e\<close>,
  which wraps only \<open>ErrUnavailable\<close>.
\<close>

datatype limiter_error =
    ErrInvalidCost
  | ErrCostExceedsLimit
  | ErrNoPolicy
  | ErrEventBacklogFull
  | ErrCtx ctx_error
  | ErrRedis string
  | ErrResultLength nat
  | ErrUnavailable "limiter_error option"

text \<open>\<open>errors.Is\<close> on these values: equal, or a wrapped \<open>ErrUnavailable\<close>.\<close>

definition errors_Is :: "limiter_error \<Rightarrow> limiter_error \<Rightarrow> bool" where
  "errors_Is e t \<longleftrightarrow>
     (case e of ErrUnavailable c \<Rightarrow> e = t \<or> t = ErrUnavailable None | _ \<Rightarrow> e = t)"

type_synonym policies = "(Key \<times> Policy) list"

text \<open>Errors of the constructors \<open>New...\<close>.\<close>

datatype config_error =
    ErrClockRequired
  | ErrPolicyFieldsRequired
  | ErrInvalidPolicy string string
  | ErrLimiterRequired
  | ErrFailureThreshold
  | ErrOpenTimeout
  | ErrDecisionTimeout
  | ErrRedisClientRequired
  | ErrMaxBacklog

section \<open>Policy validation\<close>

fun validate_policies :: "policies \<Rightarrow> config_error option" where
  "validate_policies [] = None"
| "validate_policies ((key, policy) # rest) =
     (if ClientID key = '''' \<or> Resource key = '''' then Some ErrPolicyFieldsRequired
      else if Limit policy \<le> 0 \<or> Window policy \<le> 0
           then Some (ErrInvalidPolicy (ClientID key) (Resource key))
      else validate_policies rest)"

text \<open>
  What validation establishes, with the ranges the Go types give: a policy's limit and
  window are positive 64-bit integers.
\<close>

definition policy_ok :: "Policy \<Rightarrow> bool" where
  "policy_ok p \<longleftrightarrow> 0 < Limit p \<and> in64 (Limit p) \<and> 0 < Window p \<and> in64 (Window p)"

definition policies_typed :: "policies \<Rightarrow> bool" where
  "policies_typed ps \<longleftrightarrow> (\<forall>(k, p) \<in> set ps. in64 (Limit p) \<and> in64 (Window p))"

definition policies_ok :: "policies \<Rightarrow> bool" where
  "policies_ok ps \<longleftrightarrow> (\<forall>(k, p) \<in> set ps. policy_ok p)"

lemma validate_policies_None_iff:
  "validate_policies ps = None \<longleftrightarrow>
     (\<forall>(k, p) \<in> set ps. ClientID k \<noteq> '''' \<and> Resource k \<noteq> '''' \<and> 0 < Limit p \<and> 0 < Window p)"
  by (induction ps rule: validate_policies.induct) (auto simp: not_le)

lemma validate_policies_ok:
  "validate_policies ps = None \<Longrightarrow> policies_typed ps \<Longrightarrow> policies_ok ps"
  by (fastforce simp: validate_policies_None_iff policies_typed_def policies_ok_def policy_ok_def)

lemma policies_ok_lookup: "policies_ok ps \<Longrightarrow> map_of ps k = Some p \<Longrightarrow> policy_ok p"
  by (fastforce simp: policies_ok_def dest: map_of_SomeD)

section \<open>Decisions\<close>

text \<open>
  The shape of a decision every limiter returns: the policy's limit, a remaining capacity
  between 0 and that limit, no retry delay when allowed, a positive one when denied, and a
  denial only when the cost exceeds what remains.
\<close>

definition decision_ok :: "Policy \<Rightarrow> int \<Rightarrow> Decision \<Rightarrow> bool" where
  "decision_ok p cost d \<longleftrightarrow>
     DLimit d = Limit p \<and> 0 \<le> Remaining d \<and> Remaining d \<le> Limit p \<and>
     (Allowed d \<longrightarrow> RetryAfterMS d = 0) \<and>
     (\<not> Allowed d \<longrightarrow> 1 \<le> RetryAfterMS d \<and> Remaining d < cost)"

section \<open>Sequences of requests\<close>

record request =
  q_ctx :: "ctx_error option"
  q_now :: go_time
  q_key :: Key
  q_cost :: int

type_synonym 'st allow_fun =
  "'st \<Rightarrow> ctx_error option \<Rightarrow> go_time \<Rightarrow> Key \<Rightarrow> int \<Rightarrow> 'st \<times> (limiter_error, Decision) result"

primrec run_limiter ::
  "'st allow_fun \<Rightarrow> 'st \<Rightarrow> request list \<Rightarrow> 'st \<times> (limiter_error, Decision) result list" where
  "run_limiter allow st [] = (st, [])"
| "run_limiter allow st (q # qs) =
     (let (st1, r) = allow st (q_ctx q) (q_now q) (q_key q) (q_cost q);
          (st2, rs) = run_limiter allow st1 qs
      in (st2, r # rs))"

text \<open>The requests a run approved, with their results.\<close>

fun approved :: "(limiter_error, Decision) result \<Rightarrow> bool" where
  "approved (Inr d) = Allowed d"
| "approved (Inl e) = False"

text \<open>The cost approved in a run for one key at the times that satisfy \<open>P\<close>.\<close>

fun approved_cost ::
  "(go_time \<Rightarrow> bool) \<Rightarrow> Key \<Rightarrow> request list \<Rightarrow> (limiter_error, Decision) result list \<Rightarrow> int" where
  "approved_cost P k (q # qs) (r # rs) =
     (if q_key q = k \<and> P (q_now q) \<and> approved r then q_cost q else 0) + approved_cost P k qs rs"
| "approved_cost P k _ _ = 0"

lemma run_limiter_length [simp]: "length (snd (run_limiter allow st qs)) = length qs"
  by (induction qs arbitrary: st) (auto simp: split_def Let_def)

lemma run_limiter_Cons:
  "run_limiter allow st (q # qs) =
     (let a = allow st (q_ctx q) (q_now q) (q_key q) (q_cost q);
          b = run_limiter allow (fst a) qs
      in (fst b, snd a # snd b))"
  by (simp add: split_def Let_def)

declare run_limiter.simps(2) [simp del]

lemma approved_cost_none:
  "(\<And>q. q \<in> set qs \<Longrightarrow> \<not> P (q_now q)) \<Longrightarrow> approved_cost P k qs rs = 0"
  by (induction P k qs rs rule: approved_cost.induct) auto

section \<open>The interface \<open>Limiter\<close>\<close>

text \<open>
  What every implementation of \<open>Limiter.Allow\<close> promises its caller, a wrapper such as the
  circuit breaker included. \<open>inv\<close> is the implementation's invariant and \<open>pol\<close> its
  policy table: calls keep the invariant and the policies, a decision is made only for a
  key with a policy and has the common shape.
\<close>

locale decision_source =
  fixes allow :: "'st allow_fun"
    and inv :: "'st \<Rightarrow> bool"
    and pol :: "'st \<Rightarrow> Key \<Rightarrow> Policy option"
  assumes allow_inv: "inv st \<Longrightarrow> inv (fst (allow st c t k n))"
    and allow_pol: "pol (fst (allow st c t k n)) = pol st"
    and allow_policy: "snd (allow st c t k n) = Ok d \<Longrightarrow> pol st k \<noteq> None"
    and allow_decision:
      "inv st \<Longrightarrow> pol st k = Some p \<Longrightarrow> snd (allow st c t k n) = Ok d \<Longrightarrow> decision_ok p n d"
begin

lemma run_inv: "inv st \<Longrightarrow> inv (fst (run_limiter allow st qs))"
  by (induction qs arbitrary: st) (simp_all add: run_limiter_Cons Let_def allow_inv)

lemma run_pol: "pol (fst (run_limiter allow st qs)) = pol st"
  by (induction qs arbitrary: st) (simp_all add: run_limiter_Cons Let_def allow_pol)

text \<open>Every decision of every run has the common shape.\<close>

lemma run_decisions:
  assumes "inv st" "i < length qs" "snd (run_limiter allow st qs) ! i = Ok d"
  shows "\<exists>p. pol st (q_key (qs ! i)) = Some p \<and> decision_ok p (q_cost (qs ! i)) d"
  using assms
proof (induction qs arbitrary: st i)
  case Nil
  then show ?case by simp
next
  case (Cons q qs)
  let ?a = "allow st (q_ctx q) (q_now q) (q_key q) (q_cost q)"
  show ?case
  proof (cases i)
    case 0
    with Cons.prems have "snd ?a = Ok d" by (simp add: run_limiter_Cons Let_def)
    then show ?thesis
      using 0 Cons.prems(1) allow_policy allow_decision by fastforce
  next
    case (Suc j)
    have "\<exists>p. pol (fst ?a) (q_key (qs ! j)) = Some p \<and> decision_ok p (q_cost (qs ! j)) d"
      using Cons.prems Suc
      by (intro Cons.IH) (simp_all add: run_limiter_Cons Let_def allow_inv)
    then show ?thesis using Suc by (simp add: allow_pol)
  qed
qed

end

text \<open>
  The limiters proper also refuse, in this order, a cancelled context, a cost that is not
  positive and a key without policy, and leave the state alone.
\<close>

locale limiter = decision_source allow inv pol
  for allow :: "'st allow_fun" and inv and pol +
  assumes allow_ctx: "allow st (Some e) t k n = (st, Err (ErrCtx e))"
    and allow_cost: "n \<le> 0 \<Longrightarrow> allow st None t k n = (st, Err ErrInvalidCost)"
    and allow_no_policy: "0 < n \<Longrightarrow> pol st k = None \<Longrightarrow> allow st None t k n = (st, Err ErrNoPolicy)"
begin

lemma decision_has_policy:
  assumes "snd (allow st c t k n) = Ok d"
  shows "c = None \<and> 0 < n \<and> (\<exists>p. pol st k = Some p)"
proof -
  have c: "c = None" using assms allow_ctx by (cases c) auto
  moreover have "0 < n" using assms allow_cost unfolding c by (cases "0 < n") auto
  ultimately show ?thesis using allow_policy [OF assms] by auto
qed

lemma approved_cost_nonneg: "0 \<le> approved_cost P k qs (snd (run_limiter allow st qs))"
proof (induction qs arbitrary: st)
  case (Cons q qs)
  let ?a = "allow st (q_ctx q) (q_now q) (q_key q) (q_cost q)"
  have "0 < q_cost q" if "approved (snd ?a)"
    using that decision_has_policy by (cases "snd ?a") auto
  then show ?case
    using Cons [of "fst ?a"] by (auto simp: run_limiter_Cons Let_def)
qed simp

end

text \<open>
  Limiters that live in the process and keep independent state per key: a call that
  returns an error changes nothing. \<open>slot st k\<close> is what the state holds for
  \<open>k\<close>; a call for one key neither reads nor writes another key's slot.
\<close>

locale isolated_limiter = limiter allow inv pol
  for allow :: "'st allow_fun" and inv and pol +
  fixes slot :: "'st \<Rightarrow> Key \<Rightarrow> 'slot"
  assumes allow_error: "snd (allow st c t k n) = Err err \<Longrightarrow> fst (allow st c t k n) = st"
    and slot_other: "k' \<noteq> k \<Longrightarrow> slot (fst (allow st c t k n)) k' = slot st k'"
    and slot_result: "slot st k = slot st' k \<Longrightarrow> pol st k = pol st' k \<Longrightarrow>
      snd (allow st c t k n) = snd (allow st' c t k n)"
    and slot_update: "slot st k = slot st' k \<Longrightarrow> pol st k = pol st' k \<Longrightarrow>
      slot (fst (allow st c t k n)) k = slot (fst (allow st' c t k n)) k"
begin

text \<open>The results one client sees do not depend on the requests for other keys.\<close>

lemma run_isolated_gen:
  assumes "slot st k = slot st' k" "pol st k = pol st' k"
  shows "map snd (filter (\<lambda>(q, r). q_key q = k) (zip qs (snd (run_limiter allow st qs)))) =
    snd (run_limiter allow st' (filter (\<lambda>q. q_key q = k) qs))"
  using assms
proof (induction qs arbitrary: st st')
  case (Cons q qs)
  let ?a = "\<lambda>st. allow st (q_ctx q) (q_now q) (q_key q) (q_cost q)"
  show ?case
  proof (cases "q_key q = k")
    case True
    have "map snd (filter (\<lambda>(q, r). q_key q = k) (zip qs (snd (run_limiter allow (fst (?a st)) qs)))) =
        snd (run_limiter allow (fst (?a st')) (filter (\<lambda>q. q_key q = k) qs))"
      using Cons.prems True by (intro Cons.IH) (simp_all add: allow_pol slot_update [of st _ st'])
    moreover have "snd (?a st) = snd (?a st')"
      using Cons.prems True by (simp add: slot_result [of st _ st'])
    ultimately show ?thesis
      using True by (simp add: run_limiter_Cons Let_def)
  next
    case False
    have "map snd (filter (\<lambda>(q, r). q_key q = k) (zip qs (snd (run_limiter allow (fst (?a st)) qs)))) =
        snd (run_limiter allow st' (filter (\<lambda>q. q_key q = k) qs))"
      using Cons.prems False by (intro Cons.IH) (auto simp: allow_pol slot_other)
    then show ?thesis
      using False by (simp add: run_limiter_Cons Let_def)
  qed
qed simp

lemmas run_isolated = run_isolated_gen [OF refl refl]

end

section \<open>Example data\<close>

text \<open>The policy and the requests the witnesses use.\<close>

definition ex_key :: Key where
  "ex_key = \<lparr>ClientID = ''client-a'', Resource = ''openai''\<rparr>"

definition ex_policies :: "int \<Rightarrow> duration \<Rightarrow> policies" where
  "ex_policies n w = [(ex_key, \<lparr>Limit = n, Window = w\<rparr>)]"

definition ex_req :: "go_time \<Rightarrow> int \<Rightarrow> request" where
  "ex_req t n = \<lparr>q_ctx = None, q_now = t, q_key = ex_key, q_cost = n\<rparr>"

lemmas ex_simps = ex_key_def ex_policies_def ex_req_def

lemma ex_policies_typed: "in64 n \<Longrightarrow> in64 w \<Longrightarrow> policies_typed (ex_policies n w)"
  by (simp add: policies_typed_def ex_policies_def)

end
