(* ===== verification/FixedWindow.thy ===== *)
theory FixedWindow
  imports RateLimiter
begin

text \<open>
  The fixed-window limiter of \<open>internal/ratelimiter/fixed-window.go\<close>: one counter per key
  and aligned time window. It is an instance of \<open>isolated_limiter\<close>; its own properties
  are the quota of one aligned window and the burst of twice the limit that two adjacent
  windows admit.
\<close>

section \<open>Definitions\<close>

record fixedWindow =
  start :: go_time
  used :: int

record FixedWindowRateLimiter =
  fw_policies :: policies
  windows :: "Key \<rightharpoonup> fixedWindow"

definition validateFixedWindowPolicies :: "policies \<Rightarrow> config_error option" where
  "validateFixedWindowPolicies ps = validate_policies ps"

text \<open>\<open>has_clock\<close> says that the clock passed is not nil.\<close>

definition NewFixedWindowRateLimiter ::
  "policies \<Rightarrow> bool \<Rightarrow> (config_error, FixedWindowRateLimiter) result" where
  "NewFixedWindowRateLimiter policies has_clock =
     (if \<not> has_clock then Err ErrClockRequired
      else case validateFixedWindowPolicies policies of
        Some err \<Rightarrow> Err err
      | None \<Rightarrow> Ok \<lparr>fw_policies = policies, windows = Map.empty\<rparr>)"

text \<open>Reading a key that the map does not hold gives the zero value.\<close>

definition windowFor :: "FixedWindowRateLimiter \<Rightarrow> Key \<Rightarrow> Policy \<Rightarrow> go_time \<Rightarrow> fixedWindow" where
  "windowFor l key policy now =
     (let s = time_Truncate now (Window policy);
          window = (case windows l key of None \<Rightarrow> \<lparr>start = 0, used = 0\<rparr> | Some w \<Rightarrow> w)
      in if \<not> time_Equal (start window) s then \<lparr>start = s, used = 0\<rparr> else window)"

definition FixedWindow_Allow :: "FixedWindowRateLimiter allow_fun" where
  "FixedWindow_Allow l ctx now key cost =
     (case ctx of
        Some e \<Rightarrow> (l, Err (ErrCtx e))
      | None \<Rightarrow>
        if cost \<le> 0 then (l, Err ErrInvalidCost)
        else case map_of (fw_policies l) key of
          None \<Rightarrow> (l, Err ErrNoPolicy)
        | Some policy \<Rightarrow>
          let window = windowFor l key policy now;
              resetAt = time_Add (start window) (Window policy)
          in if cost > sub64 (Limit policy) (used window)
             then (l, Ok \<lparr>Allowed = False, DLimit = Limit policy,
                          Remaining = sub64 (Limit policy) (used window),
                          ResetAt = resetAt,
                          RetryAfterMS = max 1 (duration_Milliseconds (time_Sub resetAt now))\<rparr>)
             else let window' = window\<lparr>used := add64 (used window) cost\<rparr>
                  in (l\<lparr>windows := (windows l)(key \<mapsto> window')\<rparr>,
                      Ok \<lparr>Allowed = True, DLimit = Limit policy,
                          Remaining = sub64 (Limit policy) (used window'),
                          ResetAt = resetAt, RetryAfterMS = 0\<rparr>))"

text \<open>
  The invariant: policies are valid, and a stored counter belongs to a key with a policy,
  is at most that policy's limit, and its window starts at a multiple of the policy's window.
\<close>

definition window_ok :: "Policy \<Rightarrow> fixedWindow \<Rightarrow> bool" where
  "window_ok p w \<longleftrightarrow> 0 \<le> used w \<and> used w \<le> Limit p \<and> time_Truncate (start w) (Window p) = start w"

definition fw_inv :: "FixedWindowRateLimiter \<Rightarrow> bool" where
  "fw_inv l \<longleftrightarrow> policies_ok (fw_policies l) \<and>
     (\<forall>k w. windows l k = Some w \<longrightarrow> (\<exists>p. map_of (fw_policies l) k = Some p \<and> window_ok p w))"

definition fw_pol :: "FixedWindowRateLimiter \<Rightarrow> Key \<Rightarrow> Policy option" where
  "fw_pol l = map_of (fw_policies l)"

section \<open>One call\<close>

lemma fw_inv_lookup:
  "fw_inv l \<Longrightarrow> windows l k = Some w \<Longrightarrow> map_of (fw_policies l) k = Some p \<Longrightarrow> window_ok p w"
  by (fastforce simp: fw_inv_def)

lemma windowFor_start [simp]: "start (windowFor l k p t) = time_Truncate t (Window p)"
  by (auto simp: windowFor_def Let_def time_Equal_def)

lemma windowFor_ok:
  assumes "fw_inv l" "map_of (fw_policies l) k = Some p"
  shows "window_ok p (windowFor l k p t)"
proof -
  have p: "policy_ok p" using assms by (auto simp: fw_inv_def dest: policies_ok_lookup)
  then have "time_Truncate (time_Truncate t (Window p)) (Window p) = time_Truncate t (Window p)"
    by (auto simp: policy_ok_def intro: time_Truncate_unique)
  then show ?thesis
    using assms p
    by (fastforce simp: windowFor_def Let_def window_ok_def fw_inv_def policy_ok_def
        time_Equal_def split: option.splits)
qed

text \<open>Under the invariant none of the counter arithmetic overflows.\<close>

lemma window_arith:
  assumes "window_ok p w" "policy_ok p"
  shows "sub64 (Limit p) (used w) = Limit p - used w"
    and "0 < c \<Longrightarrow> c \<le> Limit p - used w \<Longrightarrow> add64 (used w) c = used w + c"
    and "0 < c \<Longrightarrow> c \<le> Limit p - used w \<Longrightarrow> sub64 (Limit p) (used w + c) = Limit p - (used w + c)"
  using assms
  by (simp_all add: window_ok_def policy_ok_def in64_def min_int64_def max_int64_def go_arith)

text \<open>The call on a valid request, without wrap-around.\<close>

lemma FixedWindow_Allow_eq:
  assumes "fw_inv l" "0 < cost" "map_of (fw_policies l) key = Some p"
  shows "FixedWindow_Allow l None now key cost =
    (let w = windowFor l key p now; resetAt = time_Truncate now (Window p) + Window p
     in if cost > Limit p - used w
        then (l, Ok \<lparr>Allowed = False, DLimit = Limit p, Remaining = Limit p - used w,
                     ResetAt = resetAt,
                     RetryAfterMS = max 1 (duration_Milliseconds (time_Sub resetAt now))\<rparr>)
        else (l\<lparr>windows := (windows l)(key \<mapsto> w\<lparr>used := used w + cost\<rparr>)\<rparr>,
              Ok \<lparr>Allowed = True, DLimit = Limit p, Remaining = Limit p - (used w + cost),
                  ResetAt = resetAt, RetryAfterMS = 0\<rparr>))"
proof -
  have w: "window_ok p (windowFor l key p now)" using assms by (simp add: windowFor_ok)
  have p: "policy_ok p" using assms by (auto simp: fw_inv_def dest: policies_ok_lookup)
  show ?thesis
    using assms window_arith [OF w p]
    by (simp add: FixedWindow_Allow_def Let_def time_Add_def)
qed

lemma FixedWindow_Allow_inv:
  assumes "fw_inv l"
  shows "fw_inv (fst (FixedWindow_Allow l ctx now key cost))"
proof (cases "ctx = None \<and> 0 < cost \<and> map_of (fw_policies l) key \<noteq> None")
  case True
  then obtain p where p: "map_of (fw_policies l) key = Some p" and c: "0 < cost" "ctx = None"
    by auto
  have "window_ok p (windowFor l key p now)" using assms p by (simp add: windowFor_ok)
  then show ?thesis
    using assms p c
    by (auto simp: FixedWindow_Allow_eq Let_def fw_inv_def window_ok_def)
next
  case False
  then show ?thesis
    using assms by (auto simp: FixedWindow_Allow_def split: option.splits)
qed

section \<open>The limiter contract\<close>

interpretation fw: isolated_limiter FixedWindow_Allow fw_inv fw_pol windows
proof unfold_locales
  fix st c t k n
  show "fw_inv st \<Longrightarrow> fw_inv (fst (FixedWindow_Allow st c t k n))"
    by (rule FixedWindow_Allow_inv)
  show "fw_pol (fst (FixedWindow_Allow st c t k n)) = fw_pol st"
    by (auto simp: FixedWindow_Allow_def fw_pol_def Let_def split: option.splits)
next
  fix st t k n p d c
  assume inv: "fw_inv st" and p: "fw_pol st k = Some p"
    and d: "snd (FixedWindow_Allow st c t k n) = Ok d"
  have c: "c = None" "0 < n"
    using d by (auto simp: FixedWindow_Allow_def not_le[symmetric] split: option.splits if_splits)
  have w: "window_ok p (windowFor st k p t)" using inv p by (simp add: windowFor_ok fw_pol_def)
  show "decision_ok p n d"
    using inv p d w c(2) unfolding c(1)
    by (auto simp: FixedWindow_Allow_eq fw_pol_def Let_def decision_ok_def window_ok_def
        split: if_splits)
next
  fix st st' :: FixedWindowRateLimiter and k c t n
  assume "windows st k = windows st' k" "fw_pol st k = fw_pol st' k"
  then have w: "windowFor st k p t = windowFor st' k p t" for p
    by (simp add: windowFor_def)
  with \<open>fw_pol st k = fw_pol st' k\<close> \<open>windows st k = windows st' k\<close>
  show "snd (FixedWindow_Allow st c t k n) = snd (FixedWindow_Allow st' c t k n)"
    and "windows (fst (FixedWindow_Allow st c t k n)) k = windows (fst (FixedWindow_Allow st' c t k n)) k"
    by (auto simp: FixedWindow_Allow_def fw_pol_def Let_def split: option.splits)
qed (auto simp: FixedWindow_Allow_def fw_pol_def Let_def
    split: option.splits if_splits)

section \<open>The quota of one aligned window\<close>

text \<open>What the state has counted for key \<open>k\<close> in the window that starts at \<open>s\<close>.\<close>

definition used_in :: "FixedWindowRateLimiter \<Rightarrow> Key \<Rightarrow> go_time \<Rightarrow> int" where
  "used_in l k s =
     (case windows l k of None \<Rightarrow> 0 | Some w \<Rightarrow> if start w = s then used w else 0)"

lemma used_windowFor: "used (windowFor l k p t) = used_in l k (time_Truncate t (Window p))"
  by (auto simp: windowFor_def used_in_def Let_def time_Equal_def split: option.splits)

lemma used_in_le: "fw_inv l \<Longrightarrow> map_of (fw_policies l) k = Some p \<Longrightarrow> used_in l k s \<le> Limit p"
  by (fastforce simp: used_in_def fw_inv_def window_ok_def policy_ok_def
      dest: policies_ok_lookup split: option.splits)

lemma fw_denied_state:
  "\<not> approved (snd (FixedWindow_Allow l c t k n)) \<Longrightarrow> fst (FixedWindow_Allow l c t k n) = l"
  by (auto simp: FixedWindow_Allow_def Let_def split: option.splits)

lemma fw_approved_state:
  assumes inv: "fw_inv l" and a: "approved (snd (FixedWindow_Allow l c t k n))"
    and p: "map_of (fw_policies l) k = Some p"
  defines "s \<equiv> time_Truncate t (Window p)"
  shows "windows (fst (FixedWindow_Allow l c t k n)) k = Some \<lparr>start = s, used = used_in l k s + n\<rparr>"
    and "used_in l k s + n \<le> Limit p"
proof -
  obtain d where d: "snd (FixedWindow_Allow l c t k n) = Ok d"
    using a by (cases "snd (FixedWindow_Allow l c t k n)") auto
  have c: "c = None" "0 < n" using fw.decision_has_policy [OF d] by auto
  have w: "windowFor l k p t = \<lparr>start = s, used = used_in l k s\<rparr>"
    unfolding s_def by (rule fixedWindow.equality) (simp_all add: used_windowFor)
  show "windows (fst (FixedWindow_Allow l c t k n)) k = Some \<lparr>start = s, used = used_in l k s + n\<rparr>"
    and "used_in l k s + n \<le> Limit p"
    using a FixedWindow_Allow_eq [OF inv c(2) p, of t] unfolding w c(1)
    by (auto simp: Let_def split: if_splits)
qed

text \<open>Once the clock has left a window that was counted, no later request falls into it.\<close>

lemma fw_window_closed:
  assumes inv: "fw_inv l" and p: "map_of (fw_policies l) k = Some p"
    and sorted: "sorted (map q_now (q # qs))"
    and start: "\<And>w. windows l k = Some w \<Longrightarrow> start w \<le> q_now q"
    and out: "time_Truncate (q_now q) (Window p) \<noteq> s"
  shows "used_in l k s = 0 \<or> approved_cost (\<lambda>t. time_Truncate t (Window p) = s) k qs rs = 0"
proof (cases "\<exists>v. windows l k = Some v \<and> start v = s")
  case True
  then obtain v where v: "windows l k = Some v" "start v = s" by auto
  have W: "0 < Window p"
    using inv p by (auto simp: fw_inv_def policy_ok_def dest: policies_ok_lookup)
  have "time_Truncate s (Window p) = s"
    using fw_inv_lookup [OF inv v(1) p] v(2) by (simp add: window_ok_def)
  then have "s < time_Truncate (q_now q) (Window p)"
    using time_Truncate_mono [OF W, of s "q_now q"] start [OF v(1)] v(2) out by simp
  then have "time_Truncate (q_now q') (Window p) \<noteq> s" if "q' \<in> set qs" for q'
    using time_Truncate_mono [OF W, of "q_now q" "q_now q'"] sorted that by auto
  then show ?thesis by (auto intro: approved_cost_none)
next
  case False
  then show ?thesis by (auto simp: used_in_def split: option.splits)
qed

lemma fw_window_quota_gen:
  assumes "fw_inv l" "map_of (fw_policies l) k = Some p" "sorted (map q_now qs)"
    and "\<And>w q. windows l k = Some w \<Longrightarrow> q \<in> set qs \<Longrightarrow> start w \<le> q_now q"
  shows "approved_cost (\<lambda>t. time_Truncate t (Window p) = s) k qs
      (snd (run_limiter FixedWindow_Allow l qs)) \<le> Limit p - used_in l k s"
  using assms
proof (induction qs arbitrary: l)
  case Nil
  then show ?case by (simp add: used_in_le)
next
  case (Cons q qs)
  let ?a = "FixedWindow_Allow l (q_ctx q) (q_now q) (q_key q) (q_cost q)"
  let ?rest = "approved_cost (\<lambda>t. time_Truncate t (Window p) = s) k qs
      (snd (run_limiter FixedWindow_Allow (fst ?a) qs))"
  let ?s = "time_Truncate (q_now q) (Window p)"
  have pol: "map_of (fw_policies (fst ?a)) k = Some p"
    using Cons.prems(2) fw.allow_pol [of l] by (metis fw_pol_def)
  show ?case
  proof (cases "q_key q = k \<and> approved (snd ?a)")
    case True
    then have w: "windows (fst ?a) k = Some \<lparr>start = ?s, used = used_in l k ?s + q_cost q\<rparr>"
      using fw_approved_state [OF Cons.prems(1)] Cons.prems(2) by auto
    have "start w \<le> q_now q'" if "windows (fst ?a) k = Some w" "q' \<in> set qs" for w q'
      using that w Cons.prems(3) time_Truncate_le [of "q_now q" "Window p"] by fastforce
    then have IH: "?rest \<le> Limit p - used_in (fst ?a) k s"
      using Cons.prems pol by (intro Cons.IH) (auto simp: FixedWindow_Allow_inv)
    show ?thesis
    proof (cases "?s = s")
      case True
      have "used_in (fst ?a) k s = used_in l k s + q_cost q"
        using True by (simp add: used_in_def [of "fst ?a"] w)
      then show ?thesis using IH True \<open>q_key q = k \<and> _\<close> by (auto simp: run_limiter_Cons Let_def)
    next
      case False
      have "used_in (fst ?a) k s = 0" using False by (simp add: used_in_def w)
      moreover have "used_in l k s = 0 \<or> ?rest = 0"
        using Cons.prems False by (intro fw_window_closed) auto
      ultimately show ?thesis
        using IH False used_in_le [OF Cons.prems(1,2)] by (auto simp: run_limiter_Cons Let_def)
    qed
  next
    case False
    have same: "windows (fst ?a) k = windows l k"
      using False fw_denied_state fw.slot_other [of k "q_key q" l] by (cases "q_key q = k") auto
    have "?rest \<le> Limit p - used_in (fst ?a) k s"
      by (rule Cons.IH) (use Cons.prems pol same in \<open>auto simp: FixedWindow_Allow_inv\<close>)
    moreover have "used_in (fst ?a) k s = used_in l k s" by (simp add: used_in_def same)
    ultimately show ?thesis using False by (auto simp: run_limiter_Cons Let_def)
  qed
qed

section \<open>Properties\<close>

lemma New_fw_inv:
  assumes "NewFixedWindowRateLimiter ps b = Ok l" "policies_typed ps"
  shows "fw_inv l" and "fw_policies l = ps" and "windows l = Map.empty"
  using assms validate_policies_ok [of ps]
  by (auto simp: NewFixedWindowRateLimiter_def validateFixedWindowPolicies_def fw_inv_def
      split: option.splits if_splits)

text \<open>
  C11. A limiter built by \<open>NewFixedWindowRateLimiter\<close>, serving any sequence of requests for
  any keys at times that do not go back, approves for each key in each aligned window
  (the instants that truncate to \<open>s\<close>) at most the policy's limit.
\<close>

theorem fw_window_quota:
  assumes "NewFixedWindowRateLimiter ps True = Ok l" and "policies_typed ps"
    and "map_of ps k = Some p" and "sorted (map q_now qs)"
  shows "approved_cost (\<lambda>t. time_Truncate t (Window p) = s) k qs
    (snd (run_limiter FixedWindow_Allow l qs)) \<le> Limit p"
  using fw_window_quota_gen [of l k p qs s] New_fw_inv [OF assms(1,2)] assms(3,4)
  by (simp add: used_in_def)

theorem fw_window_quota_witness:
  "approved_cost (\<lambda>t. time_Truncate t (60 * 10 ^ 9) = 0) ex_key
     [ex_req 1 2, ex_req 5 2, ex_req 7 1]
     (snd (run_limiter FixedWindow_Allow
       \<lparr>fw_policies = ex_policies 3 (60 * 10 ^ 9), windows = Map.empty\<rparr>
       [ex_req 1 2, ex_req 5 2, ex_req 7 1])) \<le> 3"
  using fw_window_quota [of "ex_policies 3 (60 * 10 ^ 9)"
      "\<lparr>fw_policies = ex_policies 3 (60 * 10 ^ 9), windows = Map.empty\<rparr>" ex_key
      "\<lparr>Limit = 3, Window = 60 * 10 ^ 9\<rparr>" "[ex_req 1 2, ex_req 5 2, ex_req 7 1]" 0]
  by (simp add: NewFixedWindowRateLimiter_def validateFixedWindowPolicies_def ex_simps
      policies_typed_def in64_def min_int64_def max_int64_def)

text \<open>
  Two adjacent aligned windows cover every interval of the window's length, so the cost
  approved in it is at most twice the limit.
\<close>

lemma approved_cost_split:
  assumes "\<And>t. P t \<Longrightarrow> Q t \<or> R t"
  shows "approved_cost P k qs (snd (run_limiter FixedWindow_Allow l qs)) \<le>
    approved_cost Q k qs (snd (run_limiter FixedWindow_Allow l qs)) +
    approved_cost R k qs (snd (run_limiter FixedWindow_Allow l qs))"
proof (induction qs arbitrary: l)
  case (Cons q qs)
  let ?a = "FixedWindow_Allow l (q_ctx q) (q_now q) (q_key q) (q_cost q)"
  have "0 < q_cost q" if "approved (snd ?a)"
    using that fw.decision_has_policy by (cases "snd ?a") auto
  then show ?case
    using Cons [of "fst ?a"] assms [of "q_now q"] by (auto simp: run_limiter_Cons Let_def)
qed simp

lemma interval_two_windows:
  assumes W: "0 < w" and t: "a \<le> t" "t < a + w"
  shows "time_Truncate t w = time_Truncate a w \<or> time_Truncate t w = time_Truncate (a + w) w"
proof (cases "t < time_Truncate a w + w")
  case True
  then show ?thesis
    using assms time_Truncate_le [of a w] time_Truncate_unique [OF W, of a t] by auto
next
  case False
  have "time_Truncate (a + w) w = time_Truncate a w + w"
    using W by (simp add: time_Truncate_def)
  moreover have "t < time_Truncate (a + w) w + w"
    using t time_Truncate_window [OF W, of "a + w"] by linarith
  ultimately show ?thesis
    using False time_Truncate_unique [OF W, of "a + w" t] by simp
qed

lemma fw_interval_quota:
  assumes "NewFixedWindowRateLimiter ps True = Ok l" "policies_typed ps" "map_of ps k = Some p"
    "sorted (map q_now qs)"
  shows "approved_cost (\<lambda>t. a \<le> t \<and> t < a + Window p) k qs
    (snd (run_limiter FixedWindow_Allow l qs)) \<le> 2 * Limit p"
proof -
  note new = New_fw_inv [OF assms(1,2)]
  have W: "0 < Window p"
    using new assms(3) by (auto simp: fw_inv_def policy_ok_def dest: policies_ok_lookup)
  have quota: "approved_cost (\<lambda>t. time_Truncate t (Window p) = s) k qs
      (snd (run_limiter FixedWindow_Allow l qs)) \<le> Limit p" for s
    using fw_window_quota_gen [OF new(1), of k p qs s] new assms(3,4) by (simp add: used_in_def)
  have "approved_cost (\<lambda>t. a \<le> t \<and> t < a + Window p) k qs (snd (run_limiter FixedWindow_Allow l qs)) \<le>
    approved_cost (\<lambda>t. time_Truncate t (Window p) = time_Truncate a (Window p)) k qs
      (snd (run_limiter FixedWindow_Allow l qs)) +
    approved_cost (\<lambda>t. time_Truncate t (Window p) = time_Truncate (a + Window p) (Window p)) k qs
      (snd (run_limiter FixedWindow_Allow l qs))"
    by (rule approved_cost_split) (use interval_two_windows [OF W] in blast)
  then show ?thesis using quota [of "time_Truncate a (Window p)"]
      quota [of "time_Truncate (a + Window p) (Window p)"] by linarith
qed

lemma fw_first_request:
  assumes inv: "fw_inv l" and p: "map_of (fw_policies l) k = Some p"
    and new: "used_in l k (time_Truncate t (Window p)) = 0" and n: "0 < n" "n \<le> Limit p"
  shows "approved (snd (FixedWindow_Allow l None t k n))"
  using FixedWindow_Allow_eq [OF inv n(1) p, of t] new n(2)
  by (simp add: Let_def used_windowFor)

text \<open>
  C31. The fixed-window limiter admits a burst of twice the limit around a window boundary
  and never more: two requests of the full limit, one nanosecond before a boundary and at
  it, are both approved, and in every interval of one window's length every sequence of
  requests in order of time is approved at most twice the limit.
\<close>

theorem fw_boundary_burst:
  assumes "NewFixedWindowRateLimiter ps True = Ok l" and "policies_typed ps"
    and "map_of ps k = Some p"
    and "burst = [\<lparr>q_ctx = None, q_now = b * Window p - 1, q_key = k, q_cost = Limit p\<rparr>,
                  \<lparr>q_ctx = None, q_now = b * Window p, q_key = k, q_cost = Limit p\<rparr>]"
  shows "approved_cost (\<lambda>t. b * Window p - 1 \<le> t \<and> t \<le> b * Window p) k burst
      (snd (run_limiter FixedWindow_Allow l burst)) = 2 * Limit p \<and>
    (\<forall>qs a. sorted (map q_now qs) \<longrightarrow>
      approved_cost (\<lambda>t. a \<le> t \<and> t < a + Window p) k qs
        (snd (run_limiter FixedWindow_Allow l qs)) \<le> 2 * Limit p)"
proof -
  note new = New_fw_inv [OF assms(1,2)]
  have p: "policy_ok p" using new assms(3) by (auto simp: fw_inv_def dest: policies_ok_lookup)
  then have W: "0 < Window p" and L: "0 < Limit p" by (auto simp: policy_ok_def)
  let ?t = "b * Window p - 1" and ?u = "b * Window p"
  let ?l = "fst (FixedWindow_Allow l None ?t k (Limit p))"
  have pol: "map_of (fw_policies l) k = Some p" "map_of (fw_policies ?l) k = Some p"
    using assms(3) new(2) fw.allow_pol [of l None ?t k "Limit p"] by (simp_all add: fw_pol_def)
  have 1: "approved (snd (FixedWindow_Allow l None ?t k (Limit p)))"
    using fw_first_request [OF new(1) pol(1) _ L] new(3) by (simp add: used_in_def)
  have "time_Truncate ?t (Window p) \<noteq> time_Truncate ?u (Window p)"
    using time_Truncate_le [of ?t "Window p"] W by (simp add: time_Truncate_def)
  then have "used_in ?l k (time_Truncate ?u (Window p)) = 0"
    using fw_approved_state(1) [OF new(1) 1 pol(1)] by (simp add: used_in_def)
  then have 2: "approved (snd (FixedWindow_Allow ?l None ?u k (Limit p)))"
    using fw_first_request [OF FixedWindow_Allow_inv [OF new(1)] pol(2) _ L] by simp
  show ?thesis
    using 1 2 fw_interval_quota [OF assms(1-3)]
    by (auto simp: assms(4) run_limiter_Cons Let_def)
qed

theorem fw_boundary_burst_witness:
  "let l = \<lparr>fw_policies = ex_policies 3 (60 * 10 ^ 9), windows = Map.empty\<rparr>;
       burst = [ex_req (60 * 10 ^ 9 - 1) 3, ex_req (60 * 10 ^ 9) 3]
   in approved_cost (\<lambda>t. 60 * 10 ^ 9 - 1 \<le> t \<and> t \<le> 60 * 10 ^ 9) ex_key burst
        (snd (run_limiter FixedWindow_Allow l burst)) = 6"
  using fw_boundary_burst [of "ex_policies 3 (60 * 10 ^ 9)"
      "\<lparr>fw_policies = ex_policies 3 (60 * 10 ^ 9), windows = Map.empty\<rparr>" ex_key
      "\<lparr>Limit = 3, Window = 60 * 10 ^ 9\<rparr>" "[ex_req (60 * 10 ^ 9 - 1) 3, ex_req (60 * 10 ^ 9) 3]" 1]
  by (simp add: NewFixedWindowRateLimiter_def validateFixedWindowPolicies_def ex_simps
      policies_typed_def in64_def min_int64_def max_int64_def)



end
