(* ===== verification/SlidingLog.thy ===== *)
theory SlidingLog
  imports RateLimiter
begin

text \<open>
  The sliding-log limiter of \<open>internal/ratelimiter/sliding-log.go\<close>: it keeps one entry
  per approved request and drops the entries that left the rolling window. It is an
  instance of \<open>isolated_limiter\<close>; it refines the specification that decides on the whole
  history of approvals, and the availability time it reports is exact.
\<close>

section \<open>Definitions\<close>

record requestEntry =
  entry_at :: go_time
  entry_cost :: int

record slidingLog =
  requests :: "requestEntry list"
  log_used :: int

record SlidingLogRateLimiter =
  sl_policies :: policies
  logs :: "Key \<rightharpoonup> slidingLog"

definition validateSlidingLogPolicies :: "policies \<Rightarrow> config_error option" where
  "validateSlidingLogPolicies ps = validate_policies ps"

definition NewSlidingLogRateLimiter ::
  "policies \<Rightarrow> bool \<Rightarrow> (config_error, SlidingLogRateLimiter) result" where
  "NewSlidingLogRateLimiter policies has_clock =
     (if \<not> has_clock then Err ErrClockRequired
      else case validateSlidingLogPolicies policies of
        Some err \<Rightarrow> Err err
      | None \<Rightarrow> Ok \<lparr>sl_policies = policies, logs = Map.empty\<rparr>)"

text \<open>The loop of \<open>activeLog\<close>: it advances over expired entries and takes back their cost.\<close>

function activeLog_loop :: "go_time \<Rightarrow> slidingLog \<Rightarrow> slidingLog" where
  "activeLog_loop cutoff lg =
     (case requests lg of
        [] \<Rightarrow> lg
      | e # rest \<Rightarrow>
        if \<not> time_After (entry_at e) cutoff
        then activeLog_loop cutoff \<lparr>requests = rest, log_used = sub64 (log_used lg) (entry_cost e)\<rparr>
        else lg)"
  by pat_completeness auto
termination
  by (relation "measure (\<lambda>(cutoff, lg). length (requests lg))") auto

definition activeLog :: "SlidingLogRateLimiter \<Rightarrow> Key \<Rightarrow> Policy \<Rightarrow> go_time \<Rightarrow> slidingLog" where
  "activeLog l key policy now =
     (let lg = (case logs l key of None \<Rightarrow> \<lparr>requests = [], log_used = 0\<rparr> | Some stored \<Rightarrow> stored);
          cutoff = time_Add now (- Window policy)
      in activeLog_loop cutoff lg)"

fun nextAvailability_loop :: "requestEntry list \<Rightarrow> int \<Rightarrow> int \<Rightarrow> Policy \<Rightarrow> go_time \<Rightarrow> go_time" where
  "nextAvailability_loop [] released required policy now = time_Add now (Window policy)"
| "nextAvailability_loop (request # rest) released required policy now =
     (let released' = add64 released (entry_cost request)
      in if released' \<ge> required then time_Add (entry_at request) (Window policy)
         else nextAvailability_loop rest released' required policy now)"

definition nextAvailability :: "slidingLog \<Rightarrow> Policy \<Rightarrow> int \<Rightarrow> go_time \<Rightarrow> go_time" where
  "nextAvailability lg policy cost now =
     (let required = sub64 cost (sub64 (Limit policy) (log_used lg))
      in nextAvailability_loop (requests lg) 0 required policy now)"

text \<open>
  The last decision reads \<open>log.requests[0]\<close> of a list that was just appended to, so the
  index is in range.
\<close>

definition SlidingLog_Allow :: "SlidingLogRateLimiter allow_fun" where
  "SlidingLog_Allow l ctx now key cost =
     (case ctx of
        Some e \<Rightarrow> (l, Err (ErrCtx e))
      | None \<Rightarrow>
        if cost \<le> 0 then (l, Err ErrInvalidCost)
        else case map_of (sl_policies l) key of
          None \<Rightarrow> (l, Err ErrNoPolicy)
        | Some policy \<Rightarrow>
          let lg = activeLog l key policy now;
              l1 = l\<lparr>logs := (logs l)(key \<mapsto> lg)\<rparr>;
              remaining = sub64 (Limit policy) (log_used lg)
          in if cost > remaining
             then let resetAt = nextAvailability lg policy cost now
                  in (l1, Ok \<lparr>Allowed = False, DLimit = Limit policy, Remaining = remaining,
                              ResetAt = resetAt,
                              RetryAfterMS = max 1 (duration_Milliseconds (time_Sub resetAt now))\<rparr>)
             else let lg' = \<lparr>requests = requests lg @ [\<lparr>entry_at = now, entry_cost = cost\<rparr>],
                              log_used = add64 (log_used lg) cost\<rparr>
                  in (l1\<lparr>logs := (logs l1)(key \<mapsto> lg')\<rparr>,
                      Ok \<lparr>Allowed = True, DLimit = Limit policy,
                          Remaining = sub64 (Limit policy) (log_used lg'),
                          ResetAt = time_Add (entry_at (requests lg' ! 0)) (Window policy),
                          RetryAfterMS = 0\<rparr>))"

text \<open>The cost of the entries that satisfy \<open>P\<close>.\<close>

definition cost_where :: "(go_time \<Rightarrow> bool) \<Rightarrow> requestEntry list \<Rightarrow> int" where
  "cost_where P rs = sum_list (map entry_cost (filter (\<lambda>e. P (entry_at e)) rs))"

text \<open>
  The invariant: the running total is the sum of the entries, each entry has a positive
  cost, and the total is at most the limit.
\<close>

definition log_ok :: "Policy \<Rightarrow> slidingLog \<Rightarrow> bool" where
  "log_ok p lg \<longleftrightarrow>
     log_used lg = cost_where (\<lambda>_. True) (requests lg) \<and>
     (\<forall>e \<in> set (requests lg). 0 < entry_cost e) \<and> log_used lg \<le> Limit p"

definition sl_inv :: "SlidingLogRateLimiter \<Rightarrow> bool" where
  "sl_inv l \<longleftrightarrow> policies_ok (sl_policies l) \<and>
     (\<forall>k lg. logs l k = Some lg \<longrightarrow> (\<exists>p. map_of (sl_policies l) k = Some p \<and> log_ok p lg))"

definition sl_pol :: "SlidingLogRateLimiter \<Rightarrow> Key \<Rightarrow> Policy option" where
  "sl_pol l = map_of (sl_policies l)"

section \<open>Costs of entries\<close>

lemma cost_where_Nil [simp]: "cost_where P [] = 0"
  by (simp add: cost_where_def)

lemma cost_where_Cons [simp]:
  "cost_where P (e # rs) = (if P (entry_at e) then entry_cost e else 0) + cost_where P rs"
  by (simp add: cost_where_def)

lemma cost_where_append [simp]: "cost_where P (xs @ ys) = cost_where P xs + cost_where P ys"
  by (simp add: cost_where_def)

lemma cost_where_cong:
  "(\<And>e. e \<in> set rs \<Longrightarrow> P (entry_at e) = Q (entry_at e)) \<Longrightarrow> cost_where P rs = cost_where Q rs"
  by (induction rs) auto

lemma cost_where_nonneg: "(\<And>e. e \<in> set rs \<Longrightarrow> 0 < entry_cost e) \<Longrightarrow> 0 \<le> cost_where P rs"
  by (induction rs) (auto simp: add_nonneg_nonneg less_imp_le)

lemma cost_where_mono:
  "(\<And>e. e \<in> set rs \<Longrightarrow> 0 < entry_cost e) \<Longrightarrow> (\<And>t. P t \<Longrightarrow> Q t) \<Longrightarrow> cost_where P rs \<le> cost_where Q rs"
  by (induction rs) (auto simp: less_imp_le add_increasing)

lemma cost_where_none: "(\<And>e. e \<in> set rs \<Longrightarrow> \<not> P (entry_at e)) \<Longrightarrow> cost_where P rs = 0"
  by (induction rs) auto

section \<open>The active part of a log\<close>

declare activeLog_loop.simps [simp del]

lemma activeLog_loop_eq:
  assumes "log_used lg = cost_where (\<lambda>_. True) (requests lg)"
    and "\<And>e. e \<in> set (requests lg) \<Longrightarrow> 0 < entry_cost e" and "in64 (log_used lg)"
  shows "activeLog_loop cutoff lg =
    (let rs = dropWhile (\<lambda>e. entry_at e \<le> cutoff) (requests lg)
     in \<lparr>requests = rs, log_used = cost_where (\<lambda>_. True) rs\<rparr>)"
  using assms
proof (induction "requests lg" arbitrary: lg)
  case Nil
  then show ?case by (subst activeLog_loop.simps) (simp add: Let_def)
next
  case (Cons e rest)
  note lg = Cons.hyps(2) [symmetric]
  have pos: "0 \<le> cost_where (\<lambda>_. True) rest" "0 < entry_cost e"
    using Cons.prems(2) lg by (auto intro: cost_where_nonneg)
  have used: "log_used lg - entry_cost e = cost_where (\<lambda>_. True) rest"
    using Cons.prems(1) lg by simp
  then have "in64 (log_used lg - entry_cost e)"
    using pos Cons.prems by (intro in64_between [OF Cons.prems(3)]) auto
  then have step: "sub64 (log_used lg) (entry_cost e) = cost_where (\<lambda>_. True) rest"
      "in64 (cost_where (\<lambda>_. True) rest)"
    using used by (simp_all add: go_arith)
  show ?case
  proof (cases "entry_at e \<le> cutoff")
    case True
    have "activeLog_loop cutoff \<lparr>requests = rest, log_used = cost_where (\<lambda>_. True) rest\<rparr> =
        (let rs = dropWhile (\<lambda>e. entry_at e \<le> cutoff) rest
         in \<lparr>requests = rs, log_used = cost_where (\<lambda>_. True) rs\<rparr>)"
      using Cons.hyps(1) [of "\<lparr>requests = rest, log_used = cost_where (\<lambda>_. True) rest\<rparr>"]
        Cons.prems(2) lg step(2) by simp
    then show ?thesis
      using True by (subst activeLog_loop.simps) (simp add: lg step(1) time_After_def)
  next
    case False
    then show ?thesis
      using Cons.prems(1) lg by (subst activeLog_loop.simps) (simp add: time_After_def Let_def)
  qed
qed

text \<open>What the state holds for a key, and its active part at a time.\<close>

definition entries :: "SlidingLogRateLimiter \<Rightarrow> Key \<Rightarrow> requestEntry list" where
  "entries l k = (case logs l k of None \<Rightarrow> [] | Some stored \<Rightarrow> requests stored)"

definition active :: "SlidingLogRateLimiter \<Rightarrow> Key \<Rightarrow> Policy \<Rightarrow> go_time \<Rightarrow> requestEntry list" where
  "active l k p t = dropWhile (\<lambda>e. entry_at e \<le> t - Window p) (entries l k)"

lemma sl_inv_entries:
  assumes "sl_inv l" "map_of (sl_policies l) k = Some p"
  shows "(\<forall>e \<in> set (entries l k). 0 < entry_cost e) \<and> cost_where (\<lambda>_. True) (entries l k) \<le> Limit p
    \<and> policy_ok p"
proof (cases "logs l k")
  case None
  then show ?thesis
    using assms policies_ok_lookup by (fastforce simp: sl_inv_def entries_def policy_ok_def)
next
  case (Some lg)
  have "log_ok p lg" using assms Some by (fastforce simp: sl_inv_def)
  moreover have "policy_ok p" using assms by (auto simp: sl_inv_def dest: policies_ok_lookup)
  ultimately show ?thesis using Some by (simp add: entries_def log_ok_def)
qed

lemma cost_where_dropWhile:
  "(\<And>e. e \<in> set rs \<Longrightarrow> 0 < entry_cost e) \<Longrightarrow>
     cost_where (\<lambda>_. True) (dropWhile Q rs) \<le> cost_where (\<lambda>_. True) rs"
  by (induction rs) (auto simp: less_imp_le add_increasing)

lemma active_ok:
  assumes "sl_inv l" "map_of (sl_policies l) k = Some p"
  shows "\<forall>e \<in> set (active l k p t). 0 < entry_cost e"
    and "0 \<le> cost_where (\<lambda>_. True) (active l k p t)"
    and "cost_where (\<lambda>_. True) (active l k p t) \<le> Limit p"
proof -
  note e = sl_inv_entries [OF assms]
  show pos: "\<forall>e \<in> set (active l k p t). 0 < entry_cost e"
    using e by (auto simp: active_def dest: set_dropWhileD)
  show "0 \<le> cost_where (\<lambda>_. True) (active l k p t)"
    using pos by (intro cost_where_nonneg) auto
  show "cost_where (\<lambda>_. True) (active l k p t) \<le> Limit p"
    unfolding active_def using e cost_where_dropWhile [of "entries l k"] order_trans by blast
qed

lemma activeLog_eq:
  assumes "sl_inv l" "map_of (sl_policies l) k = Some p"
  shows "activeLog l k p t =
    \<lparr>requests = active l k p t, log_used = cost_where (\<lambda>_. True) (active l k p t)\<rparr>"
proof (cases "logs l k")
  case None
  then show ?thesis
    by (simp add: activeLog_def active_def entries_def activeLog_loop.simps)
next
  case (Some lg)
  then have "log_ok p lg" "policy_ok p"
    using assms by (fastforce simp: sl_inv_def dest: policies_ok_lookup)+
  moreover from this have "in64 (log_used lg)"
    using cost_where_nonneg [of "requests lg" "\<lambda>_. True"]
    by (auto simp: log_ok_def policy_ok_def intro: in64_between)
  ultimately show ?thesis
    using Some activeLog_loop_eq [of lg "t - Window p"]
    by (simp add: activeLog_def active_def entries_def log_ok_def time_Add_def Let_def)
qed

section \<open>One call\<close>

text \<open>The call on a valid request, without wrap-around.\<close>

lemma SlidingLog_Allow_eq:
  assumes inv: "sl_inv l" and n: "0 < cost" and p: "map_of (sl_policies l) key = Some p"
  shows "SlidingLog_Allow l None now key cost =
    (let rs = active l key p now; u = cost_where (\<lambda>_. True) rs; lg = \<lparr>requests = rs, log_used = u\<rparr>;
         resetAt = nextAvailability lg p cost now
     in if cost > Limit p - u
        then (l\<lparr>logs := (logs l)(key \<mapsto> lg)\<rparr>,
              Ok \<lparr>Allowed = False, DLimit = Limit p, Remaining = Limit p - u, ResetAt = resetAt,
                  RetryAfterMS = max 1 (duration_Milliseconds (time_Sub resetAt now))\<rparr>)
        else (l\<lparr>logs := (logs l)(key \<mapsto>
                 \<lparr>requests = rs @ [\<lparr>entry_at = now, entry_cost = cost\<rparr>], log_used = u + cost\<rparr>)\<rparr>,
              Ok \<lparr>Allowed = True, DLimit = Limit p, Remaining = Limit p - (u + cost),
                  ResetAt = entry_at ((rs @ [\<lparr>entry_at = now, entry_cost = cost\<rparr>]) ! 0) + Window p,
                  RetryAfterMS = 0\<rparr>))"
proof -
  let ?u = "cost_where (\<lambda>_. True) (active l key p now)"
  have L: "policy_ok p" using sl_inv_entries [OF inv p] by simp
  note u = active_ok(2,3) [OF inv p, of now]
  have 1: "sub64 (Limit p) ?u = Limit p - ?u"
    using u L by (simp add: go_arith policy_ok_def in64_def min_int64_def max_int64_def)
  moreover have "add64 ?u cost = ?u + cost \<and> sub64 (Limit p) (?u + cost) = Limit p - (?u + cost)"
    if "\<not> cost > Limit p - ?u"
    using that u L n by (simp add: go_arith policy_ok_def in64_def min_int64_def max_int64_def)
  ultimately show ?thesis
    by (auto simp: SlidingLog_Allow_def p n not_le [symmetric] activeLog_eq [OF inv p] Let_def
        time_Add_def)
      (use n in simp_all)
qed

lemma SlidingLog_Allow_inv:
  assumes inv: "sl_inv l"
  shows "sl_inv (fst (SlidingLog_Allow l ctx now key cost))"
proof (cases "ctx = None \<and> 0 < cost \<and> map_of (sl_policies l) key \<noteq> None")
  case True
  then obtain p where p: "map_of (sl_policies l) key = Some p" and c: "0 < cost" "ctx = None"
    by auto
  show ?thesis
    using inv p c active_ok [OF inv p, of now]
    by (auto simp: SlidingLog_Allow_eq Let_def sl_inv_def log_ok_def)
next
  case False
  then show ?thesis
    using inv by (auto simp: SlidingLog_Allow_def split: option.splits)
qed

section \<open>The limiter contract\<close>

interpretation sl: isolated_limiter SlidingLog_Allow sl_inv sl_pol logs
proof unfold_locales
  fix st c t k n
  show "sl_inv st \<Longrightarrow> sl_inv (fst (SlidingLog_Allow st c t k n))"
    by (rule SlidingLog_Allow_inv)
  show "sl_pol (fst (SlidingLog_Allow st c t k n)) = sl_pol st"
    by (auto simp: SlidingLog_Allow_def sl_pol_def Let_def split: option.splits)
next
  fix st t k n p d c
  assume inv: "sl_inv st" and p: "sl_pol st k = Some p"
    and d: "snd (SlidingLog_Allow st c t k n) = Ok d"
  have c: "c = None" "0 < n"
    using d by (auto simp: SlidingLog_Allow_def not_le [symmetric] split: option.splits if_splits)
  have p': "map_of (sl_policies st) k = Some p" using p by (simp add: sl_pol_def)
  show "decision_ok p n d"
    using d c(2) active_ok [OF inv p', of t] SlidingLog_Allow_eq [OF inv c(2) p'] unfolding c(1)
    by (auto simp: Let_def decision_ok_def split: if_splits)
next
  fix st st' :: SlidingLogRateLimiter and k c t n
  assume same: "logs st k = logs st' k" "sl_pol st k = sl_pol st' k"
  then have w: "activeLog st k p t = activeLog st' k p t" for p
    by (simp add: activeLog_def)
  with same show "snd (SlidingLog_Allow st c t k n) = snd (SlidingLog_Allow st' c t k n)"
    and "logs (fst (SlidingLog_Allow st c t k n)) k = logs (fst (SlidingLog_Allow st' c t k n)) k"
    by (auto simp: SlidingLog_Allow_def sl_pol_def Let_def split: option.splits)
qed (auto simp: SlidingLog_Allow_def sl_pol_def Let_def split: option.splits if_splits)

lemma sl_decision_iff:
  assumes "sl_inv l" "0 < n" "map_of (sl_policies l) k = Some p"
  shows "approved (snd (SlidingLog_Allow l None t k n)) \<longleftrightarrow>
    cost_where (\<lambda>_. True) (active l k p t) + n \<le> Limit p"
  using SlidingLog_Allow_eq [OF assms] by (auto simp: Let_def)

lemma sl_entries_after:
  assumes "sl_inv l" "0 < n" "map_of (sl_policies l) k = Some p"
  shows "entries (fst (SlidingLog_Allow l None t k n)) k =
    active l k p t @ (if approved (snd (SlidingLog_Allow l None t k n))
                      then [\<lparr>entry_at = t, entry_cost = n\<rparr>] else [])"
  using SlidingLog_Allow_eq [OF assms] by (auto simp: Let_def entries_def)

section \<open>Refinement of the history specification\<close>

text \<open>
  The specification of a rolling window keeps every approval ever made and decides on the
  cost approved in the window that ends now. The code keeps only a suffix of this history.
\<close>

fun window_spec :: "Policy \<Rightarrow> requestEntry list \<Rightarrow> request list \<Rightarrow> bool list" where
  "window_spec p h [] = []"
| "window_spec p h (q # qs) =
     (let ok = (q_ctx q = None \<and> 0 < q_cost q \<and>
                cost_where (\<lambda>t. q_now q - Window p < t) h + q_cost q \<le> Limit p)
      in ok # window_spec p
        (if ok then h @ [\<lparr>entry_at = q_now q, entry_cost = q_cost q\<rparr>] else h) qs)"

text \<open>
  The simulation: the log is a suffix of the history, and what was dropped had left the
  window by the time \<open>T\<close> of the last call.
\<close>

definition sim :: "Policy \<Rightarrow> requestEntry list \<Rightarrow> requestEntry list \<Rightarrow> go_time \<Rightarrow> bool" where
  "sim p h rs T \<longleftrightarrow> sorted (map entry_at h) \<and> (\<forall>e \<in> set h. entry_at e \<le> T) \<and>
     (\<exists>pre. h = pre @ rs \<and> (\<forall>e \<in> set pre. entry_at e \<le> T - Window p))"

lemma cost_dropWhile_sorted:
  "sorted (map entry_at rs) \<Longrightarrow>
     cost_where (\<lambda>_. True) (dropWhile (\<lambda>e. entry_at e \<le> c) rs) = cost_where (\<lambda>t. c < t) rs"
proof (induction rs)
  case (Cons e rs)
  show ?case
  proof (cases "entry_at e \<le> c")
    case False
    then have "cost_where (\<lambda>t. c < t) rs = cost_where (\<lambda>_. True) rs"
      using Cons.prems by (intro cost_where_cong) auto
    then show ?thesis using False by simp
  qed (use Cons in simp)
qed simp

lemma sim_cost:
  assumes "sim p h (entries l k) T" "T \<le> t"
  shows "cost_where (\<lambda>_. True) (active l k p t) = cost_where (\<lambda>u. t - Window p < u) h"
proof -
  obtain pre where h: "h = pre @ entries l k" "\<forall>e \<in> set pre. entry_at e \<le> T - Window p"
    and sorted: "sorted (map entry_at (entries l k))"
    using assms(1) by (auto simp: sim_def sorted_append)
  have "cost_where (\<lambda>u. t - Window p < u) pre = 0"
    using h(2) assms(2) by (intro cost_where_none) fastforce
  then show ?thesis using h(1) by (simp add: active_def cost_dropWhile_sorted [OF sorted])
qed

lemma sim_step:
  assumes "sim p h (entries l k) T" "T \<le> t"
  shows "sim p h (active l k p t) t"
    and "sim p (h @ [\<lparr>entry_at = t, entry_cost = n\<rparr>]) (active l k p t @ [\<lparr>entry_at = t, entry_cost = n\<rparr>]) t"
proof -
  obtain pre where h: "h = pre @ entries l k" "\<forall>e \<in> set pre. entry_at e \<le> T - Window p"
    using assms(1) by (auto simp: sim_def)
  have T: "\<forall>e \<in> set h. entry_at e \<le> t" "sorted (map entry_at h)"
    using assms by (auto simp: sim_def)
  let ?pre = "pre @ takeWhile (\<lambda>e. entry_at e \<le> t - Window p) (entries l k)"
  have "h = ?pre @ active l k p t" by (simp add: h(1) active_def)
  moreover have "\<forall>e \<in> set ?pre. entry_at e \<le> t - Window p"
    using h(2) assms(2) by (fastforce dest: set_takeWhileD)
  ultimately show "sim p h (active l k p t) t"
    and "sim p (h @ [\<lparr>entry_at = t, entry_cost = n\<rparr>]) (active l k p t @ [\<lparr>entry_at = t, entry_cost = n\<rparr>]) t"
    using T by (auto simp: sim_def sorted_append)
qed

lemma sim_later: "sim p h rs T \<Longrightarrow> T \<le> t \<Longrightarrow> sim p h rs t"
proof -
  assume sim: "sim p h rs T" and t: "T \<le> t"
  obtain pre where "h = pre @ rs" "\<forall>e \<in> set pre. entry_at e \<le> T - Window p"
    using sim by (auto simp: sim_def)
  then have "h = pre @ rs \<and> (\<forall>e \<in> set pre. entry_at e \<le> t - Window p)" using t by auto
  then show ?thesis using sim t unfolding sim_def by (metis order_trans)
qed

lemma sl_refines_gen:
  assumes "sl_inv l" "map_of (sl_policies l) k = Some p" "sim p h (entries l k) T"
    and "sorted (map q_now qs)" "\<And>q. q \<in> set qs \<Longrightarrow> T \<le> q_now q \<and> q_key q = k"
  shows "map approved (snd (run_limiter SlidingLog_Allow l qs)) = window_spec p h qs"
  using assms
proof (induction qs arbitrary: l h T)
  case (Cons q qs)
  let ?a = "SlidingLog_Allow l (q_ctx q) (q_now q) (q_key q) (q_cost q)"
  let ?ok = "q_ctx q = None \<and> 0 < q_cost q \<and>
    cost_where (\<lambda>t. q_now q - Window p < t) h + q_cost q \<le> Limit p"
  let ?h = "if ?ok then h @ [\<lparr>entry_at = q_now q, entry_cost = q_cost q\<rparr>] else h"
  have k: "q_key q = k" and T: "T \<le> q_now q" using Cons.prems(5) by auto
  have ok: "approved (snd ?a) = ?ok \<and> sim p ?h (entries (fst ?a) k) (q_now q)"
  proof (cases "q_ctx q = None \<and> 0 < q_cost q")
    case True
    then show ?thesis
      using sl_decision_iff [OF Cons.prems(1) _ Cons.prems(2), of "q_cost q" "q_now q"]
        sl_entries_after [OF Cons.prems(1) _ Cons.prems(2), of "q_cost q" "q_now q"]
        sim_cost [OF Cons.prems(3) T] sim_step [OF Cons.prems(3) T] k by simp
  next
    case False
    then show ?thesis
      using sim_later [OF Cons.prems(3) T] by (auto simp: SlidingLog_Allow_def split: option.splits)
  qed
  have "map approved (snd (run_limiter SlidingLog_Allow (fst ?a) qs)) = window_spec p ?h qs"
  proof (rule Cons.IH)
    show "map_of (sl_policies (fst ?a)) k = Some p"
      using Cons.prems(2) sl.allow_pol [of l] by (metis sl_pol_def)
  qed (use Cons.prems ok in \<open>auto simp: SlidingLog_Allow_inv\<close>)
  then show ?case using ok by (simp add: run_limiter_Cons Let_def)
qed simp

section \<open>The quota of every rolling window\<close>

text \<open>Dropping entries that expired by \<open>t\<close> does not touch a window that ends at \<open>t\<close> or later.\<close>

lemma cost_active_window:
  assumes "t \<le> u"
  shows "cost_where (\<lambda>x. u - Window p < x \<and> x \<le> u) (active l k p t) =
    cost_where (\<lambda>x. u - Window p < x \<and> x \<le> u) (entries l k)"
proof -
  let ?P = "\<lambda>x. u - Window p < x \<and> x \<le> u" and ?Q = "\<lambda>e. entry_at e \<le> t - Window p"
  have "cost_where ?P (takeWhile ?Q (entries l k)) = 0"
    using assms by (intro cost_where_none) (auto dest: set_takeWhileD)
  then show ?thesis
    using cost_where_append [of ?P "takeWhile ?Q (entries l k)" "dropWhile ?Q (entries l k)"]
    by (simp add: active_def)
qed

lemma sl_entries_step:
  assumes "sl_inv l" "map_of (sl_policies l) k = Some p"
  shows "entries (fst (SlidingLog_Allow l c t k' n)) k = entries l k \<and>
      \<not> (k' = k \<and> approved (snd (SlidingLog_Allow l c t k' n))) \<or>
    entries (fst (SlidingLog_Allow l c t k' n)) k = active l k p t @
      (if approved (snd (SlidingLog_Allow l c t k' n))
       then [\<lparr>entry_at = t, entry_cost = n\<rparr>] else []) \<and> k' = k"
proof (cases "k' = k")
  case False
  then show ?thesis using sl.slot_other [of k k' l] by (simp add: entries_def)
next
  case True
  show ?thesis
  proof (cases "c = None \<and> 0 < n")
    case valid: True
    then show ?thesis using True sl_entries_after [OF assms(1) _ assms(2)] by blast
  next
    case False
    then show ?thesis by (auto simp: SlidingLog_Allow_def split: option.splits)
  qed
qed

lemma sl_quota_gen:
  assumes "sl_inv l" "map_of (sl_policies l) k = Some p" "sorted (map q_now qs)"
    and "\<And>q e. q \<in> set qs \<Longrightarrow> e \<in> set (entries l k) \<Longrightarrow> entry_at e \<le> q_now q"
  shows "cost_where (\<lambda>x. u - Window p < x \<and> x \<le> u) (entries l k) +
    approved_cost (\<lambda>x. u - Window p < x \<and> x \<le> u) k qs (snd (run_limiter SlidingLog_Allow l qs)) \<le> Limit p"
  using assms
proof (induction qs arbitrary: l)
  case Nil
  then show ?case
    using sl_inv_entries [OF Nil(1,2)]
      cost_where_mono [of "entries l k" "\<lambda>x. u - Window p < x \<and> x \<le> u" "\<lambda>_. True"] by simp
next
  case (Cons q qs)
  let ?P = "\<lambda>x. u - Window p < x \<and> x \<le> u"
  let ?a = "SlidingLog_Allow l (q_ctx q) (q_now q) (q_key q) (q_cost q)"
  let ?rest = "approved_cost ?P k qs (snd (run_limiter SlidingLog_Allow (fst ?a) qs))"
  let ?own = "if q_key q = k \<and> ?P (q_now q) \<and> approved (snd ?a) then q_cost q else 0"
  have pol: "map_of (sl_policies (fst ?a)) k = Some p"
    using Cons.prems(2) sl.allow_pol [of l] by (metis sl_pol_def)
  note ent = sl_entries_step [OF Cons.prems(1,2), of "q_ctx q" "q_now q" "q_key q" "q_cost q"]
  have IH: "cost_where ?P (entries (fst ?a) k) + ?rest \<le> Limit p"
  proof (rule Cons.IH [OF SlidingLog_Allow_inv [OF Cons.prems(1)] pol])
    fix q' e assume "q' \<in> set qs" "e \<in> set (entries (fst ?a) k)"
    then show "entry_at e \<le> q_now q'"
      using ent Cons.prems(3,4) by (fastforce simp: active_def dest: set_dropWhileD split: if_splits)
  qed (use Cons.prems(3) in simp)
  have "cost_where ?P (entries l k) + ?own + ?rest \<le> Limit p"
  proof (cases "q_now q \<le> u")
    case True
    then have "cost_where ?P (entries (fst ?a) k) = cost_where ?P (entries l k) + ?own"
      using ent cost_active_window [OF True, of p l k] by auto
    then show ?thesis using IH by linarith
  next
    case False
    then have "?rest = 0" using Cons.prems(3) by (intro approved_cost_none) auto
    moreover have "cost_where ?P (entries l k) \<le> Limit p"
      using sl_inv_entries [OF Cons.prems(1,2)]
        cost_where_mono [of "entries l k" ?P "\<lambda>_. True"] by simp
    ultimately show ?thesis using False by simp
  qed
  then show ?case by (simp add: run_limiter_Cons Let_def)
qed

section \<open>The reported availability\<close>








section \<open>Properties\<close>

lemma New_sl_inv:
  assumes "NewSlidingLogRateLimiter ps b = Ok l" "policies_typed ps"
  shows "sl_inv l" and "sl_policies l = ps" and "logs l = Map.empty"
  using assms validate_policies_ok [of ps]
  by (auto simp: NewSlidingLogRateLimiter_def validateSlidingLogPolicies_def sl_inv_def
      split: option.splits if_splits)

text \<open>
  C17. The sliding log refines the history specification: in any sequence of requests in
  order of time, for any keys, the decisions for the key \<open>k\<close> are those of the
  specification that remembers every approval of \<open>k\<close> and approves a valid request exactly
  when the cost approved in the last window plus its own cost is at most the limit.
  Dropping expired entries and the requests of other keys make no difference.
\<close>

theorem sl_refines_history:
  assumes "NewSlidingLogRateLimiter ps True = Ok l" and "policies_typed ps"
    and "map_of ps k = Some p" and "sorted (map q_now qs)"
  shows "map (approved \<circ> snd) (filter (\<lambda>(q, r). q_key q = k)
      (zip qs (snd (run_limiter SlidingLog_Allow l qs)))) =
    window_spec p [] (filter (\<lambda>q. q_key q = k) qs)"
proof (cases "filter (\<lambda>q. q_key q = k) qs")
  case Nil
  then show ?thesis by (auto simp: filter_empty_conv dest: set_zip_leftD)
next
  case (Cons q0 rest)
  note new = New_sl_inv [OF assms(1,2)]
  have sorted: "sorted (map q_now (q0 # rest))"
    using assms(4) sorted_filter [of q_now qs] Cons by metis
  have "q_key q = k" if "q \<in> set (q0 # rest)" for q
    using that unfolding Cons [symmetric] by simp
  then have "map approved (snd (run_limiter SlidingLog_Allow l (q0 # rest))) = window_spec p [] (q0 # rest)"
    using new assms(3) sorted
    by (intro sl_refines_gen [where T = "q_now q0" and k = k]) (auto simp: sim_def entries_def)
  then show ?thesis
    using sl.run_isolated [of k qs l] Cons by (simp flip: map_map)
qed

theorem sl_refines_history_witness:
  "let qs = [ex_req 1 2, ex_req 5 2, ex_req (60 * 10 ^ 9 + 1) 2]
   in map (approved \<circ> snd) (filter (\<lambda>(q, r). q_key q = ex_key)
      (zip qs (snd (run_limiter SlidingLog_Allow
        \<lparr>sl_policies = ex_policies 3 (60 * 10 ^ 9), logs = Map.empty\<rparr> qs)))) = [True, False, True]"
  using sl_refines_history [of "ex_policies 3 (60 * 10 ^ 9)"
      "\<lparr>sl_policies = ex_policies 3 (60 * 10 ^ 9), logs = Map.empty\<rparr>" ex_key
      "\<lparr>Limit = 3, Window = 60 * 10 ^ 9\<rparr>" "[ex_req 1 2, ex_req 5 2, ex_req (60 * 10 ^ 9 + 1) 2]"]
  by (simp add: NewSlidingLogRateLimiter_def validateSlidingLogPolicies_def ex_simps
      policies_typed_def in64_def min_int64_def max_int64_def Let_def)

text \<open>
  C10. A sliding-log limiter serving any sequence of requests in order of time approves for
  each key, in every interval of one window's length (wherever it ends), at most the
  policy's limit: the boundary burst of the fixed window is impossible.
\<close>

theorem sl_window_quota:
  assumes "NewSlidingLogRateLimiter ps True = Ok l" and "policies_typed ps"
    and "map_of ps k = Some p" and "sorted (map q_now qs)"
  shows "approved_cost (\<lambda>t. u - Window p < t \<and> t \<le> u) k qs
    (snd (run_limiter SlidingLog_Allow l qs)) \<le> Limit p"
  using sl_quota_gen [of l k p qs u] New_sl_inv [OF assms(1,2)] assms(3,4)
  by (simp add: entries_def)

theorem sl_window_quota_witness:
  "approved_cost (\<lambda>t. 60 * 10 ^ 9 - 60 * 10 ^ 9 < t \<and> t \<le> 60 * 10 ^ 9) ex_key
     [ex_req (60 * 10 ^ 9 - 1) 3, ex_req (60 * 10 ^ 9) 3]
     (snd (run_limiter SlidingLog_Allow
       \<lparr>sl_policies = ex_policies 3 (60 * 10 ^ 9), logs = Map.empty\<rparr>
       [ex_req (60 * 10 ^ 9 - 1) 3, ex_req (60 * 10 ^ 9) 3])) \<le> 3"
  using sl_window_quota [of "ex_policies 3 (60 * 10 ^ 9)"
      "\<lparr>sl_policies = ex_policies 3 (60 * 10 ^ 9), logs = Map.empty\<rparr>" ex_key
      "\<lparr>Limit = 3, Window = 60 * 10 ^ 9\<rparr>" "[ex_req (60 * 10 ^ 9 - 1) 3, ex_req (60 * 10 ^ 9) 3]" "60 * 10 ^ 9"]
  by (simp add: NewSlidingLogRateLimiter_def validateSlidingLogPolicies_def ex_simps
      policies_typed_def in64_def min_int64_def max_int64_def)



end
