(* ===== verification/Float64.thy ===== *)
theory Float64
  imports Prelude "HOL-Library.Log_Nat"
begin

text \<open>
  IEEE 754 binary64 arithmetic, as Go's \<open>float64\<close> and the numbers of Redis' Lua 5.1
  use it. A finite float is the rational number it denotes; every operation is the exact
  rational operation followed by \<open>rnd\<close>, rounding to nearest, ties to even, with 53 bits
  of significand and the subnormal exponent bound -1074. The definitions compute.
  Infinities and NaNs are not represented: the operands of the program are bounded by
  2 powers 63 and its divisors are positive, so no operation leaves the finite range.

  The locale \<open>rounding\<close> is the interface the limiters rely on (monotone, exact at 0,
  relative error at most \<open>eps\<close> above a threshold); it is interpreted here on \<open>rnd\<close>.
\<close>

section \<open>Definitions\<close>

text \<open>The binary exponent: \<open>2 powi ilog2 x \<le> x < 2 powi (ilog2 x + 1)\<close> for positive \<open>x\<close>.\<close>

definition ilog2 :: "rat \<Rightarrow> int" where
  "ilog2 x =
     (let (n, d) = quotient_of x;
          k = bitlen n - bitlen d
      in if 2 powi k \<le> x then k else k - 1)"

text \<open>Round to the nearest integer, ties to even.\<close>

definition rne :: "rat \<Rightarrow> int" where
  "rne x =
     (let f = \<lfloor>x\<rfloor>; r = x - of_int f
      in if r < 1 / 2 then f
         else if 1 / 2 < r then f + 1
         else if even f then f else f + 1)"

text \<open>The exponent of the last place of the binary64 numbers around \<open>x\<close>.\<close>

definition ulp_exp :: "rat \<Rightarrow> int" where
  "ulp_exp x = max (- 1074) (ilog2 \<bar>x\<bar> - 52)"

definition rnd :: "rat \<Rightarrow> rat" where
  "rnd x =
     (if x = 0 then 0
      else sgn x * of_int (rne (\<bar>x\<bar> / 2 powi ulp_exp x)) * 2 powi ulp_exp x)"

text \<open>The operations of \<open>float64\<close> and the conversions from and to integers.\<close>

definition fadd :: "rat \<Rightarrow> rat \<Rightarrow> rat" where
  "fadd x y = rnd (x + y)"

definition fsub :: "rat \<Rightarrow> rat \<Rightarrow> rat" where
  "fsub x y = rnd (x - y)"

definition fmul :: "rat \<Rightarrow> rat \<Rightarrow> rat" where
  "fmul x y = rnd (x * y)"

definition fdiv :: "rat \<Rightarrow> rat \<Rightarrow> rat" where
  "fdiv x y = rnd (x / y)"

definition float64 :: "int \<Rightarrow> rat" where
  "float64 n = rnd (of_int n)"

text \<open>\<open>math.Floor\<close> and \<open>math.Ceil\<close> give an integral float; \<open>int64(f)\<close> truncates it.\<close>

definition fceil :: "rat \<Rightarrow> rat" where
  "fceil x = of_int \<lceil>x\<rceil>"

definition ffloor :: "rat \<Rightarrow> rat" where
  "ffloor x = of_int \<lfloor>x\<rfloor>"

definition int_of_float :: "rat \<Rightarrow> int" where
  "int_of_float x = (if 0 \<le> x then \<lfloor>x\<rfloor> else \<lceil>x\<rceil>)"

definition is_float :: "rat \<Rightarrow> bool" where
  "is_float x \<longleftrightarrow> rnd x = x"

section \<open>The binary exponent\<close>

lemma powi2_pos [simp]: "0 < (2::rat) powi e"
  by (simp add: zero_less_power_int)

lemma powi2_mono: "e \<le> e' \<Longrightarrow> (2::rat) powi e \<le> 2 powi e'"
  by (intro power_int_increasing) auto

lemma powi2_Suc: "(2::rat) powi (e + 1) = 2 * 2 powi e"
  by (simp add: power_int_add)

lemma powi2_less_iff: "(2::rat) powi e < 2 powi e' \<longleftrightarrow> e < e'"
proof
  assume "(2::rat) powi e < 2 powi e'"
  then show "e < e'" using powi2_mono [of e' e] by linarith
next
  assume "e < e'"
  then have "(2::rat) powi (e + 1) \<le> 2 powi e'" by (intro powi2_mono) simp
  then show "(2::rat) powi e < 2 powi e'"
    using powi2_pos [of e] unfolding powi2_Suc by linarith
qed

lemma bitlen_powi_bounds:
  assumes "0 < n"
  shows "(2::rat) powi (bitlen n - 1) \<le> of_int n" and "of_int n < (2::rat) powi bitlen n"
proof -
  have b: "2 ^ nat (bitlen n - 1) \<le> n" "n < 2 ^ nat (bitlen n)"
    using bitlen_bounds [OF assms] by auto
  have nn: "0 \<le> bitlen n - 1" "0 \<le> bitlen n"
    using assms bitlen_eq_zero_iff [of n] bitlen_nonneg [of n] by linarith+
  from b(1) have "(of_int (2 ^ nat (bitlen n - 1)) :: rat) \<le> of_int n" by (rule of_int_le_iff [THEN iffD2])
  then show "(2::rat) powi (bitlen n - 1) \<le> of_int n" using nn by (simp add: power_int_def)
  from b(2) have "(of_int n :: rat) < of_int (2 ^ nat (bitlen n))" by (rule of_int_less_iff [THEN iffD2])
  then show "of_int n < (2::rat) powi bitlen n" using nn by (simp add: power_int_def)
qed

lemma ilog2_bounds:
  assumes "0 < x"
  shows "2 powi ilog2 x \<le> x" and "x < 2 powi (ilog2 x + 1)"
proof -
  obtain n d where q: "quotient_of x = (n, d)" by force
  have d: "0 < d" using quotient_of_denom_pos [OF q] .
  have x: "x = of_int n / of_int d" using quotient_of_div [OF q] .
  have n: "0 < n" using assms d x by (simp add: zero_less_divide_iff)
  let ?k = "bitlen n - bitlen d"
  have "x < 2 powi bitlen n / 2 powi (bitlen d - 1)"
    unfolding x using bitlen_powi_bounds [OF n] bitlen_powi_bounds [OF d] n
    by (intro frac_less) auto
  then have hi: "x < 2 powi (?k + 1)"
    by (simp add: power_int_diff power_int_add field_simps)
  have "2 powi (bitlen n - 1) / 2 powi bitlen d \<le> x"
    unfolding x using bitlen_powi_bounds [OF n] bitlen_powi_bounds [OF d] d n
    by (intro frac_le) (auto simp: less_imp_le)
  then have lo: "2 powi (?k - 1) \<le> x"
    by (simp add: power_int_diff power_int_add field_simps)
  have k: "ilog2 x = (if 2 powi ?k \<le> x then ?k else ?k - 1)"
    by (simp add: ilog2_def q Let_def)
  show "2 powi ilog2 x \<le> x" using lo by (simp add: k)
  show "x < 2 powi (ilog2 x + 1)" using hi by (auto simp: k)
qed

lemma ilog2_unique:
  assumes "0 < x" "2 powi e \<le> x" "x < 2 powi (e + 1)"
  shows "ilog2 x = e"
proof -
  have "2 powi e < (2::rat) powi (ilog2 x + 1)"
    using assms ilog2_bounds [OF assms(1)] by linarith
  moreover have "2 powi ilog2 x < (2::rat) powi (e + 1)"
    using assms ilog2_bounds [OF assms(1)] by linarith
  ultimately show ?thesis unfolding powi2_less_iff by linarith
qed

lemma ilog2_mono:
  assumes "0 < x" "x \<le> y"
  shows "ilog2 x \<le> ilog2 y"
proof -
  have "2 powi ilog2 x < (2::rat) powi (ilog2 y + 1)"
    using ilog2_bounds [of x] ilog2_bounds [of y] assms by linarith
  then show ?thesis unfolding powi2_less_iff by linarith
qed

section \<open>Rounding to an integer\<close>

lemma rne_of_int [simp]: "rne (of_int n) = n"
  by (simp add: rne_def)

lemma rne_err: "\<bar>of_int (rne x) - x\<bar> \<le> 1 / 2"
  unfolding rne_def Let_def by (simp only: abs_le_iff split: if_split; linarith)

lemma rne_floor_ceil: "rne x = \<lfloor>x\<rfloor> \<or> rne x = \<lfloor>x\<rfloor> + 1 \<and> 1 / 2 \<le> x - of_int \<lfloor>x\<rfloor>"
  unfolding rne_def Let_def by auto

lemma rne_mono:
  assumes "x \<le> y"
  shows "rne x \<le> rne y"
proof (cases "\<lfloor>x\<rfloor> = \<lfloor>y\<rfloor>")
  case True
  with assms show ?thesis unfolding rne_def Let_def by auto
next
  case False
  with assms have "\<lfloor>x\<rfloor> < \<lfloor>y\<rfloor>" by (simp add: floor_mono order_less_le)
  moreover have "rne x \<le> \<lfloor>x\<rfloor> + 1" using rne_floor_ceil [of x] by auto
  moreover have "\<lfloor>y\<rfloor> \<le> rne y" using rne_floor_ceil [of y] by auto
  ultimately show ?thesis by linarith
qed

lemma rne_ge_int: "of_int n \<le> x \<Longrightarrow> n \<le> rne x"
  using rne_mono [of "of_int n" x] by simp

lemma rne_le_int: "x \<le> of_int n \<Longrightarrow> rne x \<le> n"
  using rne_mono [of x "of_int n"] by simp

lemma rne_eqI:
  assumes "\<bar>of_int m - x\<bar> < 1 / 2 \<or> even m \<and> \<bar>of_int m - x\<bar> = 1 / 2"
  shows "rne x = m"
  using assms
proof
  assume "\<bar>of_int m - x\<bar> < 1 / 2"
  then have "\<bar>of_int (rne x) - of_int m\<bar> < (1::rat)" using rne_err [of x] by linarith
  then have "\<bar>of_int (rne x - m)\<bar> < (1::rat)" by simp
  then have "\<bar>rne x - m\<bar> < 1" by (metis of_int_abs of_int_less_1_iff)
  then show ?thesis by simp
next
  assume m: "even m \<and> \<bar>of_int m - x\<bar> = 1 / 2"
  then consider "x = of_int m + 1 / 2" | "x = of_int (m - 1) + 1 / 2" by (simp add: abs_if split: if_splits)
  then show ?thesis
  proof cases
    case 1
    then have "\<lfloor>x\<rfloor> = m" by linarith
    then show ?thesis using 1 m by (simp add: rne_def)
  next
    case 2
    then have "\<lfloor>x\<rfloor> = m - 1" by linarith
    then show ?thesis using 2 m by (simp add: rne_def)
  qed
qed

section \<open>Rounding to binary64\<close>

lemma rnd_0 [simp, float_simps]: "rnd 0 = 0"
  by (simp add: rnd_def)

lemma rnd_pos_eq:
  "0 < x \<Longrightarrow> rnd x = of_int (rne (x / 2 powi ulp_exp x)) * 2 powi ulp_exp x"
  by (simp add: rnd_def)

lemma ulp_exp_minus [simp]: "ulp_exp (- x) = ulp_exp x"
  by (simp add: ulp_exp_def)

lemma rnd_minus: "rnd (- x) = - rnd x"
  by (simp add: rnd_def sgn_minus)

lemma rnd_nonneg:
  assumes "0 \<le> x"
  shows "0 \<le> rnd x"
proof (cases "x = 0")
  case False
  with assms have x: "0 < x" by simp
  have "0 \<le> rne (x / 2 powi ulp_exp x)"
    by (rule rne_ge_int) (use x in simp)
  then show ?thesis by (simp add: rnd_pos_eq [OF x])
qed simp

lemma ulp_exp_mono: "0 < x \<Longrightarrow> x \<le> y \<Longrightarrow> ulp_exp x \<le> ulp_exp y"
  using ilog2_mono [of x y] by (simp add: ulp_exp_def)

text \<open>Two numbers of different last place are separated by a power of two.\<close>

lemma rnd_le_binade:
  assumes x: "0 < x"
  shows "rnd x \<le> 2 powi (ulp_exp x + 53)"
proof -
  have "x < 2 powi (ilog2 x + 1)" using ilog2_bounds [OF x] by simp
  also have "\<dots> \<le> 2 powi (ulp_exp x + 53)"
    using x by (intro powi2_mono) (simp add: ulp_exp_def)
  finally have "x / 2 powi ulp_exp x \<le> 2 powi 53"
    by (simp add: power_int_add field_simps)
  then have "rne (x / 2 powi ulp_exp x) \<le> 2 ^ 53"
    by (intro rne_le_int) simp
  then have "of_int (rne (x / 2 powi ulp_exp x)) \<le> (of_int (2 ^ 53) :: rat)"
    by (rule of_int_le_iff [THEN iffD2])
  then show ?thesis
    by (simp add: rnd_pos_eq [OF x] power_int_add mult_right_mono)
qed

lemma rnd_ge_binade:
  assumes y: "0 < y" and n: "- 1074 < ulp_exp y"
  shows "2 powi (ulp_exp y + 52) \<le> rnd y"
proof -
  have "ulp_exp y = ilog2 y - 52" using n y by (simp add: ulp_exp_def max_def split: if_splits)
  then have "2 powi (ulp_exp y + 52) \<le> y" using ilog2_bounds [OF y] by simp
  then have "2 powi 52 \<le> y / 2 powi ulp_exp y"
    by (simp add: power_int_add field_simps)
  then have "2 ^ 52 \<le> rne (y / 2 powi ulp_exp y)"
    by (intro rne_ge_int) simp
  then have "(of_int (2 ^ 52) :: rat) \<le> of_int (rne (y / 2 powi ulp_exp y))"
    by (rule of_int_le_iff [THEN iffD2])
  then show ?thesis
    by (simp add: rnd_pos_eq [OF y] power_int_add mult_right_mono)
qed

lemma rnd_mono_pos:
  assumes x: "0 < x" and xy: "x \<le> y"
  shows "rnd x \<le> rnd y"
proof (cases "ulp_exp x = ulp_exp y")
  case True
  have "x / 2 powi ulp_exp y \<le> y / 2 powi ulp_exp y"
    using xy by (simp add: divide_right_mono)
  then show ?thesis
    using x xy True by (simp add: rnd_pos_eq rne_mono mult_right_mono)
next
  case False
  with ulp_exp_mono [OF x xy] have less: "ulp_exp x < ulp_exp y" by simp
  moreover have "- 1074 \<le> ulp_exp x" by (simp add: ulp_exp_def)
  ultimately have "2 powi (ulp_exp y + 52) \<le> rnd y"
    using x xy by (intro rnd_ge_binade) auto
  moreover have "2 powi (ulp_exp x + 53) \<le> (2::rat) powi (ulp_exp y + 52)"
    using less by (intro powi2_mono) simp
  ultimately show ?thesis using rnd_le_binade [OF x] by linarith
qed

lemma rnd_mono:
  assumes "x \<le> y"
  shows "rnd x \<le> rnd y"
proof (cases "0 < x")
  case True
  then show ?thesis using assms by (rule rnd_mono_pos)
next
  case nx: False
  show ?thesis
  proof (cases "0 \<le> y")
    case True
    have "0 \<le> rnd (- x)" using nx by (intro rnd_nonneg) simp
    then show ?thesis using rnd_nonneg [OF True] by (simp add: rnd_minus)
  next
    case False
    then have "rnd (- y) \<le> rnd (- x)" using assms by (intro rnd_mono_pos) auto
    then show ?thesis by (simp add: rnd_minus)
  qed
qed

section \<open>Representable numbers\<close>

lemma rnd_exact_multiple:
  assumes x: "0 < x" and k: "x = of_int k * 2 powi ulp_exp x"
  shows "rnd x = x"
proof -
  have "x / 2 powi ulp_exp x = of_int k" using k by (simp add: field_simps)
  then show ?thesis using k by (simp add: rnd_pos_eq [OF x])
qed

lemma rnd_representable_pos:
  assumes m: "0 < m" "m < 2 ^ 53" and e: "- 1074 \<le> e" and x: "x = of_int m * 2 powi e"
  shows "rnd x = x"
proof -
  have pos: "0 < x" using m by (simp add: x)
  have "of_int m < (of_int (2 ^ 53) :: rat)" using m(2) by (rule of_int_less_iff [THEN iffD2])
  then have "x < 2 powi (e + 53)"
    by (simp add: x power_int_add mult.commute)
  then have "2 powi ilog2 x < (2::rat) powi (e + 53)"
    using ilog2_bounds(1) [OF pos] by linarith
  then have le: "ulp_exp x \<le> e"
    using e pos unfolding powi2_less_iff by (simp add: ulp_exp_def)
  have "(2::rat) powi e = 2 powi (e - ulp_exp x) * 2 powi ulp_exp x"
    by (simp flip: power_int_add)
  also have "(2::rat) powi (e - ulp_exp x) = of_int (2 ^ nat (e - ulp_exp x))"
    using le by (simp add: power_int_def)
  finally have "x = of_int (m * 2 ^ nat (e - ulp_exp x)) * 2 powi ulp_exp x"
    by (simp add: x)
  then show ?thesis by (rule rnd_exact_multiple [OF pos])
qed

lemma rnd_representable:
  assumes m: "\<bar>m\<bar> \<le> 2 ^ 53" and e: "- 1074 \<le> e"
  shows "rnd (of_int m * 2 powi e) = of_int m * 2 powi e"
proof -
  have pos: "rnd (of_int k * 2 powi e) = of_int k * 2 powi e" if k: "0 < k" "k \<le> 2 ^ 53" for k
  proof (cases "k = 2 ^ 53")
    case False
    then show ?thesis using k e by (intro rnd_representable_pos [of k e]) auto
  next
    case True
    have "(of_int k :: rat) * 2 powi e = of_int (2 ^ 52) * 2 powi (e + 1)"
      by (simp add: True powi2_Suc)
    then show ?thesis
      using e by (intro rnd_representable_pos [of "2 ^ 52" "e + 1"]) auto
  qed
  consider "m = 0" | "0 < m" | "0 < - m" by linarith
  then show ?thesis
  proof cases
    case 3
    have "rnd (- (of_int (- m) * 2 powi e)) = - (of_int (- m) * 2 powi e)"
      unfolding rnd_minus using pos [OF 3] m by simp
    then show ?thesis by simp
  qed (use pos m in auto)
qed

lemma rnd_of_int [float_simps]: "\<bar>n\<bar> \<le> 2 ^ 53 \<Longrightarrow> rnd (of_int n) = of_int n"
  using rnd_representable [of n 0] by simp

lemma float64_exact [float_simps]: "\<bar>n\<bar> \<le> 2 ^ 53 \<Longrightarrow> float64 n = of_int n"
  by (simp add: float64_def rnd_of_int)

lemma rnd_1 [simp, float_simps]: "rnd 1 = 1"
  using rnd_of_int [of 1] by simp

lemma rnd_numeral [float_simps]:
  "(numeral k :: int) \<le> 2 ^ 53 \<Longrightarrow> rnd (numeral k) = numeral k"
  using rnd_of_int [of "numeral k"] by simp

lemma rnd_idem [simp]: "rnd (rnd x) = rnd x"
proof -
  have pos: "rnd (rnd y) = rnd y" if y: "0 < y" for y
  proof -
    let ?m = "rne (y / 2 powi ulp_exp y)"
    have "of_int ?m * 2 powi ulp_exp y \<le> (2::rat) powi (ulp_exp y + 53)"
      using rnd_le_binade [OF y] by (simp add: rnd_pos_eq [OF y])
    then have "of_int ?m \<le> (of_int (2 ^ 53) :: rat)"
      by (simp add: power_int_add)
    then have "?m \<le> 2 ^ 53" by (simp only: of_int_le_iff)
    moreover have "0 \<le> ?m" using y by (intro rne_ge_int) simp
    ultimately show ?thesis
      unfolding rnd_pos_eq [OF y] by (intro rnd_representable) (auto simp: ulp_exp_def)
  qed
  consider "x = 0" | "0 < x" | "0 < - x" by linarith
  then show ?thesis
  proof cases
    case 3
    then show ?thesis using pos [OF 3] by (simp add: rnd_minus)
  qed (use pos in auto)
qed

lemma is_float_rnd [simp]: "is_float (rnd x)"
  by (simp add: is_float_def)

lemma is_float_ops [simp]:
  "is_float (fadd x y)" "is_float (fsub x y)" "is_float (fmul x y)" "is_float (fdiv x y)"
  "is_float (float64 n)"
  by (simp_all add: fadd_def fsub_def fmul_def fdiv_def float64_def)

lemma is_float_0 [simp]: "is_float 0"
  by (simp add: is_float_def)

lemma is_float_min [simp]: "is_float x \<Longrightarrow> is_float y \<Longrightarrow> is_float (min x y)"
  by (simp add: min_def)

text \<open>A certificate for one rounding: the binade of \<open>x\<close> and the nearest significand \<open>m\<close>.\<close>

lemma rnd_eqI:
  assumes "2 ^ 52 \<le> x * 2 ^ k" "x * 2 ^ k < 2 ^ 53" "k \<le> 1074"
    and near: "\<bar>of_int m - x * 2 ^ k\<bar> < 1 / 2 \<or> even m \<and> \<bar>of_int m - x * 2 ^ k\<bar> = 1 / 2"
  shows "rnd x = of_int m / 2 ^ k"
proof -
  have pos: "0 < x" using assms(1) by (metis zero_less_mult_pos2 zero_less_power less_le_trans zero_less_numeral)
  have u: "(2::rat) powi (- int k) = 1 / 2 ^ k" by (simp add: power_int_minus inverse_eq_divide)
  have "ilog2 x = 52 - int k"
  proof (rule ilog2_unique [OF pos])
    have "(2::rat) powi (52 - int k) = 2 ^ 52 / 2 ^ k" "(2::rat) powi (53 - int k) = 2 ^ 53 / 2 ^ k"
      by (simp_all add: power_int_diff)
    then show "2 powi (52 - int k) \<le> x" "x < 2 powi (52 - int k + 1)"
      using assms(1,2) by (simp_all add: divide_le_eq less_divide_eq)
  qed
  then have e: "ulp_exp x = - int k" using pos assms(3) by (simp add: ulp_exp_def)
  have "rne (x * 2 ^ k) = m" using near by (rule rne_eqI)
  then show ?thesis using pos by (simp add: rnd_def e u)
qed

section \<open>Rounding error\<close>

definition eps64 :: rat where
  "eps64 = 1 / 2 ^ 53"

definition min_normal :: rat where
  "min_normal = 2 powi (- 1022)"

lemma rnd_err_ulp:
  assumes "0 < x"
  shows "\<bar>rnd x - x\<bar> \<le> 2 powi ulp_exp x / 2"
proof -
  let ?u = "(2::rat) powi ulp_exp x"
  have "rnd x - x = (of_int (rne (x / ?u)) - x / ?u) * ?u"
    by (simp add: rnd_pos_eq [OF assms] left_diff_distrib)
  then have "\<bar>rnd x - x\<bar> = \<bar>of_int (rne (x / ?u)) - x / ?u\<bar> * ?u"
    by (simp add: abs_mult)
  also have "\<dots> \<le> 1 / 2 * ?u" by (intro mult_right_mono rne_err) simp
  finally show ?thesis by simp
qed

lemma rnd_rel_err:
  assumes "min_normal \<le> x"
  shows "\<bar>rnd x - x\<bar> \<le> eps64 * x"
proof -
  have x: "0 < x" using assms powi2_pos [of "- 1022"] unfolding min_normal_def by linarith
  have "(2::rat) powi (- 1022) < 2 powi (ilog2 x + 1)"
    using assms ilog2_bounds(2) [OF x] unfolding min_normal_def by linarith
  then have "- 1022 \<le> ilog2 x" unfolding powi2_less_iff by simp
  then have "ulp_exp x = ilog2 x - 52" using x by (simp add: ulp_exp_def)
  then have "(2::rat) powi ulp_exp x = 2 powi ilog2 x / 2 ^ 52"
    by (simp add: power_int_diff)
  also have "\<dots> \<le> x / 2 ^ 52"
    using ilog2_bounds(1) [OF x] by (intro divide_right_mono) auto
  finally show ?thesis using rnd_err_ulp [OF x] by (simp add: eps64_def)
qed

section \<open>The interface of a rounding\<close>

text \<open>
  What the limiters rely on: rounding is monotone, keeps 0, and errs by at most the
  fraction \<open>eps\<close> on every number of at least \<open>tiny\<close>.
\<close>

locale rounding =
  fixes r :: "rat \<Rightarrow> rat" and eps tiny :: rat
  assumes r_mono: "x \<le> y \<Longrightarrow> r x \<le> r y"
    and r_0: "r 0 = 0"
    and r_rel: "tiny \<le> x \<Longrightarrow> \<bar>r x - x\<bar> \<le> eps * x"
    and eps_range: "0 \<le> eps" "eps < 1"
    and tiny_pos: "0 < tiny"
begin

lemma r_nonneg: "0 \<le> x \<Longrightarrow> 0 \<le> r x"
  using r_mono [of 0 x] r_0 by simp

lemma r_le_fixed: "x \<le> y \<Longrightarrow> r y = y \<Longrightarrow> r x \<le> y"
  using r_mono [of x y] by simp

lemma r_ge_fixed: "y \<le> x \<Longrightarrow> r y = y \<Longrightarrow> y \<le> r x"
  using r_mono [of y x] by simp

lemma r_upper: "tiny \<le> x \<Longrightarrow> r x \<le> (1 + eps) * x"
  using r_rel [of x] by (simp add: abs_le_iff distrib_right)

lemma r_lower: "tiny \<le> x \<Longrightarrow> (1 - eps) * x \<le> r x"
  using r_rel [of x] by (simp add: abs_le_iff left_diff_distrib)

lemma r_err_bound:
  assumes "0 \<le> x" "x \<le> b" "tiny \<le> b"
  shows "\<bar>r x - x\<bar> \<le> eps * b + tiny"
proof (cases "tiny \<le> x")
  case True
  have "\<bar>r x - x\<bar> \<le> eps * x" using True by (rule r_rel)
  also have "\<dots> \<le> eps * b" using assms eps_range by (intro mult_left_mono) auto
  finally show ?thesis using tiny_pos by simp
next
  case False
  have "r x \<le> r tiny" using False by (intro r_mono) simp
  also have "\<dots> \<le> (1 + eps) * tiny" by (rule r_upper) simp
  finally have "r x \<le> tiny + eps * tiny" by (simp add: distrib_right)
  moreover have "eps * tiny \<le> eps * b" using assms eps_range by (intro mult_left_mono) auto
  moreover have "0 \<le> eps * b" using assms eps_range tiny_pos by (intro mult_nonneg_nonneg) auto
  ultimately show ?thesis
    using False assms(1) r_nonneg [OF assms(1)] unfolding abs_le_iff by linarith
qed

end

interpretation f64: rounding rnd eps64 min_normal
proof unfold_locales
  show "0 \<le> eps64" "eps64 < 1" by (simp_all add: eps64_def)
  show "0 < min_normal" unfolding min_normal_def by (rule powi2_pos)
qed (auto intro: rnd_mono rnd_rel_err)

end
