(* ===== verification/BucketArith.thy ===== *)
theory BucketArith
  imports Float64
begin

text \<open>
  The floating-point arithmetic the two token buckets share, with its error analysis. The
  Go bucket computes \<open>float64(elapsed) * float64(limit) / float64(window)\<close> and the Lua
  script \<open>elapsed_ms * capacity / window_ms\<close>: the same two rounded operations. Both then
  add the refill under a cap and subtract the cost.
\<close>

section \<open>Definitions\<close>

definition refill :: "rat \<Rightarrow> rat \<Rightarrow> rat \<Rightarrow> rat" where
  "refill elapsed cap window = fdiv (fmul elapsed cap) window"

definition top_up :: "rat \<Rightarrow> rat \<Rightarrow> rat \<Rightarrow> rat" where
  "top_up cap t r = min cap (fadd t r)"

section \<open>Ranges\<close>

lemma min_normal_le: "min_normal \<le> 1 / 2 ^ 200"
proof -
  have "(2::rat) powi (- 1022) \<le> 2 powi (- 200)" by (rule powi2_mono) simp
  then show ?thesis by (simp add: min_normal_def power_int_def power_divide)
qed

lemma normal_ge: "1 / 2 ^ 200 \<le> x \<Longrightarrow> min_normal \<le> x"
  using min_normal_le by simp

lemma fmul_bounds:
  assumes "1 / 2 ^ 200 \<le> x * y"
  shows "(1 - eps64) * (x * y) \<le> fmul x y" and "fmul x y \<le> (1 + eps64) * (x * y)"
  using f64.r_lower [OF normal_ge [OF assms]] f64.r_upper [OF normal_ge [OF assms]]
  by (simp_all add: fmul_def)

lemma fdiv_bounds:
  assumes "1 / 2 ^ 200 \<le> x / y"
  shows "(1 - eps64) * (x / y) \<le> fdiv x y" and "fdiv x y \<le> (1 + eps64) * (x / y)"
  using f64.r_lower [OF normal_ge [OF assms]] f64.r_upper [OF normal_ge [OF assms]]
  by (simp_all add: fdiv_def)

lemma float64_bounds:
  assumes "1 \<le> n"
  shows "(1 - eps64) * of_int n \<le> float64 n" and "float64 n \<le> (1 + eps64) * of_int n"
    and "1 \<le> float64 n"
proof -
  have "(1::rat) \<le> of_int n" using assms by simp
  then have n: "1 / 2 ^ 200 \<le> (of_int n :: rat)" by (rule order_trans [rotated]) simp
  show "(1 - eps64) * of_int n \<le> float64 n" and "float64 n \<le> (1 + eps64) * of_int n"
    using f64.r_lower [OF normal_ge [OF n]] f64.r_upper [OF normal_ge [OF n]]
    by (simp_all add: float64_def)
  show "1 \<le> float64 n"
    using rnd_mono [of 1 "of_int n"] assms by (simp add: float64_def)
qed

lemma float64_mono: "m \<le> n \<Longrightarrow> float64 m \<le> float64 n"
  by (simp add: float64_def rnd_mono)

lemma float64_nonneg: "0 \<le> n \<Longrightarrow> 0 \<le> float64 n"
  by (simp add: float64_def rnd_nonneg)

lemma float64_le_pow2:
  assumes "n \<le> 2 ^ 63"
  shows "float64 n \<le> 2 ^ 63"
proof -
  have "rnd (of_int 1 * 2 powi 63) = of_int 1 * 2 powi 63"
    by (rule rnd_representable) simp_all
  then have "rnd (2 ^ 63) = 2 ^ 63" by simp
  then show ?thesis
    using rnd_mono [of "of_int n" "2 ^ 63"] assms
    by (simp add: float64_def flip: of_int_le_iff)
qed

section \<open>Refilling\<close>

lemma refill_nonneg: "0 \<le> e \<Longrightarrow> 0 \<le> c \<Longrightarrow> 0 \<le> w \<Longrightarrow> 0 \<le> refill e c w"
  by (simp add: refill_def fdiv_def fmul_def rnd_nonneg)

lemma refill_zero [simp]: "refill 0 c w = 0"
  by (simp add: refill_def fmul_def fdiv_def)

lemma refill_bounds:
  assumes e: "1 \<le> e" and c: "1 \<le> c" and w: "1 \<le> w" "w \<le> 2 ^ 64"
  shows "(1 - eps64)\<^sup>2 * (e * c / w) \<le> refill e c w"
    and "refill e c w \<le> (1 + eps64)\<^sup>2 * (e * c / w)"
proof -
  have ec: "1 \<le> e * c" using mult_mono [of 1 e 1 c] e c by simp
  have eps: "0 \<le> eps64" "eps64 \<le> 1 / 2" by (simp_all add: eps64_def)
  have m: "(1 - eps64) * (e * c) \<le> fmul e c" "fmul e c \<le> (1 + eps64) * (e * c)"
    using fmul_bounds [of e c] ec by (simp_all add: order_trans [rotated, OF ec])
  have "1 / 2 * (e * c) \<le> (1 - eps64) * (e * c)" using eps ec by (intro mult_right_mono) auto
  then have half: "1 / 2 \<le> fmul e c" using m ec by linarith
  have "1 / 2 ^ 200 \<le> (1 / 2) / (2 ^ 64 :: rat)" by simp
  also have "\<dots> \<le> fmul e c / w" using half w by (intro frac_le) auto
  finally have d: "(1 - eps64) * (fmul e c / w) \<le> refill e c w"
    "refill e c w \<le> (1 + eps64) * (fmul e c / w)"
    using fdiv_bounds [of "fmul e c" w] by (auto simp: refill_def)
  have "(1 - eps64) * ((1 - eps64) * (e * c) / w) \<le> (1 - eps64) * (fmul e c / w)"
    using m w eps by (intro mult_left_mono divide_right_mono) auto
  then show "(1 - eps64)\<^sup>2 * (e * c / w) \<le> refill e c w"
    using d by (simp add: power2_eq_square mult.assoc)
  have "(1 + eps64) * (fmul e c / w) \<le> (1 + eps64) * ((1 + eps64) * (e * c) / w)"
    using m w eps by (intro mult_left_mono divide_right_mono) auto
  then show "refill e c w \<le> (1 + eps64)\<^sup>2 * (e * c / w)"
    using d by (simp add: power2_eq_square mult.assoc)
qed

text \<open>Two windows refill an empty bucket completely, whatever the rounding.\<close>

lemma refill_full:
  assumes c: "is_float c" "1 \<le> c" and w: "1 \<le> w" "2 * w \<le> e"
  shows "c \<le> refill e c w"
proof -
  have ec: "1 \<le> e * c" using mult_mono [of 1 e 1 c] w c by simp
  have "w * c \<le> (1 - eps64) * (2 * w * c)" using w c by (simp add: eps64_def)
  also have "\<dots> \<le> (1 - eps64) * (e * c)"
    using w c by (intro mult_left_mono mult_right_mono) (auto simp: eps64_def)
  also have "\<dots> \<le> fmul e c"
    using fmul_bounds(1) [of e c] ec by (simp add: order_trans [rotated, OF ec])
  finally have "c \<le> fmul e c / w" using w by (simp add: field_simps)
  then show ?thesis using c(1) rnd_mono by (metis fdiv_def is_float_def refill_def)
qed

section \<open>Adding under a cap, spending\<close>

lemma top_up_range:
  assumes "0 \<le> t" "0 \<le> r" "0 \<le> cap" "is_float cap"
  shows "0 \<le> top_up cap t r" and "top_up cap t r \<le> cap" and "is_float (top_up cap t r)"
  using assms by (simp_all add: top_up_def fadd_def rnd_nonneg)

lemma top_up_ge:
  assumes "is_float c" "c \<le> cap" "c \<le> t + r"
  shows "c \<le> top_up cap t r"
  using assms rnd_mono [of c "t + r"] by (simp add: top_up_def fadd_def is_float_def)

lemma top_up_keeps:
  assumes "is_float t" "t \<le> cap" "0 \<le> r"
  shows "t \<le> top_up cap t r"
  using assms by (intro top_up_ge) auto

lemma top_up_upper:
  assumes "0 \<le> t" "0 \<le> r" "1 \<le> cap" "t \<le> cap"
  shows "top_up cap t r \<le> t + r + 4 * eps64 * cap"
proof (cases "t + r \<le> 2 * cap")
  case True
  have "min_normal \<le> 2 * eps64 * cap"
  proof -
    have "min_normal \<le> 2 * eps64" using min_normal_le by (simp add: eps64_def)
    also have "\<dots> \<le> 2 * eps64 * cap" using assms by (simp add: eps64_def)
    finally show ?thesis .
  qed
  moreover have "\<bar>rnd (t + r) - (t + r)\<bar> \<le> eps64 * (2 * cap) + min_normal"
    using assms True by (intro f64.r_err_bound normal_ge) (auto intro: order_trans [of _ 1])
  ultimately have "rnd (t + r) \<le> t + r + 4 * eps64 * cap" by (simp add: abs_le_iff)
  then show ?thesis by (simp add: top_up_def fadd_def)
next
  case False
  have "top_up cap t r \<le> cap" by (simp add: top_up_def)
  moreover have "0 \<le> eps64 * cap" using assms by (simp add: eps64_def)
  ultimately show ?thesis using False assms by simp
qed

lemma spend_range:
  assumes "is_float t" "0 \<le> c" "c \<le> t"
  shows "0 \<le> fsub t c" and "fsub t c \<le> t"
proof -
  show "0 \<le> fsub t c" using assms by (simp add: fsub_def rnd_nonneg)
  show "fsub t c \<le> t" using assms rnd_mono [of "t - c" t] by (simp add: fsub_def is_float_def)
qed

lemma spend_upper:
  assumes "0 \<le> c" "c \<le> t" "t \<le> cap" "1 \<le> cap"
  shows "fsub t c \<le> t - c + 2 * eps64 * cap"
proof -
  have "min_normal \<le> eps64" using min_normal_le by (simp add: eps64_def)
  also have "\<dots> \<le> eps64 * cap" using assms by (simp add: eps64_def)
  finally have "min_normal \<le> eps64 * cap" .
  moreover have "\<bar>rnd (t - c) - (t - c)\<bar> \<le> eps64 * cap + min_normal"
    using assms by (intro f64.r_err_bound normal_ge) (auto intro: order_trans [of _ 1])
  ultimately show ?thesis by (simp add: fsub_def abs_le_iff)
qed

lemma floor_float_le:
  assumes "is_float t" "t < float64 n"
  shows "\<lfloor>t\<rfloor> < n"
proof (rule ccontr)
  assume "\<not> \<lfloor>t\<rfloor> < n"
  then have "of_int n \<le> t" by linarith
  then have "float64 n \<le> t" using assms(1) rnd_mono by (metis float64_def is_float_def)
  then show False using assms(2) by simp
qed

end
