(* ===== verification/TokenBucket.thy ===== *)
theory TokenBucket
  imports RateLimiter BucketArith
begin

text \<open>
  The in-memory token bucket of \<open>internal/ratelimiter/token-bucket.go\<close>. Tokens are binary64
  numbers (\<open>Float64\<close>), so every rounding of the code is a rounding of the model. It is an
  instance of \<open>isolated_limiter\<close>. Its own properties bound what it approves over any
  period, rounding errors included, and say when a denied request succeeds.
\<close>

section \<open>Definitions\<close>

record tokenBucket =
  tokens :: rat
  lastRefill :: go_time

record TokenBucketRateLimiter =
  tb_policies :: policies
  buckets :: "Key \<rightharpoonup> tokenBucket"

definition validateTokenBucketPolicies :: "policies \<Rightarrow> config_error option" where
  "validateTokenBucketPolicies ps = validate_policies ps"

definition NewTokenBucketRateLimiter ::
  "policies \<Rightarrow> bool \<Rightarrow> (config_error, TokenBucketRateLimiter) result" where
  "NewTokenBucketRateLimiter policies has_clock =
     (if \<not> has_clock then Err ErrClockRequired
      else case validateTokenBucketPolicies policies of
        Some err \<Rightarrow> Err err
      | None \<Rightarrow> Ok \<lparr>tb_policies = policies, buckets = Map.empty\<rparr>)"

definition refilledBucket :: "TokenBucketRateLimiter \<Rightarrow> Key \<Rightarrow> Policy \<Rightarrow> go_time \<Rightarrow> tokenBucket" where
  "refilledBucket l key policy now =
     (case buckets l key of
        None \<Rightarrow> \<lparr>tokens = float64 (Limit policy), lastRefill = now\<rparr>
      | Some bucket \<Rightarrow>
        let elapsed = time_Sub now (lastRefill bucket)
        in if elapsed \<le> 0 then bucket
           else let refilled = refill (float64 elapsed) (float64 (Limit policy)) (float64 (Window policy))
                in bucket\<lparr>tokens := top_up (float64 (Limit policy)) (tokens bucket) refilled,
                          lastRefill := now\<rparr>)"

definition durationForTokens :: "Policy \<Rightarrow> rat \<Rightarrow> duration" where
  "durationForTokens policy n =
     int_of_float (fceil (fdiv (fmul n (float64 (Window policy))) (float64 (Limit policy))))"

definition wholeTokens :: "rat \<Rightarrow> int" where
  "wholeTokens n = int_of_float (ffloor n)"

definition millisecondsRoundedUp :: "duration \<Rightarrow> int" where
  "millisecondsRoundedUp d = int_of_float (fceil (fdiv (float64 d) (float64 Millisecond)))"

definition TokenBucket_Allow :: "TokenBucketRateLimiter allow_fun" where
  "TokenBucket_Allow l ctx now key cost =
     (case ctx of
        Some e \<Rightarrow> (l, Err (ErrCtx e))
      | None \<Rightarrow>
        if cost \<le> 0 then (l, Err ErrInvalidCost)
        else case map_of (tb_policies l) key of
          None \<Rightarrow> (l, Err ErrNoPolicy)
        | Some policy \<Rightarrow>
          if cost > Limit policy then (l, Err ErrCostExceedsLimit)
          else
            let bucket = refilledBucket l key policy now
            in if float64 cost > tokens bucket
               then let retryAfter = durationForTokens policy (fsub (float64 cost) (tokens bucket))
                    in (l\<lparr>buckets := (buckets l)(key \<mapsto> bucket)\<rparr>,
                        Ok \<lparr>Allowed = False, DLimit = Limit policy,
                            Remaining = wholeTokens (tokens bucket),
                            ResetAt = time_Add now (durationForTokens policy
                              (fsub (float64 (Limit policy)) (tokens bucket))),
                            RetryAfterMS = max 1 (millisecondsRoundedUp retryAfter)\<rparr>)
               else let bucket' = bucket\<lparr>tokens := fsub (tokens bucket) (float64 cost)\<rparr>
                    in (l\<lparr>buckets := (buckets l)(key \<mapsto> bucket')\<rparr>,
                        Ok \<lparr>Allowed = True, DLimit = Limit policy,
                            Remaining = wholeTokens (tokens bucket'),
                            ResetAt = time_Add now (durationForTokens policy
                              (fsub (float64 (Limit policy)) (tokens bucket'))),
                            RetryAfterMS = 0\<rparr>))"

text \<open>
  The invariant. Limits up to \<open>2^53\<close> are the integers binary64 represents exactly; beyond,
  \<open>float64(limit)\<close> is not the limit.
\<close>

definition exact_limits :: "policies \<Rightarrow> bool" where
  "exact_limits ps \<longleftrightarrow> (\<forall>(k, p) \<in> set ps. Limit p \<le> 2 ^ 53)"

definition bucket_ok :: "Policy \<Rightarrow> tokenBucket \<Rightarrow> bool" where
  "bucket_ok p b \<longleftrightarrow> is_float (tokens b) \<and> 0 \<le> tokens b \<and> tokens b \<le> of_int (Limit p)"

definition tb_inv :: "TokenBucketRateLimiter \<Rightarrow> bool" where
  "tb_inv l \<longleftrightarrow> policies_ok (tb_policies l) \<and> exact_limits (tb_policies l) \<and>
     (\<forall>k b. buckets l k = Some b \<longrightarrow> (\<exists>p. map_of (tb_policies l) k = Some p \<and> bucket_ok p b))"

definition tb_pol :: "TokenBucketRateLimiter \<Rightarrow> Key \<Rightarrow> Policy option" where
  "tb_pol l = map_of (tb_policies l)"

section \<open>One call\<close>

lemma tb_inv_policy:
  assumes "tb_inv l" "map_of (tb_policies l) k = Some p"
  shows "policy_ok p" and "Limit p \<le> 2 ^ 53" and "float64 (Limit p) = of_int (Limit p)"
    and "is_float (of_int (Limit p))"
proof -
  show p: "policy_ok p" using assms by (auto simp: tb_inv_def dest: policies_ok_lookup)
  show l: "Limit p \<le> 2 ^ 53"
    using assms by (fastforce simp: tb_inv_def exact_limits_def dest: map_of_SomeD)
  show f: "float64 (Limit p) = of_int (Limit p)" using p l by (simp add: float_simps policy_ok_def)
  show "is_float (of_int (Limit p))" using is_float_ops(5) [of "Limit p"] by (simp add: f)
qed

lemma wholeTokens_eq [simp]: "0 \<le> t \<Longrightarrow> wholeTokens t = \<lfloor>t\<rfloor>"
  by (simp add: wholeTokens_def int_of_float_def ffloor_def)

lemma refilledBucket_ok:
  assumes inv: "tb_inv l" and p: "map_of (tb_policies l) k = Some p"
  shows "bucket_ok p (refilledBucket l k p t)"
proof (cases "buckets l k")
  case None
  then show ?thesis
    using tb_inv_policy [OF inv p] by (simp add: refilledBucket_def bucket_ok_def policy_ok_def)
next
  case (Some b)
  then have b: "bucket_ok p b" using inv p by (fastforce simp: tb_inv_def)
  have "0 \<le> refill (float64 e) (float64 (Limit p)) (float64 (Window p))" if "0 < e" for e
    using that tb_inv_policy(1) [OF inv p]
    by (intro refill_nonneg float64_nonneg) (auto simp: policy_ok_def)
  then show ?thesis
    using b Some tb_inv_policy [OF inv p] top_up_range [of "tokens b" _ "float64 (Limit p)"]
    by (simp add: refilledBucket_def Let_def bucket_ok_def policy_ok_def not_le)
qed

text \<open>The call on a valid request whose cost the policy admits.\<close>

lemma TokenBucket_Allow_eq:
  assumes inv: "tb_inv l" and n: "0 < cost" and p: "map_of (tb_policies l) key = Some p"
    and le: "cost \<le> Limit p"
  shows "TokenBucket_Allow l None now key cost =
    (let b = refilledBucket l key p now
     in if of_int cost > tokens b
        then (l\<lparr>buckets := (buckets l)(key \<mapsto> b)\<rparr>,
              Ok \<lparr>Allowed = False, DLimit = Limit p, Remaining = \<lfloor>tokens b\<rfloor>,
                  ResetAt = now + durationForTokens p (fsub (of_int (Limit p)) (tokens b)),
                  RetryAfterMS =
                    max 1 (millisecondsRoundedUp (durationForTokens p (fsub (of_int cost) (tokens b))))\<rparr>)
        else let b' = b\<lparr>tokens := fsub (tokens b) (of_int cost)\<rparr>
             in (l\<lparr>buckets := (buckets l)(key \<mapsto> b')\<rparr>,
                 Ok \<lparr>Allowed = True, DLimit = Limit p, Remaining = \<lfloor>tokens b'\<rfloor>,
                     ResetAt = now + durationForTokens p (fsub (of_int (Limit p)) (tokens b')),
                     RetryAfterMS = 0\<rparr>))"
proof -
  let ?b = "refilledBucket l key p now"
  have b: "bucket_ok p ?b" using inv p by (rule refilledBucket_ok)
  have c: "float64 cost = of_int cost" "float64 (Limit p) = of_int (Limit p)"
    using n le tb_inv_policy [OF inv p] by (simp_all add: float_simps)
  have "0 \<le> fsub (tokens ?b) (of_int cost)" if "\<not> of_int cost > tokens ?b"
    using that b n by (intro spend_range) (auto simp: bucket_ok_def)
  then show ?thesis
    using b n le by (simp add: TokenBucket_Allow_def p c Let_def time_Add_def bucket_ok_def)
qed

lemma TokenBucket_Allow_inv:
  assumes inv: "tb_inv l"
  shows "tb_inv (fst (TokenBucket_Allow l ctx now key cost))"
proof (cases "ctx = None \<and> 0 < cost \<and> (\<exists>p. map_of (tb_policies l) key = Some p \<and> cost \<le> Limit p)")
  case True
  then obtain p where p: "map_of (tb_policies l) key = Some p" and c: "0 < cost" "ctx = None" "cost \<le> Limit p"
    by auto
  let ?b = "refilledBucket l key p now"
  have b: "bucket_ok p ?b" using inv p by (rule refilledBucket_ok)
  have "bucket_ok p (?b\<lparr>tokens := fsub (tokens ?b) (of_int cost)\<rparr>)" if "\<not> of_int cost > tokens ?b"
    using that b c spend_range [of "tokens ?b" "of_int cost"] by (auto simp: bucket_ok_def)
  then show ?thesis
    using inv p c b by (auto simp: TokenBucket_Allow_eq Let_def tb_inv_def)
next
  case False
  then show ?thesis
    using inv by (auto simp: TokenBucket_Allow_def split: option.splits)
qed

section \<open>The limiter contract\<close>

interpretation tb: isolated_limiter TokenBucket_Allow tb_inv tb_pol buckets
proof unfold_locales
  fix st c t k n
  show "tb_inv st \<Longrightarrow> tb_inv (fst (TokenBucket_Allow st c t k n))"
    by (rule TokenBucket_Allow_inv)
  show "tb_pol (fst (TokenBucket_Allow st c t k n)) = tb_pol st"
    by (auto simp: TokenBucket_Allow_def tb_pol_def Let_def split: option.splits)
next
  fix st t k n p d c
  assume inv: "tb_inv st" and p: "tb_pol st k = Some p"
    and d: "snd (TokenBucket_Allow st c t k n) = Ok d"
  have p': "map_of (tb_policies st) k = Some p" using p by (simp add: tb_pol_def)
  have c: "c = None" "0 < n" "n \<le> Limit p"
    using d p' by (auto simp: TokenBucket_Allow_def not_le [symmetric] split: option.splits if_splits)
  let ?b = "refilledBucket st k p t"
  have b: "bucket_ok p ?b" using inv p' by (rule refilledBucket_ok)
  have "\<lfloor>tokens ?b\<rfloor> \<le> Limit p" using b by (simp add: bucket_ok_def floor_le_iff)
  moreover have "\<lfloor>fsub (tokens ?b) (of_int n)\<rfloor> \<le> Limit p" "0 \<le> fsub (tokens ?b) (of_int n)"
    if "\<not> of_int n > tokens ?b"
    using that b c spend_range [of "tokens ?b" "of_int n"]
    by (auto simp: bucket_ok_def floor_le_iff)
  moreover have "\<lfloor>tokens ?b\<rfloor> < n" if "of_int n > tokens ?b"
    using that by (simp add: floor_less_iff)
  ultimately show "decision_ok p n d"
    using d c(2) TokenBucket_Allow_eq [OF inv c(2) p' c(3)] b unfolding c(1)
    by (auto simp: Let_def decision_ok_def bucket_ok_def split: if_splits)
next
  fix st st' :: TokenBucketRateLimiter and k c t n
  assume same: "buckets st k = buckets st' k" "tb_pol st k = tb_pol st' k"
  then have w: "refilledBucket st k p t = refilledBucket st' k p t" for p
    by (simp add: refilledBucket_def)
  with same show "snd (TokenBucket_Allow st c t k n) = snd (TokenBucket_Allow st' c t k n)"
    and "buckets (fst (TokenBucket_Allow st c t k n)) k = buckets (fst (TokenBucket_Allow st' c t k n)) k"
    by (auto simp: TokenBucket_Allow_def tb_pol_def Let_def split: option.splits)
qed (auto simp: TokenBucket_Allow_def tb_pol_def Let_def split: option.splits if_splits)

section \<open>What the bucket approves over a period\<close>

text \<open>
  All relative rounding errors of one refill together are at most \<open>2^-50\<close>, and the errors
  of one addition and one subtraction are at most \<open>2^-50\<close> of the limit.
\<close>

abbreviation err50 :: rat where
  "err50 \<equiv> 1 / 2 ^ 50"

lemma go_refill_bounds:
  assumes e: "1 \<le> e" and p: "policy_ok p" "Limit p \<le> 2 ^ 53"
  shows "refill (float64 e) (of_int (Limit p)) (float64 (Window p)) \<le>
      (1 + err50) * (of_int (Limit p) / of_int (Window p) * of_int e)"
    and "(1 - err50) * (of_int (Limit p) / of_int (Window p) * of_int e) \<le>
      refill (float64 e) (of_int (Limit p)) (float64 (Window p))"
proof -
  let ?L = "of_int (Limit p) :: rat" and ?W = "of_int (Window p) :: rat" and ?e = "of_int e :: rat"
  have L: "1 \<le> ?L" and W: "1 \<le> ?W" "1 \<le> Window p" "Window p \<le> 2 ^ 63"
    using p(1) by (auto simp: policy_ok_def in64_def max_int64_def)
  have w: "1 \<le> float64 (Window p)" "float64 (Window p) \<le> 2 ^ 64"
    "(1 - eps64) * ?W \<le> float64 (Window p)" "float64 (Window p) \<le> (1 + eps64) * ?W"
    using float64_bounds [OF W(2)] float64_le_pow2 [OF W(3)] by auto
  note f = float64_bounds [OF e]
  note r = refill_bounds [OF f(3) L w(1,2)]
  have pos: "0 < (1 - eps64) * ?W" "0 < (1 + eps64) * ?W" using W by (simp_all add: eps64_def)
  have "float64 e * ?L / float64 (Window p) \<le> ((1 + eps64) * ?e * ?L) / ((1 - eps64) * ?W)"
    using f L w pos e by (intro frac_le mult_right_mono mult_nonneg_nonneg) (auto simp: eps64_def)
  also have "\<dots> = ((1 + eps64) / (1 - eps64)) * (?L / ?W * ?e)" by simp
  finally have "(1 + eps64)\<^sup>2 * (float64 e * ?L / float64 (Window p)) \<le>
      (1 + eps64)\<^sup>2 * (((1 + eps64) / (1 - eps64)) * (?L / ?W * ?e))"
    by (intro mult_left_mono) auto
  also have "\<dots> = ((1 + eps64)\<^sup>2 * ((1 + eps64) / (1 - eps64))) * (?L / ?W * ?e)" by simp
  also have "\<dots> \<le> (1 + err50) * (?L / ?W * ?e)"
    using L W e by (intro mult_right_mono) (auto simp: eps64_def power2_eq_square)
  finally show "refill (float64 e) ?L (float64 (Window p)) \<le> (1 + err50) * (?L / ?W * ?e)"
    using r(2) by linarith
  have "((1 - eps64) * ?e * ?L) / ((1 + eps64) * ?W) \<le> float64 e * ?L / float64 (Window p)"
    using f L w pos e by (intro frac_le mult_right_mono mult_nonneg_nonneg) (auto simp: eps64_def)
  then have "(1 - eps64)\<^sup>2 * (((1 - eps64) / (1 + eps64)) * (?L / ?W * ?e)) \<le>
      (1 - eps64)\<^sup>2 * (float64 e * ?L / float64 (Window p))"
    by (intro mult_left_mono) (auto simp: mult_ac)
  moreover have "(1 - err50) * (?L / ?W * ?e) \<le>
      ((1 - eps64)\<^sup>2 * ((1 - eps64) / (1 + eps64))) * (?L / ?W * ?e)"
    using L W e by (intro mult_right_mono) (auto simp: eps64_def power2_eq_square)
  ultimately show "(1 - err50) * (?L / ?W * ?e) \<le> refill (float64 e) ?L (float64 (Window p))"
    using r(1) by (simp add: mult.assoc)
qed

text \<open>What key \<open>k\<close> may still spend up to time \<open>t1\<close>, for requests from \<open>t0\<close> on.\<close>

definition budget :: "Policy \<Rightarrow> go_time \<Rightarrow> go_time \<Rightarrow> tokenBucket option \<Rightarrow> rat" where
  "budget p t0 t1 ob =
     (let rate = (1 + err50) * (of_int (Limit p) / of_int (Window p))
      in case ob of None \<Rightarrow> of_int (Limit p) + rate * of_int (t1 - t0)
         | Some b \<Rightarrow> tokens b + rate * of_int (t1 - lastRefill b))"

lemma budget_nonneg:
  assumes "policy_ok p" "t0 \<le> t1" "\<And>b. ob = Some b \<Longrightarrow> 0 \<le> tokens b \<and> lastRefill b \<le> t1"
  shows "0 \<le> budget p t0 t1 ob"
proof -
  have "0 \<le> (1 + err50) * (of_int (Limit p) / of_int (Window p)) * (of_int x :: rat)" if "0 \<le> x" for x
    using assms(1) that
    by (intro mult_nonneg_nonneg divide_nonneg_nonneg) (auto simp: policy_ok_def)
  then show ?thesis
    using assms by (cases ob) (auto simp: budget_def Let_def policy_ok_def
        simp del: of_int_diff times_divide_eq_left times_divide_eq_right intro!: add_nonneg_nonneg)
qed

lemma budget_refill:
  assumes inv: "tb_inv l" and p: "map_of (tb_policies l) k = Some p" and t: "t0 \<le> t" "t \<le> t1"
  shows "budget p t0 t1 (Some (refilledBucket l k p t)) \<le>
    budget p t0 t1 (buckets l k) + 4 * eps64 * of_int (Limit p)"
proof -
  note pol = tb_inv_policy [OF inv p]
  let ?L = "of_int (Limit p) :: rat"
  let ?rate = "(1 + err50) * (?L / of_int (Window p))"
  have L: "1 \<le> ?L" and rate: "0 \<le> ?rate" and eps: "0 \<le> eps64 * ?L"
    using pol(1) by (auto simp: policy_ok_def eps64_def)
  have mono: "?rate * of_int x \<le> ?rate * of_int y" if "x \<le> y" for x y
    using that rate by (intro mult_left_mono) auto
  show ?thesis
  proof (cases "buckets l k")
    case None
    then show ?thesis
      using mono [of "t1 - t" "t1 - t0"] t eps pol(3) by (simp add: refilledBucket_def budget_def)
  next
    case (Some b)
    let ?e = "time_Sub t (lastRefill b)"
    have b: "0 \<le> tokens b" "tokens b \<le> ?L"
      using inv p Some by (fastforce simp: tb_inv_def bucket_ok_def)+
    show ?thesis
    proof (cases "?e \<le> 0")
      case True
      then show ?thesis using Some eps by (simp add: refilledBucket_def budget_def)
    next
      case False
      let ?r = "refill (float64 ?e) ?L (float64 (Window p))"
      have e: "1 \<le> ?e" "?e \<le> t - lastRefill b"
        using False time_Sub_pos_iff [of t "lastRefill b"] time_Sub_le [of "lastRefill b" t] by auto
      have "?r \<le> ?rate * of_int ?e"
        using go_refill_bounds(1) [OF e(1) pol(1,2)] by (simp add: mult.assoc)
      also have "\<dots> \<le> ?rate * of_int (t - lastRefill b)" using e(2) by (rule mono)
      finally have r: "?r \<le> ?rate * of_int (t - lastRefill b)" .
      have "0 \<le> ?r"
        using L e pol(1) by (intro refill_nonneg float64_nonneg) (auto simp: policy_ok_def)
      then have "top_up ?L (tokens b) ?r \<le> tokens b + ?r + 4 * eps64 * ?L"
        using b L by (intro top_up_upper) auto
      moreover have "?rate * of_int (t - lastRefill b) + ?rate * of_int (t1 - t) =
          ?rate * of_int (t1 - lastRefill b)"
      proof -
        have "t - lastRefill b + (t1 - t) = t1 - lastRefill b" by simp
        then show ?thesis by (metis of_int_add distrib_left)
      qed
      ultimately show ?thesis
        using Some False r pol(3) by (simp add: refilledBucket_def budget_def Let_def)
    qed
  qed
qed

lemma tb_budget_step:
  assumes inv: "tb_inv l" and p: "map_of (tb_policies l) k = Some p" and t: "t0 \<le> t" "t \<le> t1"
    and a_def: "a = TokenBucket_Allow l c t k' n"
  shows "(if k' = k \<and> approved (snd a) then of_int n else 0) + budget p t0 t1 (buckets (fst a) k) \<le>
    budget p t0 t1 (buckets l k) + err50 * of_int (Limit p)"
proof (cases "k' = k \<and> c = None \<and> 0 < n \<and> n \<le> Limit p")
  case True
  let ?b = "refilledBucket l k p t" and ?L = "of_int (Limit p) :: rat"
  have a: "a = TokenBucket_Allow l None t k n" using True by (simp add: a_def)
  have b: "bucket_ok p ?b" using inv p by (rule refilledBucket_ok)
  have L: "1 \<le> ?L" using tb_inv_policy(1) [OF inv p] by (simp add: policy_ok_def)
  have refill: "budget p t0 t1 (Some ?b) \<le> budget p t0 t1 (buckets l k) + 4 * eps64 * ?L"
    using budget_refill [OF inv p t] .
  have spend: "of_int n + budget p t0 t1 (Some (?b\<lparr>tokens := fsub (tokens ?b) (of_int n)\<rparr>)) \<le>
      budget p t0 t1 (Some ?b) + 2 * eps64 * ?L" if "\<not> of_int n > tokens ?b"
    using spend_upper [of "of_int n" "tokens ?b" ?L] that b L True by (simp add: budget_def bucket_ok_def Let_def)
  show ?thesis
    using refill spend True L unfolding a eps64_def
    by (auto simp: TokenBucket_Allow_eq [OF inv _ p] Let_def split: if_splits)
next
  case False
  have "buckets (fst a) k = buckets l k \<and> \<not> (k' = k \<and> approved (snd a))"
    using False p tb.slot_other [of k k' l]
    by (cases "k' = k") (auto simp: a_def TokenBucket_Allow_def split: option.splits)
  moreover have "0 \<le> err50 * of_int (Limit p)"
    using tb_inv_policy(1) [OF inv p] by (simp add: policy_ok_def)
  ultimately show ?thesis by auto
qed

lemma tb_quota_gen:
  assumes "tb_inv l" "map_of (tb_policies l) k = Some p"
    and "\<And>q. q \<in> set qs \<Longrightarrow> t0 \<le> q_now q \<and> q_now q \<le> t1"
    and "\<And>b. buckets l k = Some b \<Longrightarrow> lastRefill b \<le> t1" and "t0 \<le> t1"
  shows "of_int (approved_cost (\<lambda>_. True) k qs (snd (run_limiter TokenBucket_Allow l qs))) \<le>
    budget p t0 t1 (buckets l k) + of_nat (length qs) * err50 * of_int (Limit p)"
  using assms
proof (induction qs arbitrary: l)
  case Nil
  then have "0 \<le> tokens b" if "buckets l k = Some b" for b
    using that by (fastforce simp: tb_inv_def bucket_ok_def)
  then show ?case
    using budget_nonneg [OF tb_inv_policy(1) [OF Nil(1,2)] Nil(5), of "buckets l k"] Nil(4) by auto
next
  case (Cons q qs)
  let ?a = "TokenBucket_Allow l (q_ctx q) (q_now q) (q_key q) (q_cost q)"
  have t: "t0 \<le> q_now q" "q_now q \<le> t1" using Cons.prems(3) by auto
  have "of_int (approved_cost (\<lambda>_. True) k qs (snd (run_limiter TokenBucket_Allow (fst ?a) qs))) \<le>
    budget p t0 t1 (buckets (fst ?a) k) + of_nat (length qs) * err50 * of_int (Limit p)"
  proof (rule Cons.IH [OF TokenBucket_Allow_inv [OF Cons.prems(1)]])
    show "map_of (tb_policies (fst ?a)) k = Some p"
      using Cons.prems(2) tb.allow_pol [of l] by (metis tb_pol_def)
    show "lastRefill b \<le> t1" if "buckets (fst ?a) k = Some b" for b
      using that Cons.prems(4) t
      by (auto simp: TokenBucket_Allow_def refilledBucket_def Let_def split: option.splits if_splits)
  qed (use Cons.prems in auto)
  then show ?case
    using tb_budget_step [OF Cons.prems(1,2) t refl, of "q_key q" "q_ctx q" "q_cost q"]
    by (auto simp: run_limiter_Cons Let_def distrib_right add_divide_distrib split: if_splits)
qed

section \<open>Waiting after a denial\<close>

lemma rnd_lower: "0 \<le> x \<Longrightarrow> (1 - eps64) * x - min_normal \<le> rnd x"
proof (cases "min_normal \<le> x")
  case True
  then show ?thesis using f64.r_lower [OF True] f64.tiny_pos by simp
next
  case False
  assume x: "0 \<le> x"
  then have "(1 - eps64) * x \<le> x" by (simp add: eps64_def)
  then show ?thesis using False rnd_nonneg [OF x] by linarith
qed

lemma cube_step: "k * (k\<^sup>2 * z - m) = k ^ 3 * z - k * m" for k z m :: rat
  by (simp add: right_diff_distrib power3_eq_cube power2_eq_square mult.assoc)

lemma int_of_float_ceil: "0 \<le> x \<Longrightarrow> int_of_float (fceil x) = \<lceil>x\<rceil>"
  by (simp add: int_of_float_def fceil_def)

text \<open>
  The reported delay in milliseconds is, up to rounding errors, at least the time the
  missing tokens \<open>m\<close> take to arrive.
\<close>

lemma duration_lower:
  assumes p: "policy_ok p" "Limit p \<le> 2 ^ 53" and m: "0 \<le> m"
  shows "(1 - eps64) ^ 3 * (m * of_int (Window p) / of_int (Limit p)) - 2 * min_normal
      \<le> of_int (durationForTokens p m)"
    and "0 \<le> durationForTokens p m"
proof -
  let ?L = "of_int (Limit p) :: rat" and ?W = "of_int (Window p) :: rat"
  let ?x = "fmul m (float64 (Window p))"
  have L: "1 \<le> ?L" "float64 (Limit p) = ?L" and W: "1 \<le> Window p"
    using p by (auto simp: policy_ok_def float_simps)
  have eps: "0 \<le> 1 - eps64" "1 - eps64 \<le> 1" by (simp_all add: eps64_def)
  have tiny: "0 < min_normal" by (rule f64.tiny_pos)
  note w = float64_bounds [OF W]
  have x0: "0 \<le> ?x" using m w(3) by (simp add: fmul_def rnd_nonneg)
  have "(1 - eps64) * (m * ((1 - eps64) * ?W)) \<le> (1 - eps64) * (m * float64 (Window p))"
    using m w(1) eps by (intro mult_left_mono) auto
  then have "(1 - eps64)\<^sup>2 * (m * ?W) - min_normal \<le> ?x"
    using rnd_lower [of "m * float64 (Window p)"] m w(3)
    by (simp add: fmul_def power2_eq_square mult_ac)
  then have "((1 - eps64)\<^sup>2 * (m * ?W) - min_normal) / ?L \<le> ?x / ?L"
    using L by (intro divide_right_mono) auto
  moreover have "min_normal / ?L \<le> min_normal" using L tiny by (simp add: divide_le_eq)
  ultimately have "(1 - eps64)\<^sup>2 * (m * ?W / ?L) - min_normal \<le> ?x / ?L"
    by (simp add: diff_divide_distrib)
  then have "(1 - eps64) * ((1 - eps64)\<^sup>2 * (m * ?W / ?L) - min_normal) \<le> (1 - eps64) * (?x / ?L)"
    using eps by (intro mult_left_mono) auto
  moreover have "(1 - eps64) * min_normal \<le> min_normal" using eps tiny by simp
  moreover have "(1 - eps64) * (?x / ?L) - min_normal \<le> fdiv ?x ?L"
    using rnd_lower [of "?x / ?L"] x0 L(1) by (simp add: fdiv_def)
  ultimately have y: "(1 - eps64) ^ 3 * (m * ?W / ?L) - 2 * min_normal \<le> fdiv ?x ?L"
    using cube_step [of "1 - eps64" "m * ?W / ?L" min_normal] by linarith
  have y0: "0 \<le> fdiv ?x ?L" using x0 L by (simp add: fdiv_def rnd_nonneg)
  have "durationForTokens p m = \<lceil>fdiv ?x ?L\<rceil>"
    using y0 by (simp add: durationForTokens_def int_of_float_ceil L(2))
  then show "(1 - eps64) ^ 3 * (m * ?W / ?L) - 2 * min_normal \<le> of_int (durationForTokens p m)"
    and "0 \<le> durationForTokens p m"
    using y y0 le_of_int_ceiling [of "fdiv ?x ?L"] by linarith+
qed

lemma milliseconds_lower:
  assumes "0 \<le> d"
  shows "(1 - eps64)\<^sup>2 * of_int d - 1000000 * min_normal \<le> of_int (millisecondsRoundedUp d) * 1000000"
proof -
  have f: "0 \<le> float64 d" "(1 - eps64) * of_int d \<le> float64 d"
    using assms float64_bounds(1) [of d] float64_nonneg [OF assms] by (cases "d = 0"; simp)+
  have M: "float64 Millisecond = 1000000"
    using float64_exact [of Millisecond] by (simp add: Millisecond_def)
  let ?g = "fdiv (float64 d) 1000000"
  have "(1 - eps64) * ((1 - eps64) * of_int d / 1000000) \<le> (1 - eps64) * (float64 d / 1000000)"
    using f by (intro mult_left_mono divide_right_mono) (auto simp: eps64_def)
  moreover have "(1 - eps64) * (float64 d / 1000000) - min_normal \<le> ?g"
    using rnd_lower [of "float64 d / 1000000"] f(1) by (simp add: fdiv_def)
  ultimately have "(1 - eps64)\<^sup>2 * of_int d - 1000000 * min_normal \<le> ?g * 1000000"
    by (simp add: power2_eq_square mult.assoc)
  moreover have "0 \<le> ?g" using f(1) by (simp add: fdiv_def rnd_nonneg)
  then have "millisecondsRoundedUp d = \<lceil>?g\<rceil>"
    by (simp add: millisecondsRoundedUp_def M int_of_float_ceil)
  ultimately show ?thesis using le_of_int_ceiling [of ?g] by linarith
qed

lemma retry_wait:
  assumes p: "policy_ok p" "Limit p \<le> 2 ^ 53" and m: "0 \<le> m"
    and ms: "ms = max 1 (millisecondsRoundedUp (durationForTokens p m))"
  shows "(1 - 5 * eps64) * (m * of_int (Window p) / of_int (Limit p)) + 999999 \<le>
    of_int ((ms + 1) * 1000000)"
proof -
  let ?z = "m * of_int (Window p) / of_int (Limit p)" and ?d = "durationForTokens p m"
  have z: "0 \<le> ?z" using m p(1) by (simp add: policy_ok_def)
  have eps: "(1 - 5 * eps64) \<le> (1 - eps64)\<^sup>2 * (1 - eps64) ^ 3" "(1 - eps64)\<^sup>2 \<le> 1"
    by (simp_all add: eps64_def power2_eq_square power3_eq_cube)
  have tiny: "1000002 * min_normal \<le> 1" "0 < min_normal"
    using min_normal_le f64.tiny_pos by simp_all
  note d = duration_lower [OF p m]
  have "(1 - 5 * eps64) * ?z \<le> (1 - eps64)\<^sup>2 * ((1 - eps64) ^ 3 * ?z)"
    using mult_right_mono [OF eps(1) z] by (simp add: mult.assoc)
  moreover have "(1 - eps64)\<^sup>2 * ((1 - eps64) ^ 3 * ?z - 2 * min_normal) \<le> (1 - eps64)\<^sup>2 * of_int ?d"
    using d(1) by (intro mult_left_mono) auto
  moreover have "(1 - eps64)\<^sup>2 * (2 * min_normal) \<le> 2 * min_normal"
    using mult_right_mono [OF eps(2), of "2 * min_normal"] tiny by simp
  ultimately have "(1 - 5 * eps64) * ?z - 2 * min_normal \<le> (1 - eps64)\<^sup>2 * of_int ?d"
    by (simp add: right_diff_distrib)
  then have "(1 - 5 * eps64) * ?z - 1 \<le> of_int (millisecondsRoundedUp ?d) * 1000000"
    using milliseconds_lower [OF d(2)] tiny by linarith
  also have "\<dots> \<le> of_int ms * 1000000" by (simp add: ms)
  finally show ?thesis by simp
qed

lemma missing_bounds:
  assumes "0 \<le> t" "t < n" "n \<le> cap" "1 \<le> cap" "rnd n = n"
  shows "0 \<le> fsub n t" and "n - t - 2 * eps64 * cap \<le> fsub n t" and "fsub n t \<le> cap"
proof -
  show "0 \<le> fsub n t" using assms by (simp add: fsub_def rnd_nonneg)
  show "fsub n t \<le> cap" using assms rnd_mono [of "n - t" n] by (simp add: fsub_def)
  have "min_normal \<le> eps64" using min_normal_le by (simp add: eps64_def)
  also have "\<dots> \<le> eps64 * cap" using assms by (simp add: eps64_def)
  finally have "min_normal \<le> eps64 * cap" .
  moreover have "\<bar>rnd (n - t) - (n - t)\<bar> \<le> eps64 * cap + min_normal"
    using assms by (intro f64.r_err_bound normal_ge) (auto intro: order_trans [of _ 1])
  ultimately show "n - t - 2 * eps64 * cap \<le> fsub n t" by (simp add: fsub_def abs_le_iff)
qed

text \<open>One more millisecond outweighs every rounding error.\<close>

lemma retry_refill:
  assumes p: "policy_ok p" "Limit p \<le> 2 ^ 53" "Window p \<le> 2 ^ 62"
    and t: "0 \<le> t" "t < of_int n" "n \<le> Limit p"
    and ms: "ms = max 1 (millisecondsRoundedUp (durationForTokens p (fsub (of_int n) t)))"
    and e: "min ((ms + 1) * 1000000) max_int64 \<le> e"
  shows "of_int n \<le> t + refill (float64 e) (of_int (Limit p)) (float64 (Window p))"
proof -
  let ?L = "of_int (Limit p) :: rat" and ?W = "of_int (Window p) :: rat"
  let ?D = "fsub (of_int n) t"
  let ?R = "refill (float64 e) ?L (float64 (Window p))"
  have n: "of_int n \<le> ?L" "0 < ?L" "0 < ?W" "?W \<le> 2 ^ 62"
    using p t(3) by (auto simp: policy_ok_def simp flip: of_int_le_iff)
  have "0 < n" using t(1,2) by (metis le_less_trans of_int_0_less_iff)
  then have rn: "rnd (of_int n) = of_int n" using p(2) t(3) by (simp add: float_simps)
  have D: "0 \<le> ?D" "of_int n - t - 2 * eps64 * ?L \<le> ?D" "?D \<le> ?L"
    using missing_bounds [OF t(1,2) n(1)] p(1) rn by (auto simp: policy_ok_def)
  have e1: "1 \<le> e" using e by (auto simp: ms max_int64_def)
  have R: "(1 - err50) * (?L / ?W * of_int e) \<le> ?R" using go_refill_bounds(2) [OF e1 p(1,2)] .
  show ?thesis
  proof (cases "(ms + 1) * 1000000 \<le> e")
    case True
    have "(1 - 5 * eps64) * (?D * ?W / ?L) + 999999 \<le> of_int ((ms + 1) * 1000000)"
      using retry_wait [OF p(1,2) D(1) ms] .
    also have "\<dots> \<le> of_int e" using True by (simp only: of_int_le_iff)
    finally have "?L / ?W * ((1 - 5 * eps64) * (?D * ?W / ?L) + 999999) \<le> ?L / ?W * of_int e"
      using n by (intro mult_left_mono) auto
    moreover have "?L / ?W * ((1 - 5 * eps64) * (?D * ?W / ?L) + 999999) =
        (1 - 5 * eps64) * ?D + ?L / ?W * 999999"
      using n by (simp add: distrib_left)
    moreover have "?L * 999999 / 2 ^ 62 \<le> ?L / ?W * 999999"
      using n divide_left_mono [of ?W "2 ^ 62" "?L * 999999"] by simp
    ultimately have "(1 - 5 * eps64) * ?D + ?L * 999999 / 2 ^ 62 \<le> ?L / ?W * of_int e" by linarith
    then have "(1 - err50) * ((1 - 5 * eps64) * ?D + ?L * 999999 / 2 ^ 62) \<le> ?R"
      using R by (auto intro: order_trans [OF mult_left_mono])
    then show ?thesis using D n unfolding eps64_def by simp
  next
    case False
    then have "2 ^ 63 - 1 \<le> e" using e by (simp add: max_int64_def min_def split: if_splits)
    then have "of_int (2 ^ 63 - 1) \<le> (of_int e :: rat)" by (rule of_int_le_iff [THEN iffD2])
    then have "(2 ^ 63 - 1 :: rat) \<le> of_int e" by simp
    then have "?L / 2 ^ 62 * (2 ^ 63 - 1) \<le> ?L / ?W * of_int e"
      using n by (intro mult_mono divide_left_mono) auto
    then have "(1 - err50) * (?L / 2 ^ 62 * (2 ^ 63 - 1)) \<le> (1 - err50) * (?L / ?W * of_int e)"
      by (intro mult_left_mono) auto
    moreover have "?L \<le> (1 - err50) * (?L / 2 ^ 62 * (2 ^ 63 - 1))" using n(2) by simp
    ultimately have "?L \<le> ?R" using R by (meson order_trans)
    then show ?thesis using n(1) t(1) by linarith
  qed
qed

lemma New_tb_inv:
  assumes "NewTokenBucketRateLimiter ps b = Ok l" "policies_typed ps" "exact_limits ps"
  shows "tb_inv l" and "tb_policies l = ps" and "buckets l = Map.empty"
  using assms validate_policies_ok [of ps]
  by (auto simp: NewTokenBucketRateLimiter_def validateTokenBucketPolicies_def tb_inv_def
      split: option.splits if_splits)

text \<open>
  C9. The quota of the token bucket. Whatever requests for whatever keys arrive between
  \<open>t0\<close> and \<open>t1\<close>, in any order of their times, a fresh limiter approves for a key at most
  its limit plus what the refill rate produces in that period. The binary64 rounding errors
  of the code add at most \<open>2^-50\<close> of the limit per request and \<open>2^-50\<close> of the rate.
\<close>

theorem tb_quota:
  assumes "NewTokenBucketRateLimiter ps True = Ok l" and "policies_typed ps" and "exact_limits ps"
    and "map_of ps k = Some p" and "\<forall>q \<in> set qs. t0 \<le> q_now q \<and> q_now q \<le> t1" and "t0 \<le> t1"
  shows "of_int (approved_cost (\<lambda>_. True) k qs (snd (run_limiter TokenBucket_Allow l qs))) \<le>
    of_int (Limit p) * (1 + of_nat (length qs) / 2 ^ 50) +
    (1 + 1 / 2 ^ 50) * (of_int (Limit p) / of_int (Window p) * of_int (t1 - t0) :: rat)"
proof -
  note new = New_tb_inv [OF assms(1-3)]
  have "of_int (approved_cost (\<lambda>_. True) k qs (snd (run_limiter TokenBucket_Allow l qs))) \<le>
      budget p t0 t1 (buckets l k) + of_nat (length qs) * err50 * of_int (Limit p)"
    using new assms(4-6) by (intro tb_quota_gen) auto
  also have "\<dots> = of_int (Limit p) * (1 + of_nat (length qs) / 2 ^ 50) +
    (1 + 1 / 2 ^ 50) * (of_int (Limit p) / of_int (Window p) * of_int (t1 - t0))"
    using new(3) by (simp add: budget_def distrib_left mult_ac)
  finally show ?thesis .
qed

theorem tb_quota_witness:
  "of_int (approved_cost (\<lambda>_. True) ex_key [ex_req 0 2, ex_req 5 2, ex_req 7 1]
     (snd (run_limiter TokenBucket_Allow
       \<lparr>tb_policies = ex_policies 3 (60 * 10 ^ 9), buckets = Map.empty\<rparr>
       [ex_req 0 2, ex_req 5 2, ex_req 7 1]))) < (4 :: rat)"
proof -
  have "NewTokenBucketRateLimiter (ex_policies 3 (60 * 10 ^ 9)) True =
      Ok \<lparr>tb_policies = ex_policies 3 (60 * 10 ^ 9), buckets = Map.empty\<rparr>"
    by (simp add: NewTokenBucketRateLimiter_def validateTokenBucketPolicies_def ex_simps)
  moreover have "policies_typed (ex_policies 3 (60 * 10 ^ 9))"
    by (intro ex_policies_typed) (simp_all add: in64_def min_int64_def max_int64_def)
  moreover have "exact_limits (ex_policies 3 (60 * 10 ^ 9))"
    by (simp add: exact_limits_def ex_policies_def)
  moreover have "map_of (ex_policies 3 (60 * 10 ^ 9)) ex_key = Some \<lparr>Limit = 3, Window = 60 * 10 ^ 9\<rparr>"
    by (simp add: ex_policies_def)
  ultimately show ?thesis
    by (rule order.strict_trans1 [OF tb_quota [where ?t0.0 = 0 and ?t1.0 = 7]]) (simp_all add: ex_req_def)
qed

lemma TokenBucket_Allow_branches:
  assumes "map_of ps k = Some p" "0 < n" "n \<le> Limit p" "l = \<lparr>tb_policies = ps, buckets = m\<rparr>"
    and b: "refilledBucket l k p t = b"
  shows "float64 n \<le> tokens b \<Longrightarrow> \<exists>d. Allowed d \<and> TokenBucket_Allow l None t k n =
      (\<lparr>tb_policies = ps, buckets = m(k \<mapsto> b\<lparr>tokens := fsub (tokens b) (float64 n)\<rparr>)\<rparr>, Ok d)"
    and "tokens b < float64 n \<Longrightarrow> \<exists>d. \<not> Allowed d \<and>
      RetryAfterMS d = max 1 (millisecondsRoundedUp (durationForTokens p (fsub (float64 n) (tokens b)))) \<and>
      TokenBucket_Allow l None t k n = (\<lparr>tb_policies = ps, buckets = m(k \<mapsto> b)\<rparr>, Ok d)"
  using assms by (simp_all add: TokenBucket_Allow_def Let_def)

lemma refilledBucket_same_instant:
  assumes "\<And>b. buckets l k = Some b \<Longrightarrow> lastRefill b \<le> t"
  shows "lastRefill (refilledBucket l k p t) = t"
proof (cases "buckets l k")
  case (Some b)
  then show ?thesis
    using assms [OF Some] time_Sub_pos_iff [of t "lastRefill b"]
    by (auto simp: refilledBucket_def Let_def)
qed (simp add: refilledBucket_def)

lemma time_Sub_ge: "t + d \<le> u \<Longrightarrow> 0 \<le> d \<Longrightarrow> min d max_int64 \<le> time_Sub u t"
  by (simp add: time_Sub_def saturate64_def min_int64_def max_int64_def)

text \<open>
  C29. When the token bucket denies a request of at most the limit, the same request is
  approved at every time at least \<open>RetryAfterMS\<close> and one more millisecond later, if no other
  request of the key comes between. The extra millisecond pays for the rounding of the
  refill; the next property shows that it is needed.
\<close>

theorem tb_retry_after:
  assumes inv: "tb_inv l" and p: "map_of (tb_policies l) k = Some p" "Window p \<le> 2 ^ 62"
    and clock: "\<forall>b. buckets l k = Some b \<longrightarrow> lastRefill b \<le> now"
    and call: "TokenBucket_Allow l None now k n = (l', Ok d)" and denied: "\<not> Allowed d"
    and later: "now + (RetryAfterMS d + 1) * Millisecond \<le> t"
  shows "approved (snd (TokenBucket_Allow l' None t k n))"
proof -
  note pol = tb_inv_policy [OF inv p(1)]
  have n: "0 < n" "n \<le> Limit p"
    using call p(1) by (auto simp: TokenBucket_Allow_def split: if_splits)
  let ?b = "refilledBucket l k p now"
  have b: "bucket_ok p ?b" "lastRefill ?b = now"
    using refilledBucket_ok [OF inv p(1)] refilledBucket_same_instant clock by auto
  have lt: "tokens ?b < of_int n" and l': "l' = l\<lparr>buckets := (buckets l)(k \<mapsto> ?b)\<rparr>"
    and ms: "RetryAfterMS d =
      max 1 (millisecondsRoundedUp (durationForTokens p (fsub (of_int n) (tokens ?b))))"
    using call denied by (auto simp: TokenBucket_Allow_eq [OF inv n(1) p(1) n(2)] Let_def split: if_splits)
  have inv': "tb_inv l'" using TokenBucket_Allow_inv [OF inv, of None now k n] call by simp
  have p': "map_of (tb_policies l') k = Some p" using p(1) by (simp add: l')
  let ?e = "time_Sub t now"
  have e: "min ((RetryAfterMS d + 1) * 1000000) max_int64 \<le> ?e"
    using time_Sub_ge [OF later] by (simp add: ms Millisecond_def)
  then have e0: "0 < ?e" by (simp add: ms max_int64_def min_def split: if_splits)
  have "of_int n \<le> tokens ?b + refill (float64 ?e) (of_int (Limit p)) (float64 (Window p))"
    using retry_refill [OF pol(1,2) p(2) _ lt n(2) ms e] b by (simp add: bucket_ok_def)
  moreover have "is_float (of_int n)" using n pol(2) by (simp add: is_float_def float_simps)
  ultimately have "of_int n \<le> tokens (refilledBucket l' k p t)"
    using e0 n(2) b(2) pol(3) by (simp add: refilledBucket_def l' Let_def top_up_ge)
  then show ?thesis by (simp add: TokenBucket_Allow_eq [OF inv' n(1) p' n(2)] Let_def)
qed

theorem tb_retry_after_witness:
  "approved (snd (TokenBucket_Allow
     \<lparr>tb_policies = ex_policies 3 (60 * 10 ^ 9), buckets = [ex_key \<mapsto> \<lparr>tokens = 0, lastRefill = 0\<rparr>]\<rparr>
     None (20001 * 10 ^ 6) ex_key 1))"
proof -
  let ?ps = "ex_policies 3 (60 * 10 ^ 9)" and ?p = "\<lparr>Limit = 3, Window = 60 * 10 ^ 9\<rparr>"
  let ?l = "\<lparr>tb_policies = ?ps, buckets = [ex_key \<mapsto> \<lparr>tokens = 0, lastRefill = 0\<rparr>]\<rparr>"
  have p: "map_of ?ps ex_key = Some ?p" by (simp add: ex_policies_def)
  have "policies_ok ?ps" by (simp add: policies_ok_def policy_ok_def ex_simps in64_def min_int64_def max_int64_def)
  then have inv: "tb_inv ?l" using p
    by (simp add: tb_inv_def exact_limits_def ex_policies_def bucket_ok_def)
  have "refilledBucket ?l ex_key ?p 0 = \<lparr>tokens = 0, lastRefill = 0\<rparr>"
    by (simp add: refilledBucket_def time_Sub_def saturate64_def min_int64_def max_int64_def)
  from TokenBucket_Allow_branches(2) [OF p _ _ refl this, of 1]
  obtain d where "\<not> Allowed d" "RetryAfterMS d = 20000" "TokenBucket_Allow ?l None 0 ex_key 1 = (?l, Ok d)"
    by (auto simp: float_simps fsub_def fmul_def fdiv_def millisecondsRoundedUp_def
        durationForTokens_def fceil_def int_of_float_def Millisecond_def)
  then show ?thesis using tb_retry_after [OF inv, of ex_key ?p 0 1 ?l d "20001 * 10 ^ 6"] p
    by (simp add: Millisecond_def)
qed

text \<open>The roundings of the run below, each with its significand.\<close>

lemma ex_rnd:
  shows "rnd (723 / 500) = 6512205061177737 / 4503599627370496"
    and "rnd (2008605433807241 / 4503599627370496) = 2008605433807241 / 4503599627370496"
    and "rnd (213 / 500) = 7674133765039325 / 18014398509481984"
    and "rnd (15708555500268289 / 18014398509481984) = 61361544922923 / 70368744177664"
    and "rnd (79375943432405 / 70368744177664) = 79375943432405 / 70368744177664"
    and "rnd (155031139516416015625 / 137438953472) = 1128000000"
    and "rnd (141 / 125) = 5080060379673919 / 4503599627370496"
    and "rnd (9007199254740991 / 4503599627370496) = 9007199254740991 / 4503599627370496"
    and "rnd (6512205061177737 / 4503599627370496) = 6512205061177737 / 4503599627370496"
proof -
  show "rnd (6512205061177737 / 4503599627370496) = 6512205061177737 / 4503599627370496"
    using rnd_eqI [of "6512205061177737 / 4503599627370496" 52 6512205061177737] by simp
  show "rnd (723 / 500) = 6512205061177737 / 4503599627370496"
    using rnd_eqI [of "723 / 500" 52 6512205061177737] by simp
  show "rnd (2008605433807241 / 4503599627370496) = 2008605433807241 / 4503599627370496"
    using rnd_eqI [of "2008605433807241 / 4503599627370496" 54 8034421735228964] by simp
  show "rnd (213 / 500) = 7674133765039325 / 18014398509481984"
    using rnd_eqI [of "213 / 500" 54 7674133765039325] by simp
  show "rnd (15708555500268289 / 18014398509481984) = 61361544922923 / 70368744177664"
    using rnd_eqI [of "15708555500268289 / 18014398509481984" 53 7854277750134144] by simp
  show "rnd (79375943432405 / 70368744177664) = 79375943432405 / 70368744177664"
    using rnd_eqI [of "79375943432405 / 70368744177664" 52 5080060379673920] by simp
  show "rnd (155031139516416015625 / 137438953472) = 1128000000"
    using rnd_eqI [of "155031139516416015625 / 137438953472" 22 4731174912000000] by simp
  show "rnd (141 / 125) = 5080060379673919 / 4503599627370496"
    using rnd_eqI [of "141 / 125" 52 5080060379673919] by simp
  show "rnd (9007199254740991 / 4503599627370496) = 9007199254740991 / 4503599627370496"
    using rnd_eqI [of "9007199254740991 / 4503599627370496" 52 9007199254740991] by simp
qed

lemma refilledBucket_eq:
  assumes "t < t'" "t' - t < 2 ^ 63"
  shows "refilledBucket \<lparr>tb_policies = ps, buckets = [k \<mapsto> \<lparr>tokens = x, lastRefill = t\<rparr>]\<rparr> k p t' =
    \<lparr>tokens = top_up (float64 (Limit p)) x
       (refill (float64 (t' - t)) (float64 (Limit p)) (float64 (Window p))), lastRefill = t'\<rparr>"
  using assms
  by (simp add: refilledBucket_def time_Sub_def saturate64_def min_int64_def max_int64_def)

text \<open>
  Waiting exactly \<open>RetryAfterMS\<close> is not always enough. With a limit of 3 per second, a
  client that spends 3 at time 0 and 1 after 482 ms is denied a request of cost 2 at 624 ms
  and told to retry after 376 ms; the same request at 1000 ms is denied again, because the
  refilled tokens are the binary64 number just below 2.
\<close>

theorem tb_retry_after_too_early:
  "\<exists>d1 d2 d3 d4.
     snd (run_limiter TokenBucket_Allow
       \<lparr>tb_policies = ex_policies 3 (10 ^ 9), buckets = Map.empty\<rparr>
       [ex_req 0 3, ex_req (482 * 10 ^ 6) 1, ex_req (624 * 10 ^ 6) 2, ex_req (1000 * 10 ^ 6) 2]) =
       [Ok d1, Ok d2, Ok d3, Ok d4] \<and>
     Allowed d1 \<and> Allowed d2 \<and> \<not> Allowed d3 \<and> RetryAfterMS d3 = 376 \<and> \<not> Allowed d4"
proof -
  let ?p = "\<lparr>Limit = 3, Window = 10 ^ 9\<rparr>" and ?ps = "ex_policies 3 (10 ^ 9)"
  let ?l = "\<lambda>x t. \<lparr>tb_policies = ?ps, buckets = [ex_key \<mapsto> \<lparr>tokens = x, lastRefill = t\<rparr>]\<rparr>"
  let ?a = "TokenBucket_Allow" and ?x = "2008605433807241 / 4503599627370496"
  let ?y = "61361544922923 / 70368744177664"
  note float = fadd_def fsub_def fmul_def fdiv_def float_simps ex_rnd refill_def top_up_def
  have p: "map_of ?ps ex_key = Some ?p" by (simp add: ex_policies_def)
  have "refilledBucket \<lparr>tb_policies = ?ps, buckets = Map.empty\<rparr> ex_key ?p 0 = \<lparr>tokens = 3, lastRefill = 0\<rparr>"
    by (simp add: refilledBucket_def float_simps)
  from TokenBucket_Allow_branches(1) [OF p _ _ refl this, of 3]
  obtain d1 where 1: "Allowed d1" "?a \<lparr>tb_policies = ?ps, buckets = Map.empty\<rparr> None 0 ex_key 3 = (?l 0 0, Ok d1)"
    by (auto simp: float)
  have "refilledBucket (?l 0 0) ex_key ?p (482 * 10 ^ 6) = \<lparr>tokens = 6512205061177737 / 4503599627370496, lastRefill = 482 * 10 ^ 6\<rparr>"
    by (subst refilledBucket_eq) (simp_all add: float)
  from TokenBucket_Allow_branches(1) [OF p _ _ refl this, of 1]
  obtain d2 where 2: "Allowed d2" "?a (?l 0 0) None (482 * 10 ^ 6) ex_key 1 = (?l ?x (482 * 10 ^ 6), Ok d2)"
    by (auto simp: float)
  have "refilledBucket (?l ?x (482 * 10 ^ 6)) ex_key ?p (624 * 10 ^ 6) = \<lparr>tokens = ?y, lastRefill = 624 * 10 ^ 6\<rparr>"
    by (subst refilledBucket_eq) (simp_all add: float)
  from TokenBucket_Allow_branches(2) [OF p _ _ refl this, of 2]
  obtain d3 where 3: "\<not> Allowed d3" "RetryAfterMS d3 = 376"
    "?a (?l ?x (482 * 10 ^ 6)) None (624 * 10 ^ 6) ex_key 2 = (?l ?y (624 * 10 ^ 6), Ok d3)"
    by (auto simp: float millisecondsRoundedUp_def durationForTokens_def fceil_def int_of_float_def Millisecond_def)
  have "refilledBucket (?l ?y (624 * 10 ^ 6)) ex_key ?p (1000 * 10 ^ 6) =
      \<lparr>tokens = 9007199254740991 / 4503599627370496, lastRefill = 1000 * 10 ^ 6\<rparr>"
    by (subst refilledBucket_eq) (simp_all add: float)
  from TokenBucket_Allow_branches(2) [OF p _ _ refl this, of 2]
  obtain d4 l4 where 4: "\<not> Allowed d4" "?a (?l ?y (624 * 10 ^ 6)) None (1000 * 10 ^ 6) ex_key 2 = (l4, Ok d4)"
    by (auto simp: float_simps)
  show ?thesis
    using 1 2 3 4 by (simp add: run_limiter_Cons ex_req_def)
qed

end
