(* ===== verification/RedisServer.thy ===== *)
theory RedisServer
  imports Prelude
begin

text \<open>
  The Redis server, which is not part of the repository. The definitions that use it take its
  commands as a record \<open>redis_ops\<close> over an unknown state type; the locale \<open>redis_server\<close>
  states the documented behaviour of these commands the program relies on. \<open>mem_redis\<close> is a
  data set in memory with the documented commands, on which the locale is interpreted.
\<close>

section \<open>Commands\<close>

text \<open>
  \<open>r_at r t\<close> is the data set at the time \<open>t\<close> (milliseconds of the Unix clock): keys whose
  time to live has ended are gone. \<open>r_HGET\<close> is one field of \<open>HMGET\<close>. The time given to
  \<open>r_PEXPIRE\<close> is the server's. \<open>r_stream\<close> and \<open>r_expiry\<close> observe the entries of a stream
  (\<open>XRANGE\<close>, without the ids) and the time a key expires (\<open>PEXPIRETIME\<close>).
\<close>

type_synonym stream_entry = "(string \<times> string) list"

record 'r redis_ops =
  r_at :: "'r \<Rightarrow> int \<Rightarrow> 'r"
  r_TYPE :: "'r \<Rightarrow> string \<Rightarrow> string"
  r_HGET :: "'r \<Rightarrow> string \<Rightarrow> string \<Rightarrow> string option"
  r_HSET :: "'r \<Rightarrow> string \<Rightarrow> (string \<times> string) list \<Rightarrow> 'r"
  r_PEXPIRE :: "'r \<Rightarrow> string \<Rightarrow> int \<Rightarrow> int \<Rightarrow> 'r"
  r_XLEN :: "'r \<Rightarrow> string \<Rightarrow> int"
  r_XADD :: "'r \<Rightarrow> string \<Rightarrow> stream_entry \<Rightarrow> 'r"
  r_stream :: "'r \<Rightarrow> string \<Rightarrow> stream_entry list"
  r_expiry :: "'r \<Rightarrow> string \<Rightarrow> int option"

definition expired :: "'r redis_ops \<Rightarrow> 'r \<Rightarrow> string \<Rightarrow> int \<Rightarrow> bool" where
  "expired R r k t \<longleftrightarrow> (case r_expiry R r k of Some x \<Rightarrow> x \<le> t | None \<Rightarrow> False)"

locale redis_server =
  fixes R :: "'r redis_ops"
  assumes at_TYPE: "r_TYPE R (r_at R r t) k = (if expired R r k t then ''none'' else r_TYPE R r k)"
    and at_HGET: "r_HGET R (r_at R r t) k f = (if expired R r k t then None else r_HGET R r k f)"
    and at_stream: "r_stream R (r_at R r t) k = (if expired R r k t then [] else r_stream R r k)"
    and at_expiry: "r_expiry R (r_at R r t) k = (if expired R r k t then None else r_expiry R r k)"
    and HGET_type: "r_TYPE R r k \<noteq> ''hash'' \<Longrightarrow> r_HGET R r k f = None"
    and stream_type: "r_TYPE R r k \<noteq> ''stream'' \<Longrightarrow> r_stream R r k = []"
    and HSET_TYPE: "r_TYPE R r k \<in> {''none'', ''hash''} \<Longrightarrow>
      r_TYPE R (r_HSET R r k fvs) k' = (if k' = k then ''hash'' else r_TYPE R r k')"
    and HSET_HGET: "r_TYPE R r k \<in> {''none'', ''hash''} \<Longrightarrow>
      r_HGET R (r_HSET R r k fvs) k' f =
        (if k' = k \<and> map_of (rev fvs) f \<noteq> None then map_of (rev fvs) f else r_HGET R r k' f)"
    and HSET_stream: "r_TYPE R r k \<in> {''none'', ''hash''} \<Longrightarrow> r_stream R (r_HSET R r k fvs) = r_stream R r"
    and HSET_expiry: "r_expiry R (r_HSET R r k fvs) = r_expiry R r"
    and PEXPIRE_TYPE: "0 < ttl \<Longrightarrow> r_TYPE R (r_PEXPIRE R r k ttl t) = r_TYPE R r"
    and PEXPIRE_HGET: "0 < ttl \<Longrightarrow> r_HGET R (r_PEXPIRE R r k ttl t) = r_HGET R r"
    and PEXPIRE_stream: "0 < ttl \<Longrightarrow> r_stream R (r_PEXPIRE R r k ttl t) = r_stream R r"
    and PEXPIRE_expiry: "0 < ttl \<Longrightarrow> r_expiry R (r_PEXPIRE R r k ttl t) k' =
      (if k' = k \<and> r_TYPE R r k \<noteq> ''none'' then Some (t + ttl) else r_expiry R r k')"
    and XADD_TYPE: "r_TYPE R r k \<in> {''none'', ''stream''} \<Longrightarrow>
      r_TYPE R (r_XADD R r k e) k' = (if k' = k then ''stream'' else r_TYPE R r k')"
    and XADD_HGET: "r_TYPE R r k \<in> {''none'', ''stream''} \<Longrightarrow> r_HGET R (r_XADD R r k e) = r_HGET R r"
    and XADD_stream: "r_TYPE R r k \<in> {''none'', ''stream''} \<Longrightarrow>
      r_stream R (r_XADD R r k e) k' = (if k' = k then r_stream R r k @ [e] else r_stream R r k')"
    and XADD_expiry: "r_expiry R (r_XADD R r k e) = r_expiry R r"
    and XLEN: "r_XLEN R r k = int (length (r_stream R r k))"
begin

lemmas redis_laws = at_TYPE at_HGET at_stream at_expiry HSET_TYPE HSET_HGET HSET_stream HSET_expiry
  PEXPIRE_TYPE PEXPIRE_HGET PEXPIRE_stream PEXPIRE_expiry XADD_TYPE XADD_HGET XADD_stream XADD_expiry XLEN

text \<open>Looking at the data set twice at one time is looking once.\<close>

lemma at_idem:
  "r_TYPE R (r_at R (r_at R r t) t) k = r_TYPE R (r_at R r t) k"
  "r_HGET R (r_at R (r_at R r t) t) k f = r_HGET R (r_at R r t) k f"
  "r_stream R (r_at R (r_at R r t) t) k = r_stream R (r_at R r t) k"
  by (auto simp: at_TYPE at_HGET at_stream at_expiry expired_def)

end

section \<open>A data set in memory\<close>

datatype redis_value = Hash "string \<rightharpoonup> string" | Stream "stream_entry list" | Text string

record mem_redis =
  mem_values :: "string \<rightharpoonup> redis_value"
  mem_expiries :: "string \<rightharpoonup> int"

definition mem_type :: "mem_redis \<Rightarrow> string \<Rightarrow> string" where
  "mem_type r k = (case mem_values r k of None \<Rightarrow> ''none'' | Some (Hash h) \<Rightarrow> ''hash''
     | Some (Stream es) \<Rightarrow> ''stream'' | Some (Text s) \<Rightarrow> ''string'')"

definition mem_hash :: "mem_redis \<Rightarrow> string \<Rightarrow> string \<rightharpoonup> string" where
  "mem_hash r k = (case mem_values r k of Some (Hash h) \<Rightarrow> h | _ \<Rightarrow> Map.empty)"

definition mem_stream :: "mem_redis \<Rightarrow> string \<Rightarrow> stream_entry list" where
  "mem_stream r k = (case mem_values r k of Some (Stream es) \<Rightarrow> es | _ \<Rightarrow> [])"

definition mem_gone :: "mem_redis \<Rightarrow> int \<Rightarrow> string \<Rightarrow> bool" where
  "mem_gone r t k = (case mem_expiries r k of Some x \<Rightarrow> x \<le> t | None \<Rightarrow> False)"

definition mem_ops :: "mem_redis redis_ops" where
  "mem_ops = \<lparr>
     r_at = \<lambda>r t. \<lparr>mem_values = \<lambda>k. if mem_gone r t k then None else mem_values r k,
                   mem_expiries = \<lambda>k. if mem_gone r t k then None else mem_expiries r k\<rparr>,
     r_TYPE = mem_type,
     r_HGET = mem_hash,
     r_HSET = \<lambda>r k fvs. r\<lparr>mem_values := (mem_values r)(k \<mapsto> Hash (mem_hash r k ++ map_of (rev fvs)))\<rparr>,
     r_PEXPIRE = \<lambda>r k ttl t. if mem_values r k = None then r
                             else r\<lparr>mem_expiries := (mem_expiries r)(k \<mapsto> t + ttl)\<rparr>,
     r_XLEN = \<lambda>r k. int (length (mem_stream r k)),
     r_XADD = \<lambda>r k e. r\<lparr>mem_values := (mem_values r)(k \<mapsto> Stream (mem_stream r k @ [e]))\<rparr>,
     r_stream = mem_stream,
     r_expiry = mem_expiries\<rparr>"

lemmas mem_defs = mem_ops_def mem_type_def mem_hash_def mem_stream_def mem_gone_def expired_def

lemma mem_type_none: "mem_type r k = ''none'' \<longleftrightarrow> mem_values r k = None"
  by (simp add: mem_type_def split: option.split redis_value.split)

interpretation mem: redis_server mem_ops
proof
  fix r k k' f t e fvs and ttl :: int
  show "r_expiry mem_ops (r_PEXPIRE mem_ops r k ttl t) k' =
      (if k' = k \<and> r_TYPE mem_ops r k \<noteq> ''none'' then Some (t + ttl) else r_expiry mem_ops r k')"
    using mem_type_none [of r k] by (auto simp: mem_ops_def)
  show "r_HGET mem_ops (r_HSET mem_ops r k fvs) k' f =
      (if k' = k \<and> map_of (rev fvs) f \<noteq> None then map_of (rev fvs) f else r_HGET mem_ops r k' f)"
    by (simp add: mem_ops_def mem_hash_def map_add_def split: option.split)
  show "r_TYPE mem_ops r k \<in> {''none'', ''hash''} \<Longrightarrow> r_stream mem_ops (r_HSET mem_ops r k fvs) = r_stream mem_ops r"
    by (auto simp: mem_defs fun_eq_iff split: option.splits redis_value.splits)
  show "r_TYPE mem_ops r k \<in> {''none'', ''stream''} \<Longrightarrow> r_HGET mem_ops (r_XADD mem_ops r k e) = r_HGET mem_ops r"
    by (auto simp: mem_defs fun_eq_iff split: option.splits redis_value.splits)
qed (auto simp: mem_defs split: option.splits redis_value.splits)

end
