(* ===== verification/LuaNumber.thy ===== *)
theory LuaNumber
  imports Float64
begin

text \<open>
  Numbers as text. Redis runs the script of \<open>redis-token-bucket.go\<close> in Lua 5.1, whose numbers
  are binary64 and whose \<open>tostring\<close> prints them with the C format \<open>%.14g\<close>: 14 significant
  decimal digits, trailing zeros removed, exponent notation below \<open>10^-4\<close> and from \<open>10^14\<close> on.
  \<open>tonumber\<close> reads a decimal numeral and rounds it to binary64. What the script writes into
  the bucket's hash and into the approval events is this text, so a balance loses the digits
  beyond the fourteenth each time it is stored.
\<close>

section \<open>Decimal digits\<close>

definition digit_char :: "nat \<Rightarrow> char" where
  "digit_char d = char_of (48 + d)"

definition digit_val :: "char \<Rightarrow> nat" where
  "digit_val c = of_char c - 48"

definition is_digit :: "char \<Rightarrow> bool" where
  "is_digit c \<longleftrightarrow> 48 \<le> (of_char c :: nat) \<and> (of_char c :: nat) \<le> 57"

fun nat_string :: "nat \<Rightarrow> string" where
  "nat_string n = (if n < 10 then [digit_char n] else nat_string (n div 10) @ [digit_char (n mod 10)])"

declare nat_string.simps [simp del]

definition digits_val :: "string \<Rightarrow> nat" where
  "digits_val = foldl (\<lambda>v c. 10 * v + digit_val c) 0"

definition int_string :: "int \<Rightarrow> string" where
  "int_string n = (if n < 0 then ''-'' else []) @ nat_string (nat \<bar>n\<bar>)"

lemma digit_char_of [simp]:
  assumes "d < 10"
  shows "is_digit (digit_char d)" and "digit_val (digit_char d) = d"
proof -
  have "(of_char (digit_char d) :: nat) = 48 + d" using assms by (simp add: digit_char_def)
  then show "is_digit (digit_char d)" "digit_val (digit_char d) = d"
    using assms by (simp_all add: is_digit_def digit_val_def)
qed

lemma digit_char_0 [simp]: "digit_char 0 = CHR ''0''"
  by code_simp

lemma digits_val_Nil [simp]: "digits_val [] = 0"
  by (simp add: digits_val_def)

lemma digits_val_snoc [simp]: "digits_val (ds @ [c]) = 10 * digits_val ds + digit_val c"
  by (simp add: digits_val_def)

lemma digits_val_append: "digits_val (ds @ es) = digits_val ds * 10 ^ length es + digits_val es"
proof (induction es rule: rev_induct)
  case (snoc c es)
  have "digits_val (ds @ es @ [c]) = 10 * digits_val (ds @ es) + digit_val c"
    by (metis append.assoc digits_val_snoc)
  then show ?case using snoc by simp
qed simp

lemma digits_val_zeros [simp]: "digits_val (replicate n (CHR ''0'')) = 0"
  by (induction n) (simp_all add: replicate_append_same [symmetric] digit_val_def)

lemma nat_string_digits [simp]: "c \<in> set (nat_string n) \<Longrightarrow> is_digit c"
  by (induction n rule: nat_string.induct) (subst (asm) nat_string.simps, auto split: if_splits)

lemma digits_val_nat_string [simp]: "digits_val (nat_string n) = n"
  by (induction n rule: nat_string.induct) (subst nat_string.simps, auto simp: digits_val_def)

lemma nat_string_nonempty [simp]: "nat_string n \<noteq> []"
  by (subst nat_string.simps) simp

lemma nat_string_length_bounds: "n < 10 ^ length (nat_string n)" "0 < n \<Longrightarrow> 10 ^ (length (nat_string n) - 1) \<le> n"
proof (induction n rule: nat_string.induct)
  case (1 n)
  {
    case 1
    then show ?case
      using "1.IH"(1) by (subst nat_string.simps) auto
  next
    case 2
    show ?case
    proof (cases "n < 10")
      case True
      then show ?thesis using 2 by (subst nat_string.simps) simp
    next
      case False
      then have ih: "10 ^ (length (nat_string (n div 10)) - 1) \<le> n div 10" using "1.IH"(2) by simp
      have l: "length (nat_string n) - 1 = Suc (length (nat_string (n div 10)) - 1)"
        using False by (subst nat_string.simps) (simp add: Suc_diff_1)
      have "10 * 10 ^ (length (nat_string (n div 10)) - 1) \<le> n" using ih by linarith
      then show ?thesis by (simp only: l power_Suc)
    qed
  }
qed

lemma nat_string_length:
  assumes "10 ^ k \<le> n" "n < 10 ^ Suc k"
  shows "length (nat_string n) = Suc k"
proof -
  have n: "0 < n" using assms(1) by (metis gr0I not_less power_eq_0_iff zero_less_power zero_neq_numeral le_zero_eq)
  have "(10::nat) ^ k < 10 ^ length (nat_string n)" using nat_string_length_bounds(1) [of n] assms(1) by linarith
  then have "k < length (nat_string n)" by simp
  moreover have "(10::nat) ^ (length (nat_string n) - 1) < 10 ^ Suc k"
    using nat_string_length_bounds(2) [OF n] assms(2) by linarith
  then have "length (nat_string n) - 1 < Suc k" by (simp only: power_strict_increasing_iff)
  ultimately show ?thesis by simp
qed

section \<open>Definitions\<close>

text \<open>The decimal exponent: \<open>10 powi dec_exp x \<le> x < 10 powi (dec_exp x + 1)\<close> for positive \<open>x\<close>.\<close>

definition dec_exp :: "rat \<Rightarrow> int" where
  "dec_exp x =
     (let (n, d) = quotient_of x;
          k = int (length (nat_string (nat n))) - int (length (nat_string (nat d)))
      in if 10 powi k \<le> x then k else k - 1)"

text \<open>The 14 significant digits of a positive number, and its value rounded to them.\<close>

definition sig14 :: "rat \<Rightarrow> int" where
  "sig14 x = rne (x / 10 powi (dec_exp x - 13))"

definition g14_pos :: "rat \<Rightarrow> rat" where
  "g14_pos x = of_int (sig14 x) * 10 powi (dec_exp x - 13)"

definition g14 :: "rat \<Rightarrow> rat" where
  "g14 x = (if x = 0 then 0 else sgn x * g14_pos \<bar>x\<bar>)"

definition g14_parts :: "rat \<Rightarrow> int \<times> int" where
  "g14_parts x = (if sig14 x = 10 ^ 14 then (10 ^ 13, dec_exp x + 1) else (sig14 x, dec_exp x))"

definition strip_zeros :: "string \<Rightarrow> string" where
  "strip_zeros ds = rev (dropWhile (\<lambda>c. c = CHR ''0'') (rev ds))"

definition fraction :: "string \<Rightarrow> string" where
  "fraction ds = (if strip_zeros ds = [] then [] else CHR ''.'' # strip_zeros ds)"

text \<open>The digits \<open>ds\<close>, the first of which has the weight \<open>10 powi e\<close>, in the style of \<open>%g\<close>.\<close>

definition exponent_string :: "int \<Rightarrow> string" where
  "exponent_string e =
     (let ds = nat_string (nat \<bar>e\<bar>)
      in (if e < 0 then ''-'' else ''+'') @ (if length ds < 2 then CHR ''0'' # ds else ds))"

definition format_g :: "string \<Rightarrow> int \<Rightarrow> string" where
  "format_g ds e =
     (if e < - 4 \<or> 14 \<le> e
      then take 1 ds @ fraction (drop 1 ds) @ CHR ''e'' # exponent_string e
      else if 0 \<le> e then take (nat e + 1) ds @ fraction (drop (nat e + 1) ds)
      else CHR ''0'' # fraction (replicate (nat (- e - 1)) (CHR ''0'') @ ds))"

definition lua_tostring :: "rat \<Rightarrow> string" where
  "lua_tostring x =
     (if x = 0 then ''0''
      else let (m, e) = g14_parts \<bar>x\<bar>
           in (if x < 0 then ''-'' else []) @ format_g (nat_string (nat m)) e)"

text \<open>
  \<open>tonumber\<close> on decimal numerals: an optional sign, digits with an optional fraction, an
  optional exponent. Any other text is no number. The other forms Lua accepts (hexadecimal,
  surrounding blanks) are not written by the script.
\<close>

definition split_sign :: "string \<Rightarrow> int \<times> string" where
  "split_sign s =
     (case s of
        c # cs \<Rightarrow> if c = CHR ''-'' then (- 1, cs) else if c = CHR ''+'' then (1, cs) else (1, s)
      | [] \<Rightarrow> (1, []))"

definition read_exponent :: "string \<Rightarrow> int option" where
  "read_exponent s =
     (let (sg, ds) = split_sign s
      in if ds \<noteq> [] \<and> list_all is_digit ds then Some (sg * int (digits_val ds)) else None)"

definition lua_tonumber :: "string \<Rightarrow> rat option" where
  "lua_tonumber s =
     (let (sg, s1) = split_sign s;
          ip = takeWhile is_digit s1;
          s2 = dropWhile is_digit s1;
          (fp, s3) = (case s2 of
              c # cs \<Rightarrow> if c = CHR ''.'' then (takeWhile is_digit cs, dropWhile is_digit cs) else ([], s2)
            | [] \<Rightarrow> ([], []));
          ex = (case s3 of [] \<Rightarrow> Some 0
                | c # cs \<Rightarrow> if c = CHR ''e'' \<or> c = CHR ''E'' then read_exponent cs else None)
      in if ip = [] \<and> fp = [] then None
         else map_option (\<lambda>e. rnd (of_int sg * of_nat (digits_val (ip @ fp)) * 10 powi (e - int (length fp)))) ex)"

section \<open>Fourteen digits\<close>

lemma powi10_mono: "a \<le> b \<Longrightarrow> (10::rat) powi a \<le> 10 powi b"
  by (rule power_int_increasing) auto

lemma powi10_less_iff [simp]: "(10::rat) powi a < 10 powi b \<longleftrightarrow> a < b"
  by (meson not_le power_int_strict_increasing powi10_mono less_le_trans numeral_One one_less_numeral_iff semiring_norm(76))

lemma nat_string_powi:
  "0 < n \<Longrightarrow> (10::rat) powi (int (length (nat_string n)) - 1) \<le> of_nat n"
  "of_nat n < (10::rat) powi int (length (nat_string n))"
proof -
  obtain l where l: "length (nat_string n) = Suc l" by (metis length_Suc_conv nat_string_nonempty neq_Nil_conv)
  have "(of_nat n :: rat) < of_nat (10 ^ Suc l)"
    using nat_string_length_bounds(1) [of n] unfolding l by (rule of_nat_less_iff [THEN iffD2])
  then show "of_nat n < (10::rat) powi int (length (nat_string n))"
    by (simp only: l power_int_of_nat of_nat_power of_nat_numeral)
  assume "0 < n"
  then have "(of_nat (10 ^ l) :: rat) \<le> of_nat n"
    using nat_string_length_bounds(2) [of n] by (intro of_nat_le_iff [THEN iffD2]) (simp add: l)
  moreover have "int (Suc l) - 1 = int l" by simp
  ultimately show "(10::rat) powi (int (length (nat_string n)) - 1) \<le> of_nat n"
    by (simp only: l power_int_of_nat of_nat_power of_nat_numeral)
qed

lemma powi10_divide: "(10::rat) powi a / 10 powi b = 10 powi (a - b)"
  by (simp add: power_int_diff)

lemma dec_exp_bounds:
  assumes "0 < x"
  shows "10 powi dec_exp x \<le> x" and "x < 10 powi (dec_exp x + 1)"
proof -
  obtain n d where q: "quotient_of x = (n, d)" by force
  have d: "0 < d" using quotient_of_denom_pos [OF q] .
  have x: "x = of_int n / of_int d" using quotient_of_div [OF q] .
  have n: "0 < n" using assms d by (simp add: x zero_less_divide_iff)
  let ?a = "length (nat_string (nat n))" and ?b = "length (nat_string (nat d))"
  have ab: "0 < ?a" "0 < ?b" by simp_all
  have nd: "(of_nat (nat n) :: rat) = of_int n" "(of_nat (nat d) :: rat) = of_int d" using n d by simp_all
  note bn = nat_string_powi [of "nat n", unfolded nd] and bd = nat_string_powi [of "nat d", unfolded nd]
  have d0: "(0::rat) < of_int d" using d by simp
  have "x < 10 powi int ?a / 10 powi (int ?b - 1)"
    unfolding x by (rule frac_less [OF _ bn(2) _ bd(1)]) (use n d in simp_all)
  also have "\<dots> = 10 powi (int ?a - int ?b + 1)"
    by (simp only: powi10_divide diff_diff_eq2 diff_add_eq)
  finally have up: "x < 10 powi (int ?a - int ?b + 1)" .
  have "10 powi (int ?a - 1) / 10 powi int ?b < x"
    unfolding x by (rule frac_less2 [OF _ bn(1) d0 bd(2)]) (use n in simp_all)
  moreover have "(10::rat) powi (int ?a - 1) / 10 powi int ?b = 10 powi (int ?a - int ?b - 1)"
    by (simp only: powi10_divide diff_right_commute)
  ultimately have low: "10 powi (int ?a - int ?b - 1) \<le> x" by simp
  show "10 powi dec_exp x \<le> x" "x < 10 powi (dec_exp x + 1)"
    using up low by (simp_all add: dec_exp_def q Let_def)
qed

lemma dec_exp_unique:
  assumes "0 < x" "10 powi e \<le> x" "x < 10 powi (e + 1)"
  shows "dec_exp x = e"
proof -
  have "10 powi e < (10::rat) powi (dec_exp x + 1)" using assms dec_exp_bounds [OF assms(1)] by linarith
  moreover have "10 powi dec_exp x < (10::rat) powi (e + 1)" using assms dec_exp_bounds [OF assms(1)] by linarith
  ultimately show ?thesis by simp
qed

lemma dec_exp_less:
  assumes "0 < x" "x < 10 powi e"
  shows "dec_exp x < e"
  using dec_exp_bounds(1) [OF assms(1)] assms(2) powi10_less_iff [of "dec_exp x" e] by linarith

lemma sig14_bounds:
  assumes "0 < x"
  shows "10 ^ 13 \<le> sig14 x" and "sig14 x \<le> 10 ^ 14"
proof -
  let ?u = "10 powi (dec_exp x - 13) :: rat"
  have u: "0 < ?u" by simp
  have "(10::rat) powi dec_exp x = 10 ^ 13 * ?u" "(10::rat) powi (dec_exp x + 1) = 10 ^ 14 * ?u"
    by (simp_all add: power_int_diff power_int_add)
  then have "of_int (10 ^ 13) \<le> x / ?u" "x / ?u \<le> of_int (10 ^ 14)"
    using dec_exp_bounds [OF assms] u by (simp_all add: divide_le_eq le_divide_eq)
  then show "10 ^ 13 \<le> sig14 x" "sig14 x \<le> 10 ^ 14"
    by (simp_all only: sig14_def rne_ge_int rne_le_int)
qed

lemma g14_pos: "0 < x \<Longrightarrow> g14 x = g14_pos x"
  by (simp add: g14_def)

lemma g14_0 [simp]: "g14 0 = 0"
  by (simp add: g14_def)

text \<open>The relative error of one printing: half a unit of the fourteenth digit.\<close>

lemma g14_err:
  assumes "0 \<le> x"
  shows "\<bar>g14 x - x\<bar> \<le> x * (5 / 10 ^ 14)"
proof (cases "x = 0")
  case False
  then have x: "0 < x" using assms by simp
  let ?u = "10 powi (dec_exp x - 13) :: rat"
  have u: "0 < ?u" by simp
  have "g14 x - x = (of_int (sig14 x) - x / ?u) * ?u"
    by (simp add: g14_pos [OF x] g14_pos_def left_diff_distrib)
  then have "\<bar>g14 x - x\<bar> = \<bar>of_int (sig14 x) - x / ?u\<bar> * ?u" by (simp only: abs_mult abs_of_pos [OF u])
  also have "\<dots> \<le> 1 / 2 * ?u"
    using rne_err [of "x / ?u"] u by (intro mult_right_mono) (auto simp: sig14_def)
  also have "?u = 10 powi dec_exp x / 10 ^ 13" by (simp add: power_int_diff)
  also have "1 / 2 * (10 powi dec_exp x / 10 ^ 13) \<le> x * (5 / 10 ^ 14)"
    using dec_exp_bounds(1) [OF x] by simp
  finally show ?thesis .
qed simp

lemma g14_nonneg [simp]:
  assumes "0 \<le> x"
  shows "0 \<le> g14 x"
proof -
  have "x * (5 / 10 ^ 14) \<le> x" using assms by simp
  then show ?thesis using g14_err [OF assms] by linarith
qed

lemma g14_le_int:
  assumes "0 \<le> x" "x \<le> of_int c" "c < 10 ^ 14"
  shows "g14 x \<le> of_int c"
proof (cases "x = 0")
  case False
  then have x: "0 < x" using assms by simp
  let ?e = "dec_exp x"
  have "of_int c < (of_int (10 ^ 14) :: rat)" using assms(3) by (simp only: of_int_less_iff)
  then have "x < 10 powi 14" using assms(2) by simp
  then have e: "?e \<le> 13" using dec_exp_less [OF x, of 14] by simp
  let ?u = "10 powi (?e - 13) :: rat"
  have u: "?u = 1 / of_int (10 ^ nat (13 - ?e))" using e by (simp add: power_int_def inverse_eq_divide power_divide)
  have "x / ?u \<le> of_int (c * 10 ^ nat (13 - ?e))" using assms(2) by (simp add: u)
  then have "sig14 x \<le> c * 10 ^ nat (13 - ?e)" by (simp only: sig14_def rne_le_int)
  then have "of_int (sig14 x) * ?u \<le> of_int (c * 10 ^ nat (13 - ?e)) * ?u"
    by (intro mult_right_mono) (simp_all only: of_int_le_iff zero_le_power_int zero_le_numeral)
  then show ?thesis by (simp add: g14_pos [OF x] g14_pos_def u)
qed (use assms in simp)

lemma g14_ge_int:
  assumes "of_int c \<le> x" "0 \<le> c" "x < 10 ^ 14"
  shows "of_int c \<le> g14 x"
proof (cases "x = 0")
  case False
  then have x: "0 < x" using assms by (metis of_int_0_le_iff order_le_less order_trans)
  let ?e = "dec_exp x"
  have e: "?e \<le> 13" using dec_exp_less [OF x, of 14] assms(3) by simp
  let ?u = "10 powi (?e - 13) :: rat"
  have u: "?u = 1 / of_int (10 ^ nat (13 - ?e))" using e by (simp add: power_int_def inverse_eq_divide power_divide)
  have "of_int (c * 10 ^ nat (13 - ?e)) \<le> x / ?u" using assms(1) by (simp add: u)
  then have "c * 10 ^ nat (13 - ?e) \<le> sig14 x" by (simp only: sig14_def rne_ge_int)
  then have "of_int (c * 10 ^ nat (13 - ?e)) * ?u \<le> of_int (sig14 x) * ?u"
    by (intro mult_right_mono) (simp_all only: of_int_le_iff zero_le_power_int zero_le_numeral)
  then show ?thesis by (simp add: g14_pos [OF x] g14_pos_def u)
qed (use assms in simp)

lemma g14_int:
  assumes "0 \<le> n" "n < 10 ^ 14"
  shows "g14 (of_int n) = of_int n"
proof -
  have "(of_int n :: rat) < of_int (10 ^ 14)" using assms(2) by (simp only: of_int_less_iff)
  then show ?thesis using g14_le_int [of "of_int n" n] g14_ge_int [of n "of_int n"] assms by simp
qed

section \<open>Reading what was printed\<close>

lemma not_digit_chars [simp]:
  "\<not> is_digit (CHR ''.'')" "\<not> is_digit (CHR ''e'')" "\<not> is_digit (CHR ''-'')" "\<not> is_digit (CHR ''+'')"
  and digit_0 [simp]: "is_digit (CHR ''0'')" "digit_val (CHR ''0'') = 0"
  by (simp_all add: is_digit_def digit_val_def)

lemma digits_val_Cons0 [simp]: "digits_val (CHR ''0'' # ds) = digits_val ds"
  using digits_val_append [of "[CHR ''0'']" ds] by (simp add: digits_val_def)

lemma strip_zeros_eq: "\<exists>n. ds = strip_zeros ds @ replicate n (CHR ''0'')"
proof -
  let ?z = "takeWhile (\<lambda>c. c = CHR ''0'') (rev ds)"
  have "\<forall>c \<in> set ?z. c = CHR ''0''" by (auto dest: set_takeWhileD)
  then have "replicate (length ?z) (CHR ''0'') = ?z" by (rule replicate_length_same)
  then have "rev ?z = replicate (length ?z) (CHR ''0'')" using rev_replicate [of "length ?z" "CHR ''0''"] by simp
  moreover have "ds = strip_zeros ds @ rev ?z"
    by (simp only: strip_zeros_def rev_append [symmetric] takeWhile_dropWhile_id rev_rev_ident)
  ultimately have "ds = strip_zeros ds @ replicate (length ?z) (CHR ''0'')" by (simp only:)
  then show ?thesis by blast
qed

lemma strip_zeros_digits: "list_all is_digit ds \<Longrightarrow> list_all is_digit (strip_zeros ds)"
  by (auto simp: strip_zeros_def list_all_iff dest: set_dropWhileD)

lemma strip_zeros_value:
  "(of_nat (digits_val (ip @ strip_zeros ds)) :: rat) * 10 powi (e - int (length (strip_zeros ds))) =
   of_nat (digits_val (ip @ ds)) * 10 powi (e - int (length ds))"
proof -
  obtain n where ds: "ds = strip_zeros ds @ replicate n (CHR ''0'')" using strip_zeros_eq by blast
  let ?s = "strip_zeros ds"
  have "digits_val (ip @ ds) = digits_val ((ip @ ?s) @ replicate n (CHR ''0''))" by (metis ds append.assoc)
  then have v: "digits_val (ip @ ds) = digits_val (ip @ ?s) * 10 ^ n"
    by (simp only: digits_val_append length_replicate digits_val_zeros add_0_right)
  have "int (length ds) = int (length ?s) + int n" using arg_cong [OF ds, of length] by simp
  then have p: "(10::rat) powi (e - int (length ?s)) = 10 powi (e - int (length ds)) * 10 ^ n"
    by (simp add: power_int_add [symmetric] flip: power_int_of_nat)
  show ?thesis unfolding v p by simp
qed

definition sign_string :: "int \<Rightarrow> string" where
  "sign_string sg = (if sg = - 1 then ''-'' else [])"

lemma split_sign_digits:
  assumes "sg = 1 \<or> sg = - 1" "ds \<noteq> []" "is_digit (hd ds)"
  shows "split_sign (sign_string sg @ ds) = (sg, ds)"
  using assms by (cases ds) (auto simp: split_sign_def sign_string_def)

lemma takeWhile_digits:
  assumes "list_all is_digit ds" "rest = [] \<or> \<not> is_digit (hd rest)"
  shows "takeWhile is_digit (ds @ rest) = ds" and "dropWhile is_digit (ds @ rest) = rest"
  using assms by (auto simp: list_all_iff takeWhile_append dropWhile_append takeWhile_eq_Nil_iff dropWhile_eq_self_iff)

text \<open>The numeral with the parts \<open>ip\<close>, \<open>ds\<close> and \<open>es\<close>.\<close>

lemma lua_tonumber_parts:
  assumes sg: "sg = 1 \<or> sg = - 1" and ip: "ip \<noteq> []" "list_all is_digit ip" and ds: "list_all is_digit ds"
    and es: "es = [] \<and> e = 0 \<or> (\<exists>cs. es = CHR ''e'' # cs \<and> read_exponent cs = Some e)"
  shows "lua_tonumber (sign_string sg @ ip @ fraction ds @ es) =
    Some (rnd (of_int sg * of_nat (digits_val (ip @ ds)) * 10 powi (e - int (length ds))))"
proof -
  let ?f = "strip_zeros ds"
  have hd_ip: "is_digit (hd ip)" using ip by (cases ip) auto
  have s: "split_sign (sign_string sg @ ip @ fraction ds @ es) = (sg, ip @ fraction ds @ es)"
    using split_sign_digits [OF sg, of "ip @ fraction ds @ es"] ip hd_ip by simp
  have e_hd: "es = [] \<or> \<not> is_digit (hd es)" using es by auto
  have r_hd: "fraction ds @ es = [] \<or> \<not> is_digit (hd (fraction ds @ es))"
    using e_hd by (auto simp: fraction_def)
  note t1 = takeWhile_digits [OF ip(2) r_hd] and t2 = takeWhile_digits [OF strip_zeros_digits [OF ds] e_hd]
  have "lua_tonumber (sign_string sg @ ip @ fraction ds @ es) =
      Some (rnd (of_int sg * of_nat (digits_val (ip @ ?f)) * 10 powi (e - int (length ?f))))"
    unfolding lua_tonumber_def Let_def s prod.case t1
    using es ip t2 by (cases "?f = []") (auto simp: fraction_def)
  then show ?thesis using strip_zeros_value [of ip ds e] by (simp add: mult.assoc)
qed

lemma read_exponent_string: "read_exponent (exponent_string e) = Some e"
proof -
  define ds where "ds = nat_string (nat \<bar>e\<bar>)"
  define es where "es = (if length ds < 2 then CHR ''0'' # ds else ds)"
  have e: "exponent_string e = (if e < 0 then CHR ''-'' else CHR ''+'') # es"
    by (simp add: exponent_string_def Let_def ds_def es_def)
  have "list_all is_digit es" "es \<noteq> []" "digits_val es = nat \<bar>e\<bar>"
    by (auto simp: es_def ds_def list_all_iff)
  then show ?thesis unfolding e by (simp add: read_exponent_def split_sign_def)
qed

lemma lua_tonumber_format_g:
  assumes m: "10 ^ 13 \<le> m" "m < 10 ^ 14" and sg: "sg = 1 \<or> sg = - 1"
  shows "lua_tonumber (sign_string sg @ format_g (nat_string m) e) =
    Some (rnd (of_int sg * of_nat m * 10 powi (e - 13)))"
proof -
  let ?ds = "nat_string m"
  have len: "length ?ds = 14" using nat_string_length [of 13 m] m by simp
  have dig: "list_all is_digit ?ds" by (simp add: list_all_iff)
  then have td: "list_all is_digit (take k ?ds)" "list_all is_digit (drop k ?ds)" for k
    by (auto simp: list_all_iff dest: in_set_takeD in_set_dropD)
  consider "e < - 4 \<or> 14 \<le> e" | "0 \<le> e" "e < 14" | "- 4 \<le> e" "e < 0" by linarith
  then show ?thesis
  proof cases
    case 1
    have "lua_tonumber (sign_string sg @ take 1 ?ds @ fraction (drop 1 ?ds) @ CHR ''e'' # exponent_string e) =
      Some (rnd (of_int sg * of_nat (digits_val (take 1 ?ds @ drop 1 ?ds)) * 10 powi (e - int (length (drop 1 ?ds)))))"
      using td len by (intro lua_tonumber_parts [OF sg]) (auto simp: read_exponent_string)
    then show ?thesis using 1 len by (simp add: format_g_def)
  next
    case 2
    let ?k = "nat e + 1"
    have "lua_tonumber (sign_string sg @ take ?k ?ds @ fraction (drop ?k ?ds) @ []) =
      Some (rnd (of_int sg * of_nat (digits_val (take ?k ?ds @ drop ?k ?ds)) * 10 powi (0 - int (length (drop ?k ?ds)))))"
      using td len by (intro lua_tonumber_parts [OF sg]) auto
    moreover have "- int (14 - ?k) = e - 13" using 2 by simp
    ultimately show ?thesis using 2 len by (simp add: format_g_def)
  next
    case 3
    let ?z = "replicate (nat (- e - 1)) (CHR ''0'') @ ?ds"
    have "lua_tonumber (sign_string sg @ [CHR ''0''] @ fraction ?z @ []) =
      Some (rnd (of_int sg * of_nat (digits_val ([CHR ''0''] @ ?z)) * 10 powi (0 - int (length ?z))))"
      using dig by (intro lua_tonumber_parts [OF sg]) (auto simp: list_all_iff)
    moreover have "- int (length ?z) = e - 13" using 3 len by simp
    ultimately show ?thesis using 3 by (simp add: format_g_def digits_val_append)
  qed
qed

lemma lua_tonumber_tostring: "lua_tonumber (lua_tostring x) = Some (rnd (g14 x))"
proof (cases "x = 0")
  case True
  then show ?thesis using lua_tonumber_parts [of 1 "''0''" "[]" "[]" 0]
    by (simp add: lua_tostring_def sign_string_def fraction_def strip_zeros_def)
next
  case False
  let ?sg = "if x < 0 then - 1 else 1 :: int"
  have x: "0 < \<bar>x\<bar>" using False by simp
  obtain m e where me: "g14_parts \<bar>x\<bar> = (m, e)" by force
  have m: "10 ^ 13 \<le> m" "m < 10 ^ 14"
    using me sig14_bounds [OF x] by (auto simp: g14_parts_def split: if_splits)
  have "(10::rat) ^ 13 * 10 powi (dec_exp \<bar>x\<bar> + 1 - 13) = 10 ^ 14 * 10 powi (dec_exp \<bar>x\<bar> - 13)"
    by (simp add: power_int_diff power_int_add)
  then have v: "of_int m * 10 powi (e - 13) = g14_pos \<bar>x\<bar>"
    using me by (auto simp: g14_pos_def g14_parts_def split: if_splits)
  have "lua_tostring x = sign_string ?sg @ format_g (nat_string (nat m)) e"
    using False by (simp add: lua_tostring_def sign_string_def me)
  moreover have "lua_tonumber (sign_string ?sg @ format_g (nat_string (nat m)) e) =
      Some (rnd (of_int ?sg * of_nat (nat m) * 10 powi (e - 13)))"
  proof (rule lua_tonumber_format_g)
    show "10 ^ 13 \<le> nat m" "nat m < 10 ^ 14" using m by (simp_all add: nat_less_iff le_nat_iff)
  qed simp
  moreover have "of_nat (nat m) * 10 powi (e - 13) = g14_pos \<bar>x\<bar>" using v m by simp
  ultimately show ?thesis using False by (auto simp: g14_def sgn_if mult.assoc)
qed

text \<open>An integer of at most 14 digits is printed as its decimal numeral.\<close>

lemma nat_string_zeros: "0 < n \<Longrightarrow> nat_string (n * 10 ^ k) = nat_string n @ replicate k (CHR ''0'')"
proof (induction k)
  case (Suc k)
  have "\<not> n * 10 ^ Suc k < 10" using Suc.prems by simp
  moreover have "n * 10 ^ Suc k div 10 = n * 10 ^ k" "n * 10 ^ Suc k mod 10 = 0" by simp_all
  ultimately have "nat_string (n * 10 ^ Suc k) = nat_string (n * 10 ^ k) @ [digit_char 0]"
    by (subst nat_string.simps) (simp only: if_False)
  then show ?case using Suc by (simp add: replicate_append_same)
qed simp

lemma fraction_zeros [simp]: "fraction (replicate k (CHR ''0'')) = []"
  by (simp add: fraction_def strip_zeros_def)

lemma lua_tostring_int:
  assumes "0 \<le> n" "n < 10 ^ 14"
  shows "lua_tostring (of_int n) = nat_string (nat n)"
proof (cases "n = 0")
  case False
  define k where "k = length (nat_string (nat n)) - 1"
  have n: "0 < nat n" using assms False by simp
  have len: "length (nat_string (nat n)) = Suc k" by (simp add: k_def)
  have x: "(0::rat) < of_int n" using assms False by simp
  have eq: "of_nat (nat n) = (of_int n :: rat)" using assms by simp
  have "int (Suc k) - 1 = int k" "int (Suc k) = int k + 1" by simp_all
  then have e: "dec_exp (of_int n) = int k"
    using nat_string_powi [of "nat n"] n by (intro dec_exp_unique [OF x]) (simp_all only: len eq)
  have "(10::nat) ^ k \<le> nat n" using nat_string_length_bounds(2) [OF n] by (simp add: len)
  moreover have "nat n < 10 ^ 14" using assms by (simp add: nat_less_iff)
  ultimately have "(10::nat) ^ k < 10 ^ 14" by linarith
  then have "k < 14" by (simp only: power_strict_increasing_iff)
  then have k: "k \<le> 13" by simp
  let ?m = "n * 10 ^ (13 - k)"
  have "(10::rat) powi (int k - 13) = 1 / of_int (10 ^ (13 - k))"
    using k by (simp add: power_int_def nat_diff_distrib inverse_eq_divide power_divide)
  then have s: "sig14 (of_int n) = ?m" by (simp add: sig14_def e flip: of_int_mult of_int_power)
  have nm: "nat ?m = nat n * 10 ^ (13 - k)" using assms by (simp add: nat_mult_distrib nat_power_eq)
  have "nat n < 10 ^ Suc k" using nat_string_length_bounds(1) [of "nat n"] by (simp only: len)
  then have "nat n * 10 ^ (13 - k) < 10 ^ Suc k * 10 ^ (13 - k)" by simp
  also have "(10::nat) ^ Suc k * 10 ^ (13 - k) = 10 ^ 14" using k by (simp flip: power_add)
  finally have "?m < 10 ^ 14" using nm by (metis nat_less_numeral_power_cancel_iff)
  then have "g14_parts (of_int n) = (?m, int k)" by (simp add: g14_parts_def s e)
  moreover have "nat_string (nat ?m) = nat_string (nat n) @ replicate (13 - k) (CHR ''0'')"
    by (simp only: nm nat_string_zeros [OF n])
  ultimately show ?thesis
    using False assms k by (simp add: lua_tostring_def format_g_def len)
qed (simp add: lua_tostring_def nat_string.simps)

end
