(* ===== verification/RedisTokenBucket.thy ===== *)
theory RedisTokenBucket
  imports RedisServer LuaNumber TokenBucket
begin

text \<open>
  The shared token bucket of \<open>internal/ratelimiter/redis-token-bucket.go\<close>: the Lua script,
  line by line, over the commands of \<open>RedisServer\<close> and the numbers of \<open>LuaNumber\<close>, and the Go
  code around it. A script runs atomically on the server, so it is one step of the data set.
  The reply can be lost before or after the script ran; \<open>link\<close> says which.
\<close>

section \<open>Keys\<close>

text \<open>\<open>base64.RawURLEncoding\<close>: three bytes become four letters, no padding.\<close>

definition b64_alphabet :: string where
  "b64_alphabet = ''ABCDEFGHIJKLMNOPQRSTUVWXYZabcdefghijklmnopqrstuvwxyz0123456789-_''"

fun b64_indices :: "nat list \<Rightarrow> nat list" where
  "b64_indices (a # b # c # rest) =
     [a div 4, a mod 4 * 16 + b div 16, b mod 16 * 4 + c div 64, c mod 64] @ b64_indices rest"
| "b64_indices [a, b] = [a div 4, a mod 4 * 16 + b div 16, b mod 16 * 4]"
| "b64_indices [a] = [a div 4, a mod 4 * 16]"
| "b64_indices [] = []"

definition base64_EncodeToString :: "string \<Rightarrow> string" where
  "base64_EncodeToString s = map (\<lambda>i. b64_alphabet ! i) (b64_indices (map of_char s))"

section \<open>Definitions\<close>

record RedisTokenBucketConfig =
  KeyPrefix :: string
  EventStream :: string
  MaxEventBacklog :: int

record RedisTokenBucketRateLimiter =
  rtb_policies :: policies
  keyPrefix :: string
  eventStream :: string
  maxBacklog :: int

datatype redis_config_error = ErrRedisClientRequired | ErrPolicies config_error | ErrMaximumBacklog

definition NewRedisTokenBucketRateLimiter ::
  "bool \<Rightarrow> policies \<Rightarrow> RedisTokenBucketConfig \<Rightarrow> (redis_config_error, RedisTokenBucketRateLimiter) result" where
  "NewRedisTokenBucketRateLimiter has_client ps cfg =
     (if \<not> has_client then Err ErrRedisClientRequired
      else case validateTokenBucketPolicies ps of
        Some err \<Rightarrow> Err (ErrPolicies err)
      | None \<Rightarrow>
          let prefix = (if KeyPrefix cfg = [] then ''rate_limit'' else KeyPrefix cfg);
              stream = (if EventStream cfg = [] then ''rate_limit:approved_requests'' else EventStream cfg);
              backlog = (if MaxEventBacklog cfg = 0 then 100000 else MaxEventBacklog cfg)
          in if backlog < 0 then Err ErrMaximumBacklog
             else Ok \<lparr>rtb_policies = ps, keyPrefix = prefix, eventStream = stream, maxBacklog = backlog\<rparr>)"

definition redisKey :: "RedisTokenBucketRateLimiter \<Rightarrow> Key \<Rightarrow> string" where
  "redisKey l key =
     keyPrefix l @ '':'' @ base64_EncodeToString (ClientID key) @ '':'' @ base64_EncodeToString (Resource key)"

text \<open>The arguments of the script. \<open>tonumber\<close> of a decimal integer is \<open>float64\<close> of it.\<close>

record script_args =
  arg_capacity :: int
  arg_window_ms :: int
  arg_cost :: int
  arg_ttl_ms :: int
  arg_client_id :: string
  arg_resource :: string
  arg_max_backlog :: int

text \<open>\<open>TIME\<close> replies seconds and microseconds; \<open>us\<close> is the Unix time in microseconds.\<close>

definition script_now_ms :: "int \<Rightarrow> rat" where
  "script_now_ms us =
     fadd (fmul (float64 (us div 1000000)) 1000) (ffloor (fdiv (float64 (us mod 1000000)) 1000))"

text \<open>The balance after the refill (lines 40 to 52 of the script).\<close>

definition script_tokens :: "'r redis_ops \<Rightarrow> 'r \<Rightarrow> string \<Rightarrow> rat \<Rightarrow> rat \<Rightarrow> rat \<Rightarrow> rat" where
  "script_tokens R r key capacity window_ms now_ms =
     (case (Option.bind (r_HGET R r key ''tokens'') lua_tonumber,
            Option.bind (r_HGET R r key ''last_refill_ms'') lua_tonumber) of
        (Some balance, Some last_refill_ms) \<Rightarrow>
          let elapsed_ms = max 0 (fsub now_ms last_refill_ms)
          in top_up capacity balance (refill elapsed_ms capacity window_ms)
      | _ \<Rightarrow> capacity)"

definition approval_event :: "script_args \<Rightarrow> rat \<Rightarrow> rat \<Rightarrow> rat \<Rightarrow> stream_entry" where
  "approval_event args cost now_ms remaining =
     [(''client_id'', arg_client_id args), (''resource'', arg_resource args),
      (''cost'', lua_tostring cost), (''approved_at_ms'', lua_tostring now_ms),
      (''remaining'', lua_tostring remaining)]"

definition redisTokenBucketScript ::
  "'r redis_ops \<Rightarrow> int \<Rightarrow> string \<Rightarrow> string \<Rightarrow> script_args \<Rightarrow> 'r \<Rightarrow> 'r \<times> (string, int list) result" where
  "redisTokenBucketScript R us bucket_key stream_key args r0 =
     (let r = r_at R r0 (us div 1000);
          capacity = float64 (arg_capacity args);
          window_ms = float64 (arg_window_ms args);
          cost = float64 (arg_cost args);
          bucket_type = r_TYPE R r bucket_key;
          stream_type = r_TYPE R r stream_key
      in if bucket_type \<noteq> ''none'' \<and> bucket_type \<noteq> ''hash''
         then (r, Err ''rate-limit bucket key has an unexpected type'')
         else if stream_type \<noteq> ''none'' \<and> stream_type \<noteq> ''stream''
         then (r, Err ''approved-request stream key has an unexpected type'')
         else
           let now_ms = script_now_ms us;
               balance0 = script_tokens R r bucket_key capacity window_ms now_ms;
               backlog_full = cost \<le> balance0 \<and> float64 (r_XLEN R r stream_key) \<ge> float64 (arg_max_backlog args);
               allowed = cost \<le> balance0 \<and> \<not> backlog_full;
               balance = (if allowed then fsub balance0 cost else balance0);
               retry_after_ms = (if cost \<le> balance0 then 0
                 else max 1 (fceil (fdiv (fmul (fsub cost balance) window_ms) capacity)));
               remaining = ffloor balance;
               reset_at_ms = fadd now_ms (fceil (fdiv (fmul (fsub capacity balance) window_ms) capacity));
               r1 = (if backlog_full then r
                 else r_PEXPIRE R (r_HSET R r bucket_key
                        [(''tokens'', lua_tostring balance), (''last_refill_ms'', lua_tostring now_ms)])
                      bucket_key (arg_ttl_ms args) (us div 1000));
               r2 = (if allowed then r_XADD R r1 stream_key (approval_event args cost now_ms remaining) else r1)
           in (r2, Ok [if allowed then 1 else 0, int_of_float remaining, int_of_float reset_at_ms,
                       int_of_float retry_after_ms, if backlog_full then 1 else 0]))"

text \<open>
  What the connection does with one script call: the reply arrives, or an error is returned
  although the script never ran or did run.
\<close>

datatype link = Delivered | Unsent string | ReplyLost string

definition run_script ::
  "('r \<Rightarrow> 'r \<times> (string, int list) result) \<Rightarrow> link \<Rightarrow> 'r \<Rightarrow> 'r \<times> (string, int list) result" where
  "run_script script net r =
     (case net of
        Unsent e \<Rightarrow> (r, Err e)
      | ReplyLost e \<Rightarrow> (fst (script r), Err e)
      | Delivered \<Rightarrow> script r)"

text \<open>The server's Unix time in microseconds at a \<open>go_time\<close>.\<close>

definition unix_us :: "go_time \<Rightarrow> int" where
  "unix_us t = (t - unix_epoch) div 1000"

definition redis_args :: "RedisTokenBucketRateLimiter \<Rightarrow> Policy \<Rightarrow> Key \<Rightarrow> int \<Rightarrow> script_args" where
  "redis_args l policy key cost =
     (let windowMS = millisecondsRoundedUp (Window policy)
      in \<lparr>arg_capacity = Limit policy, arg_window_ms = windowMS, arg_cost = cost,
          arg_ttl_ms = mul64 windowMS 2, arg_client_id = ClientID key, arg_resource = Resource key,
          arg_max_backlog = maxBacklog l\<rparr>)"

definition Redis_Allow ::
  "'r redis_ops \<Rightarrow> RedisTokenBucketRateLimiter \<Rightarrow> link \<Rightarrow> 'r allow_fun" where
  "Redis_Allow R l net r ctx now key cost =
     (case ctx of
        Some e \<Rightarrow> (r, Err (ErrCtx e))
      | None \<Rightarrow>
        if cost \<le> 0 then (r, Err ErrInvalidCost)
        else case map_of (rtb_policies l) key of
          None \<Rightarrow> (r, Err ErrNoPolicy)
        | Some policy \<Rightarrow>
          if cost > Limit policy then (r, Err ErrCostExceedsLimit)
          else
            let (r', reply) = run_script
                  (redisTokenBucketScript R (unix_us now) (redisKey l key) (eventStream l)
                    (redis_args l policy key cost)) net r
            in case reply of
                 Inl e \<Rightarrow> (r', Err (ErrRedis e))
               | Inr result \<Rightarrow>
                   if length result \<noteq> 5 then (r', Err (ErrResultLength (length result)))
                   else if result ! 4 = 1 then (r', Err ErrEventBacklogFull)
                   else (r', Ok \<lparr>Allowed = (result ! 0 = 1), DLimit = Limit policy, Remaining = result ! 1,
                                 ResetAt = time_UnixMilli (result ! 2), RetryAfterMS = result ! 3\<rparr>))"

section \<open>Independent keys\<close>

fun b64_decode :: "nat list \<Rightarrow> nat list" where
  "b64_decode (i # j # k # m # rest) =
     [i * 4 + j div 16, j mod 16 * 16 + k div 4, k mod 4 * 64 + m] @ b64_decode rest"
| "b64_decode [i, j, k] = [i * 4 + j div 16, j mod 16 * 16 + k div 4]"
| "b64_decode [i, j] = [i * 4 + j div 16]"
| "b64_decode [i] = []"
| "b64_decode [] = []"

lemma pack_unpack: "y < m \<Longrightarrow> (x * m + y) div m = x" "y < m \<Longrightarrow> (x * m + y) mod m = y" for x y m :: nat
  by simp_all

lemma b64_decode_indices: "list_all (\<lambda>a. a < 256) bs \<Longrightarrow> b64_decode (b64_indices bs) = bs"
proof (induction bs rule: b64_indices.induct)
  case (1 a b c rest)
  have "(a mod 4 * 16 + b div 16) div 16 = a mod 4" "(a mod 4 * 16 + b div 16) mod 16 = b div 16"
    "(b mod 16 * 4 + c div 64) div 4 = b mod 16" "(b mod 16 * 4 + c div 64) mod 4 = c div 64"
    using 1(2) by (auto intro!: pack_unpack)
  then show ?case using 1 by simp
next
  case (2 a b)
  have "(a mod 4 * 16 + b div 16) div 16 = a mod 4" "(a mod 4 * 16 + b div 16) mod 16 = b div 16"
    using 2 by (auto intro!: pack_unpack)
  then show ?case by simp
qed simp_all

lemma b64_indices_range: "list_all (\<lambda>a. a < 256) bs \<Longrightarrow> i \<in> set (b64_indices bs) \<Longrightarrow> i < 64"
proof (induction bs rule: b64_indices.induct)
  case (1 a b c rest)
  have "a mod 4 < 4" "b mod 16 < 16" by simp_all
  then show ?case using 1 by auto
next
  case (2 a b)
  have "a mod 4 < 4" "b mod 16 < 16" by simp_all
  then show ?case using 2 by auto
next
  case (3 a)
  have "a mod 4 < 4" by simp
  then show ?case using 3 by auto
qed simp

lemma b64_alphabet_inj: "i < 64 \<Longrightarrow> j < 64 \<Longrightarrow> b64_alphabet ! i = b64_alphabet ! j \<Longrightarrow> i = j"
  using nth_eq_iff_index_eq [of b64_alphabet i j] by (simp add: b64_alphabet_def)

lemma b64_alphabet_colon: "i < 64 \<Longrightarrow> b64_alphabet ! i \<noteq> CHR '':''"
proof -
  assume "i < 64"
  then have "b64_alphabet ! i \<in> set b64_alphabet" by (intro nth_mem) (simp add: b64_alphabet_def)
  then show ?thesis by (auto simp: b64_alphabet_def)
qed

lemma bytes_range: "list_all (\<lambda>a. a < 256) (map of_char s :: nat list)"
  by (simp add: list_all_iff)

lemma base64_inj:
  assumes "base64_EncodeToString s = base64_EncodeToString t"
  shows "s = t"
proof -
  let ?i = "b64_indices (map of_char s)" and ?j = "b64_indices (map of_char t)"
  have "inj_on (\<lambda>i. b64_alphabet ! i) {..<64}" by (auto intro!: inj_onI b64_alphabet_inj)
  moreover have "set ?i \<union> set ?j \<subseteq> {..<64}" using b64_indices_range [OF bytes_range] by auto
  ultimately have "?i = ?j"
    using assms unfolding base64_EncodeToString_def by (meson inj_on_map_eq_map inj_on_subset)
  then have "(map of_char s :: nat list) = map of_char t" by (metis b64_decode_indices bytes_range)
  then show ?thesis by (metis inj_map_eq_map inj_of_char)
qed

lemma base64_no_colon: "CHR '':'' \<notin> set (base64_EncodeToString s)"
  using b64_indices_range [OF bytes_range] b64_alphabet_colon by (force simp: base64_EncodeToString_def)

lemma append_colon_inj:
  assumes "a @ CHR '':'' # b = c @ CHR '':'' # d" "CHR '':'' \<notin> set a" "CHR '':'' \<notin> set c"
  shows "a = c \<and> b = d"
proof -
  have "takeWhile (\<lambda>x. x \<noteq> CHR '':'') (a @ CHR '':'' # b) = a" "takeWhile (\<lambda>x. x \<noteq> CHR '':'') (c @ CHR '':'' # d) = c"
    using assms(2,3) by (auto simp: takeWhile_append)
  then show ?thesis using assms(1) by auto
qed

lemma in_set_neq: "c \<in> set xs \<Longrightarrow> c \<notin> set ys \<Longrightarrow> xs \<noteq> ys"
  by blast

lemma redisKey_eq_iff: "redisKey l k = redisKey l k' \<longleftrightarrow> k = k'"
proof
  assume "redisKey l k = redisKey l k'"
  then have "base64_EncodeToString (ClientID k) = base64_EncodeToString (ClientID k') \<and>
      base64_EncodeToString (Resource k) = base64_EncodeToString (Resource k')"
    using append_colon_inj [OF _ base64_no_colon base64_no_colon] by (simp add: redisKey_def)
  then show "k = k'" using base64_inj by (cases k; cases k') auto
qed simp

text \<open>
  C37. Every client/resource pair has its own bucket: two different keys never share a Redis
  key, whatever bytes the client id and the resource contain, the separator included, and
  with the default prefix and stream no bucket's key is the key of the event stream.
\<close>

theorem redisKey_inj:
  "(redisKey l k = redisKey l k' \<longleftrightarrow> k = k') \<and>
   (keyPrefix l = ''rate_limit'' \<longrightarrow> redisKey l k \<noteq> ''rate_limit:approved_requests'')"
proof -
  have "CHR '':'' \<in> set (base64_EncodeToString (ClientID k) @ '':'' @ base64_EncodeToString (Resource k))" by simp
  moreover have "CHR '':'' \<notin> set ''approved_requests''" by simp
  ultimately have "base64_EncodeToString (ClientID k) @ '':'' @ base64_EncodeToString (Resource k) \<noteq> ''approved_requests''"
    by (rule in_set_neq)
  then show ?thesis using redisKey_eq_iff by (simp add: redisKey_def)
qed

theorem redisKey_inj_witness:
  "redisKey \<lparr>rtb_policies = [], keyPrefix = ''rate_limit'', eventStream = ''rate_limit:approved_requests'', maxBacklog = 2\<rparr>
     \<lparr>ClientID = ''a:b'', Resource = ''c''\<rparr> \<noteq> ''rate_limit:approved_requests''"
  using redisKey_inj [of "\<lparr>rtb_policies = [], keyPrefix = ''rate_limit'', eventStream = ''rate_limit:approved_requests'', maxBacklog = 2\<rparr>"
      "\<lparr>ClientID = ''a:b'', Resource = ''c''\<rparr>"] by simp

section \<open>One run of the script\<close>

definition bucket_view :: "'r redis_ops \<Rightarrow> 'r \<Rightarrow> string \<Rightarrow> rat option \<times> rat option" where
  "bucket_view R r k =
     (Option.bind (r_HGET R r k ''tokens'') lua_tonumber,
      Option.bind (r_HGET R r k ''last_refill_ms'') lua_tonumber)"

lemma script_tokens_view:
  "script_tokens R r k cap w now =
     (case bucket_view R r k of
        (Some b, Some t) \<Rightarrow> top_up cap b (refill (max 0 (fsub now t)) cap w)
      | _ \<Rightarrow> cap)"
  by (simp add: script_tokens_def bucket_view_def Let_def split: option.split)

definition script_ready :: "'r redis_ops \<Rightarrow> 'r \<Rightarrow> string \<Rightarrow> string \<Rightarrow> bool" where
  "script_ready R r bk sk \<longleftrightarrow> bk \<noteq> sk \<and> r_TYPE R r bk \<in> {''none'', ''hash''} \<and>
     r_TYPE R r sk \<in> {''none'', ''stream''}"

context redis_server
begin

text \<open>What a run that changed the bucket leaves behind: the new balance, its time to live.\<close>

lemma store_bucket:
  assumes "script_ready R r bk sk" "0 < ttl"
    and r1: "r1 = r_PEXPIRE R (r_HSET R r bk
      [(''tokens'', lua_tostring b), (''last_refill_ms'', lua_tostring now)]) bk ttl ms"
  shows "r_TYPE R r1 k = (if k = bk then ''hash'' else r_TYPE R r k)"
    and "bucket_view R r1 k = (if k = bk then (Some (rnd (g14 b)), Some (rnd (g14 now))) else bucket_view R r k)"
    and "r_stream R r1 = r_stream R r"
    and "r_expiry R r1 k = (if k = bk then Some (ms + ttl) else r_expiry R r k)"
  using assms
  by (simp_all add: script_ready_def redis_laws bucket_view_def lua_tonumber_tostring)

lemma add_event:
  assumes "script_ready R r bk sk"
  shows "r_TYPE R (r_XADD R r sk e) k = (if k = sk then ''stream'' else r_TYPE R r k)"
    and "bucket_view R (r_XADD R r sk e) = bucket_view R r"
    and "r_stream R (r_XADD R r sk e) k = (if k = sk then r_stream R r sk @ [e] else r_stream R r k)"
    and "r_expiry R (r_XADD R r sk e) = r_expiry R r"
  using assms by (simp_all add: script_ready_def redis_laws bucket_view_def fun_eq_iff)

text \<open>The three outcomes of the script.\<close>

lemma script_full:
  assumes "script_ready R (r_at R r0 (us div 1000)) bk sk"
    and "b0 = script_tokens R (r_at R r0 (us div 1000)) bk (float64 (arg_capacity args))
      (float64 (arg_window_ms args)) (script_now_ms us)"
    and "float64 (arg_cost args) \<le> b0"
    and "float64 (arg_max_backlog args) \<le> float64 (r_XLEN R (r_at R r0 (us div 1000)) sk)"
  shows "\<exists>reset. redisTokenBucketScript R us bk sk args r0 =
    (r_at R r0 (us div 1000), Ok [0, int_of_float (ffloor b0), reset, int_of_float 0, 1])"
  using assms by (auto simp: redisTokenBucketScript_def script_ready_def Let_def)

lemma script_allowed:
  assumes ready: "script_ready R (r_at R r0 (us div 1000)) bk sk" and ttl: "0 < arg_ttl_ms args"
    and b0: "b0 = script_tokens R (r_at R r0 (us div 1000)) bk (float64 (arg_capacity args))
      (float64 (arg_window_ms args)) (script_now_ms us)"
    and enough: "float64 (arg_cost args) \<le> b0"
    and room: "\<not> float64 (arg_max_backlog args) \<le> float64 (r_XLEN R (r_at R r0 (us div 1000)) sk)"
  shows "\<exists>r2 reset. redisTokenBucketScript R us bk sk args r0 =
      (r2, Ok [1, int_of_float (ffloor (fsub b0 (float64 (arg_cost args)))), reset, int_of_float 0, 0]) \<and>
    (\<forall>k. r_TYPE R r2 k = (if k = bk then ''hash'' else if k = sk then ''stream''
       else r_TYPE R (r_at R r0 (us div 1000)) k)) \<and>
    (\<forall>k. bucket_view R r2 k = (if k = bk
       then (Some (rnd (g14 (fsub b0 (float64 (arg_cost args))))), Some (rnd (g14 (script_now_ms us))))
       else bucket_view R (r_at R r0 (us div 1000)) k)) \<and>
    (\<forall>k. r_expiry R r2 k = (if k = bk then Some (us div 1000 + arg_ttl_ms args)
       else r_expiry R (r_at R r0 (us div 1000)) k)) \<and>
    (\<forall>k. r_stream R r2 k = (if k = sk
       then r_stream R (r_at R r0 (us div 1000)) sk @ [approval_event args (float64 (arg_cost args))
         (script_now_ms us) (ffloor (fsub b0 (float64 (arg_cost args))))]
       else r_stream R (r_at R r0 (us div 1000)) k))"
proof -
  let ?r = "r_at R r0 (us div 1000)" and ?b = "fsub b0 (float64 (arg_cost args))"
  define r1 where "r1 = r_PEXPIRE R (r_HSET R ?r bk
    [(''tokens'', lua_tostring ?b), (''last_refill_ms'', lua_tostring (script_now_ms us))])
    bk (arg_ttl_ms args) (us div 1000)"
  define r2 where "r2 = r_XADD R r1 sk (approval_event args (float64 (arg_cost args)) (script_now_ms us) (ffloor ?b))"
  note st = store_bucket [OF ready ttl r1_def]
  have ready1: "script_ready R r1 bk sk" using ready st(1) by (auto simp: script_ready_def)
  note ev = add_event [OF ready1, of "approval_event args (float64 (arg_cost args)) (script_now_ms us) (ffloor ?b)",
      folded r2_def]
  have "\<exists>reset. redisTokenBucketScript R us bk sk args r0 = (r2, Ok [1, int_of_float (ffloor ?b), reset, int_of_float 0, 0])"
    using ready enough room by (simp add: redisTokenBucketScript_def script_ready_def Let_def r1_def r2_def flip: b0)
  then show ?thesis using ready by (auto simp: ev st script_ready_def)
qed

lemma script_denied:
  assumes ready: "script_ready R (r_at R r0 (us div 1000)) bk sk" and ttl: "0 < arg_ttl_ms args"
    and b0: "b0 = script_tokens R (r_at R r0 (us div 1000)) bk (float64 (arg_capacity args))
      (float64 (arg_window_ms args)) (script_now_ms us)"
    and short: "b0 < float64 (arg_cost args)"
  shows "\<exists>r2 reset. redisTokenBucketScript R us bk sk args r0 =
      (r2, Ok [0, int_of_float (ffloor b0), reset, int_of_float (max 1 (fceil (fdiv (fmul
         (fsub (float64 (arg_cost args)) b0) (float64 (arg_window_ms args))) (float64 (arg_capacity args))))), 0]) \<and>
    (\<forall>k. r_TYPE R r2 k = (if k = bk then ''hash'' else r_TYPE R (r_at R r0 (us div 1000)) k)) \<and>
    (\<forall>k. bucket_view R r2 k = (if k = bk then (Some (rnd (g14 b0)), Some (rnd (g14 (script_now_ms us))))
       else bucket_view R (r_at R r0 (us div 1000)) k)) \<and>
    (\<forall>k. r_expiry R r2 k = (if k = bk then Some (us div 1000 + arg_ttl_ms args)
       else r_expiry R (r_at R r0 (us div 1000)) k)) \<and>
    r_stream R r2 = r_stream R (r_at R r0 (us div 1000))"
proof -
  let ?r = "r_at R r0 (us div 1000)"
  define r1 where "r1 = r_PEXPIRE R (r_HSET R ?r bk
    [(''tokens'', lua_tostring b0), (''last_refill_ms'', lua_tostring (script_now_ms us))])
    bk (arg_ttl_ms args) (us div 1000)"
  note st = store_bucket [OF ready ttl r1_def]
  have "\<exists>reset. redisTokenBucketScript R us bk sk args r0 =
      (r1, Ok [0, int_of_float (ffloor b0), reset, int_of_float (max 1 (fceil (fdiv (fmul
         (fsub (float64 (arg_cost args)) b0) (float64 (arg_window_ms args))) (float64 (arg_capacity args))))), 0])"
    using ready short by (simp add: redisTokenBucketScript_def script_ready_def Let_def r1_def flip: b0)
  then show ?thesis by (auto simp: st)
qed

end

section \<open>The limiter contract\<close>

text \<open>
  The configuration: validated policies whose limits have at most 14 digits, and a stream
  whose key is no bucket's. The state: keys of the right types, balances between 0 and the
  limit, a stream that does not expire and is no longer than the maximum backlog.
\<close>

definition rtb_ok :: "RedisTokenBucketRateLimiter \<Rightarrow> bool" where
  "rtb_ok l \<longleftrightarrow> policies_ok (rtb_policies l) \<and> (\<forall>(k, p) \<in> set (rtb_policies l). Limit p < 10 ^ 14) \<and>
     0 \<le> maxBacklog l \<and> (\<forall>(k, p) \<in> set (rtb_policies l). redisKey l k \<noteq> eventStream l)"

definition rtb_pol :: "RedisTokenBucketRateLimiter \<Rightarrow> Key \<Rightarrow> Policy option" where
  "rtb_pol l = map_of (rtb_policies l)"

definition balance_ok :: "Policy \<Rightarrow> rat \<Rightarrow> bool" where
  "balance_ok p b \<longleftrightarrow> is_float b \<and> 0 \<le> b \<and> b \<le> of_int (Limit p)"

definition redis_ok :: "'r redis_ops \<Rightarrow> RedisTokenBucketRateLimiter \<Rightarrow> 'r \<Rightarrow> bool" where
  "redis_ok R l r \<longleftrightarrow>
     r_TYPE R r (eventStream l) \<in> {''none'', ''stream''} \<and> r_expiry R r (eventStream l) = None \<and>
     int (length (r_stream R r (eventStream l))) \<le> maxBacklog l \<and>
     (\<forall>k p. rtb_pol l k = Some p \<longrightarrow> r_TYPE R r (redisKey l k) \<in> {''none'', ''hash''} \<and>
       (\<forall>b t. bucket_view R r (redisKey l k) = (Some b, Some t) \<longrightarrow> balance_ok p b))"

lemma rtb_ok_policy:
  assumes "rtb_ok l" "rtb_pol l k = Some p"
  shows "policy_ok p" and "Limit p < 10 ^ 14" and "float64 (Limit p) = of_int (Limit p)"
    and "is_float (of_int (Limit p))" and "redisKey l k \<noteq> eventStream l"
proof -
  have kp: "(k, p) \<in> set (rtb_policies l)" using assms(2) by (auto simp: rtb_pol_def dest: map_of_SomeD)
  show p: "policy_ok p" using assms by (auto simp: rtb_ok_def rtb_pol_def dest: policies_ok_lookup)
  show l: "Limit p < 10 ^ 14" "redisKey l k \<noteq> eventStream l" using assms(1) kp by (auto simp: rtb_ok_def)
  have "\<bar>Limit p\<bar> \<le> 2 ^ 53" using p l by (simp add: policy_ok_def)
  then show f: "float64 (Limit p) = of_int (Limit p)" by (rule float64_exact)
  show "is_float (of_int (Limit p))" using is_float_ops(5) [of "Limit p"] by (simp add: f)
qed

lemma windowMS_bounds:
  assumes "policy_ok p"
  shows "1 \<le> millisecondsRoundedUp (Window p)" and "millisecondsRoundedUp (Window p) \<le> 2 ^ 44"
proof -
  have W: "1 \<le> Window p" "Window p \<le> 2 ^ 63"
    using assms by (auto simp: policy_ok_def in64_def max_int64_def)
  have M: "float64 Millisecond = 1000000"
    using float64_exact [of Millisecond] by (simp add: Millisecond_def)
  let ?x = "float64 (Window p) / 1000000"
  have x: "1 / 1000000 \<le> ?x" "?x \<le> 2 ^ 44"
    using float64_bounds(3) [OF W(1)] float64_le_pow2 [OF W(2)] by simp_all
  have "min_normal \<le> 1 / 1000000" by (rule normal_ge) simp
  then have "(1 - eps64) * ?x \<le> rnd ?x" using x(1) by (intro f64.r_lower) simp
  moreover have "0 < (1 - eps64) * ?x" using x(1) by (simp add: eps64_def)
  ultimately have lo: "0 < rnd ?x" by linarith
  have "rnd ?x \<le> rnd (of_int (2 ^ 44))" using x(2) by (intro rnd_mono) simp
  also have "\<dots> = of_int (2 ^ 44)" by (rule rnd_of_int) simp
  finally have hi: "rnd ?x \<le> of_int (2 ^ 44)" .
  have "millisecondsRoundedUp (Window p) = \<lceil>rnd ?x\<rceil>"
    using lo by (simp add: millisecondsRoundedUp_def fdiv_def M int_of_float_ceil)
  moreover have "1 \<le> \<lceil>rnd ?x\<rceil>" using lo by linarith
  moreover have "\<lceil>rnd ?x\<rceil> \<le> 2 ^ 44" using hi by (simp only: ceiling_le_iff)
  ultimately show "1 \<le> millisecondsRoundedUp (Window p)" "millisecondsRoundedUp (Window p) \<le> 2 ^ 44" by simp_all
qed

lemma redis_args_simps:
  assumes "policy_ok p"
  shows "arg_ttl_ms (redis_args l p k n) = 2 * millisecondsRoundedUp (Window p)"
    and "0 < arg_ttl_ms (redis_args l p k n)"
  using windowMS_bounds [OF assms]
  by (simp_all add: redis_args_def Let_def mul64_id in64_def min_int64_def max_int64_def)

lemma stored_balance:
  assumes "balance_ok p b" "Limit p < 10 ^ 14" "is_float (of_int (Limit p))"
  shows "balance_ok p (rnd (g14 b))"
  using assms g14_le_int [of b "Limit p"] rnd_mono [of "g14 b" "of_int (Limit p)"]
  by (auto simp: balance_ok_def is_float_def rnd_nonneg)

lemma script_tokens_ok:
  assumes "policy_ok p" "is_float (of_int (Limit p))" "0 \<le> w"
    and "\<And>b t. bucket_view R r k = (Some b, Some t) \<Longrightarrow> balance_ok p b"
  shows "balance_ok p (script_tokens R r k (of_int (Limit p)) (float64 w) now)"
proof -
  have "0 \<le> refill (max 0 x) (of_int (Limit p)) (float64 w)" for x
    using assms(1,3) by (intro refill_nonneg float64_nonneg) (auto simp: policy_ok_def)
  then have "balance_ok p (top_up (of_int (Limit p)) b (refill (max 0 x) (of_int (Limit p)) (float64 w)))"
    if "balance_ok p b" for b x
    using that assms(1,2) top_up_range [of b _ "of_int (Limit p)"] by (auto simp: balance_ok_def policy_ok_def)
  moreover have "balance_ok p (of_int (Limit p))" using assms(1,2) by (simp add: balance_ok_def policy_ok_def)
  ultimately show ?thesis
    using assms(4) by (auto simp: script_tokens_view split: option.split prod.split)
qed

lemma float_eq_floor: "0 \<le> b \<Longrightarrow> int_of_float (ffloor b) = \<lfloor>b\<rfloor>"
  by (simp add: int_of_float_def ffloor_def)

locale redis_limiter = redis_server R
  for R :: "'r redis_ops" +
  fixes l :: RedisTokenBucketRateLimiter
  assumes l_ok: "rtb_ok l"
begin

lemma redis_ok_at:
  assumes "redis_ok R l r"
  shows "redis_ok R l (r_at R r t)"
  using assms by (auto simp: redis_ok_def redis_laws expired_def bucket_view_def)

lemma ready:
  assumes "redis_ok R l r" "rtb_pol l k = Some p"
  shows "script_ready R (r_at R r t) (redisKey l k) (eventStream l)"
  using redis_ok_at [OF assms(1), of t] assms(2) rtb_ok_policy(5) [OF l_ok assms(2)]
  by (auto simp: redis_ok_def script_ready_def)

text \<open>The balance a call for key \<open>k\<close> at time \<open>t\<close> finds.\<close>

definition found :: "'r \<Rightarrow> Policy \<Rightarrow> Key \<Rightarrow> go_time \<Rightarrow> rat" where
  "found r p k t = script_tokens R (r_at R r (unix_us t div 1000)) (redisKey l k) (of_int (Limit p))
     (float64 (millisecondsRoundedUp (Window p))) (script_now_ms (unix_us t))"

lemma found_ok:
  assumes "redis_ok R l r" "rtb_pol l k = Some p"
  shows "balance_ok p (found r p k t)"
  unfolding found_def
  using redis_ok_at [OF assms(1), of "unix_us t div 1000"] assms(2) rtb_ok_policy [OF l_ok assms(2)]
    windowMS_bounds [OF rtb_ok_policy(1) [OF l_ok assms(2)]]
  by (intro script_tokens_ok) (auto simp: redis_ok_def)

lemma cost_exact:
  assumes "rtb_pol l k = Some p" "0 < n" "n \<le> Limit p"
  shows "float64 n = of_int n"
  using assms rtb_ok_policy(2) [OF l_ok assms(1)] by (intro float64_exact) simp

text \<open>The outcomes of the script for a request that reaches it.\<close>

definition script :: "Policy \<Rightarrow> Key \<Rightarrow> int \<Rightarrow> go_time \<Rightarrow> 'r \<Rightarrow> 'r \<times> (string, int list) result" where
  "script p k n t = redisTokenBucketScript R (unix_us t) (redisKey l k) (eventStream l) (redis_args l p k n)"

definition full :: "'r \<Rightarrow> bool" where
  "full r \<longleftrightarrow> float64 (maxBacklog l) \<le> float64 (int (length (r_stream R r (eventStream l))))"

definition event :: "Policy \<Rightarrow> Key \<Rightarrow> int \<Rightarrow> go_time \<Rightarrow> rat \<Rightarrow> stream_entry" where
  "event p k n t b = approval_event (redis_args l p k n) (of_int n) (script_now_ms (unix_us t)) (ffloor b)"

lemma stream_at: "redis_ok R l r \<Longrightarrow> r_stream R (r_at R r t) (eventStream l) = r_stream R r (eventStream l)"
  by (simp add: redis_laws expired_def redis_ok_def)

text \<open>
  The bucket of \<open>k\<close> holds the balance \<open>b\<close>, printed at time \<open>t\<close>; the other buckets are as
  they were at that time.
\<close>

definition stored :: "'r \<Rightarrow> 'r \<Rightarrow> Policy \<Rightarrow> Key \<Rightarrow> go_time \<Rightarrow> rat \<Rightarrow> bool" where
  "stored r r2 p k t b \<longleftrightarrow> (\<forall>k'.
     bucket_view R r2 (redisKey l k') =
       (if k' = k then (Some (rnd (g14 b)), Some (rnd (g14 (script_now_ms (unix_us t)))))
        else bucket_view R (r_at R r (unix_us t div 1000)) (redisKey l k')) \<and>
     r_expiry R r2 (redisKey l k') =
       (if k' = k then Some (unix_us t div 1000 + 2 * millisecondsRoundedUp (Window p))
        else r_expiry R (r_at R r (unix_us t div 1000)) (redisKey l k')))"

lemma stored_ok:
  assumes ok: "redis_ok R l r" and p: "rtb_pol l k = Some p" and st: "stored r r2 p k t b" "balance_ok p b"
    and ty: "\<forall>k'. r_TYPE R r2 k' = (if k' = redisKey l k then ''hash'' else if k' = eventStream l then ty
      else r_TYPE R (r_at R r (unix_us t div 1000)) k')" "ty \<in> {''none'', ''stream''}"
    and ex: "r_expiry R r2 (eventStream l) = None"
    and sl: "int (length (r_stream R r2 (eventStream l))) \<le> maxBacklog l"
  shows "redis_ok R l r2"
proof -
  note ok' = redis_ok_at [OF ok, of "unix_us t div 1000"]
  have "r_TYPE R r2 (redisKey l k') \<in> {''none'', ''hash''}" if "rtb_pol l k' = Some p'" for k' p'
    using ty ok' that rtb_ok_policy(5) [OF l_ok that] by (auto simp: redis_ok_def)
  moreover have "balance_ok p' b'"
    if "rtb_pol l k' = Some p'" "bucket_view R r2 (redisKey l k') = (Some b', Some t')" for k' p' b' t'
    using that st ok' p stored_balance [OF st(2)] rtb_ok_policy [OF l_ok p]
    by (auto simp: stored_def redis_ok_def split: if_splits)
  moreover have "r_TYPE R r2 (eventStream l) \<in> {''none'', ''stream''}"
    using ty rtb_ok_policy(5) [OF l_ok p] by auto
  ultimately show ?thesis using ex sl by (simp add: redis_ok_def)
qed

lemma script_args:
  assumes "rtb_pol l k = Some p" "0 < n" "n \<le> Limit p"
  shows "float64 (arg_cost (redis_args l p k n)) = of_int n"
    and "float64 (arg_capacity (redis_args l p k n)) = of_int (Limit p)"
    and "arg_window_ms (redis_args l p k n) = millisecondsRoundedUp (Window p)"
    and "arg_max_backlog (redis_args l p k n) = maxBacklog l"
  using cost_exact [OF assms] rtb_ok_policy(3) [OF l_ok assms(1)] by (simp_all add: redis_args_def Let_def)

lemma found_args:
  assumes "rtb_pol l k = Some p" "0 < n" "n \<le> Limit p"
  shows "found r p k t = script_tokens R (r_at R r (unix_us t div 1000)) (redisKey l k)
    (float64 (arg_capacity (redis_args l p k n))) (float64 (arg_window_ms (redis_args l p k n))) (script_now_ms (unix_us t))"
  using script_args [OF assms] by (simp add: found_def)

lemma int_of_float_0 [simp]: "int_of_float 0 = 0"
  by (simp add: int_of_float_def)

lemma full_iff:
  assumes "redis_ok R l r"
  shows "float64 (arg_max_backlog (redis_args l p k n)) \<le> float64 (r_XLEN R (r_at R r t) (eventStream l)) \<longleftrightarrow> full r"
  using stream_at [OF assms] by (simp add: redis_args_def Let_def full_def XLEN)

lemma script_backlog_full:
  assumes ok: "redis_ok R l r" and p: "rtb_pol l k = Some p" and n: "0 < n" "n \<le> Limit p"
    and "of_int n \<le> found r p k t" "full r"
  shows "\<exists>reset. script p k n t r = (r_at R r (unix_us t div 1000), Ok [0, \<lfloor>found r p k t\<rfloor>, reset, 0, 1])"
proof -
  have "int_of_float (ffloor (found r p k t)) = \<lfloor>found r p k t\<rfloor>"
    using found_ok [OF ok p, of t] by (simp add: balance_ok_def float_eq_floor)
  then show ?thesis
    using script_full [OF ready [OF ok p] found_args [OF p n, where t = t]] assms(5,6)
    by (simp add: script_args(1) [OF p n] full_iff [OF ok] script_def)
qed

lemma script_approves:
  assumes ok: "redis_ok R l r" and p: "rtb_pol l k = Some p" and n: "0 < n" "n \<le> Limit p"
    and enough: "of_int n \<le> found r p k t" and room: "\<not> full r"
  shows "\<exists>r2 reset. script p k n t r = (r2, Ok [1, \<lfloor>fsub (found r p k t) (of_int n)\<rfloor>, reset, 0, 0]) \<and>
    redis_ok R l r2 \<and> stored r r2 p k t (fsub (found r p k t) (of_int n)) \<and>
    r_stream R r2 (eventStream l) = r_stream R r (eventStream l) @ [event p k n t (fsub (found r p k t) (of_int n))]"
proof -
  let ?b = "fsub (found r p k t) (of_int n)" and ?r = "r_at R r (unix_us t div 1000)"
  note pol = rtb_ok_policy [OF l_ok p]
  have b: "balance_ok p ?b"
    using found_ok [OF ok p, of t] n enough spend_range [of "found r p k t" "of_int n"] by (auto simp: balance_ok_def)
  then have fl: "int_of_float (ffloor ?b) = \<lfloor>?b\<rfloor>" by (simp add: balance_ok_def float_eq_floor)
  obtain r2 reset where
    run: "script p k n t r = (r2, Ok [1, \<lfloor>?b\<rfloor>, reset, 0, 0])"
    and ty: "\<forall>k'. r_TYPE R r2 k' = (if k' = redisKey l k then ''hash'' else if k' = eventStream l then ''stream''
       else r_TYPE R ?r k')"
    and vw: "\<forall>k'. bucket_view R r2 k' = (if k' = redisKey l k
       then (Some (rnd (g14 ?b)), Some (rnd (g14 (script_now_ms (unix_us t))))) else bucket_view R ?r k')"
    and ex: "\<forall>k'. r_expiry R r2 k' = (if k' = redisKey l k
       then Some (unix_us t div 1000 + 2 * millisecondsRoundedUp (Window p)) else r_expiry R ?r k')"
    and es: "\<forall>k'. r_stream R r2 k' = (if k' = eventStream l
       then r_stream R ?r (eventStream l) @ [event p k n t ?b] else r_stream R ?r k')"
    using script_allowed [OF ready [OF ok p] redis_args_simps(2) [OF pol(1)] found_args [OF p n, where t = t]]
      enough room
    unfolding script_args(1) [OF p n] full_iff [OF ok] redis_args_simps(1) [OF pol(1)] fl int_of_float_0
      script_def event_def by blast
  have st: "stored r r2 p k t ?b" using vw ex redisKey_eq_iff by (simp add: stored_def)
  have ex': "r_expiry R r2 (eventStream l) = None"
    using ex pol(5) redis_ok_at [OF ok] by (simp add: redis_ok_def)
  have len: "int (length (r_stream R r2 (eventStream l))) \<le> maxBacklog l"
    using room es float64_mono [of "maxBacklog l" "int (length (r_stream R r (eventStream l)))"] stream_at [OF ok]
    by (force simp: full_def)
  show ?thesis using run st stored_ok [OF ok p st b ty _ ex' len] es stream_at [OF ok] by auto
qed

lemma script_denies:
  assumes ok: "redis_ok R l r" and p: "rtb_pol l k = Some p" and n: "0 < n" "n \<le> Limit p"
    and short: "found r p k t < of_int n"
  shows "\<exists>r2 reset retry. script p k n t r = (r2, Ok [0, \<lfloor>found r p k t\<rfloor>, reset, retry, 0]) \<and> 1 \<le> retry \<and>
    redis_ok R l r2 \<and> stored r r2 p k t (found r p k t) \<and>
    r_stream R r2 (eventStream l) = r_stream R r (eventStream l)"
proof -
  let ?b = "found r p k t" and ?r = "r_at R r (unix_us t div 1000)"
  note pol = rtb_ok_policy [OF l_ok p]
  have b: "balance_ok p ?b" using found_ok [OF ok p] .
  then have fl: "int_of_float (ffloor ?b) = \<lfloor>?b\<rfloor>" by (simp add: balance_ok_def float_eq_floor)
  have re: "1 \<le> int_of_float (max 1 (fceil x))" for x
    by (simp add: int_of_float_def fceil_def max_def)
  obtain r2 reset retry where
    run: "script p k n t r = (r2, Ok [0, \<lfloor>?b\<rfloor>, reset, retry, 0])" "1 \<le> retry"
    and ty: "\<forall>k'. r_TYPE R r2 k' = (if k' = redisKey l k then ''hash'' else r_TYPE R ?r k')"
    and vw: "\<forall>k'. bucket_view R r2 k' = (if k' = redisKey l k
       then (Some (rnd (g14 ?b)), Some (rnd (g14 (script_now_ms (unix_us t))))) else bucket_view R ?r k')"
    and ex: "\<forall>k'. r_expiry R r2 k' = (if k' = redisKey l k
       then Some (unix_us t div 1000 + 2 * millisecondsRoundedUp (Window p)) else r_expiry R ?r k')"
    and es: "r_stream R r2 = r_stream R ?r"
    using script_denied [OF ready [OF ok p] redis_args_simps(2) [OF pol(1)] found_args [OF p n, where t = t]]
      short re
    unfolding script_args(1) [OF p n] redis_args_simps(1) [OF pol(1)] fl script_def by blast
  have st: "stored r r2 p k t ?b" using vw ex redisKey_eq_iff by (simp add: stored_def)
  have ex': "r_expiry R r2 (eventStream l) = None"
    using ex pol(5) redis_ok_at [OF ok] by (simp add: redis_ok_def)
  have len: "int (length (r_stream R r2 (eventStream l))) \<le> maxBacklog l"
    using es stream_at [OF ok] ok by (simp add: redis_ok_def)
  have ty': "\<forall>k'. r_TYPE R r2 k' = (if k' = redisKey l k then ''hash'' else if k' = eventStream l
      then r_TYPE R ?r (eventStream l) else r_TYPE R ?r k')"
    using ty by simp
  have "r_TYPE R ?r (eventStream l) \<in> {''none'', ''stream''}" using redis_ok_at [OF ok] by (simp add: redis_ok_def)
  then show ?thesis using run st stored_ok [OF ok p st b ty' _ ex' len] es stream_at [OF ok] by auto
qed

end

end
