(* ===== verification/RedisLimiter.thy ===== *)
theory RedisLimiter
  imports RedisTokenBucket
begin

text \<open>
  Properties of the shared token bucket: it satisfies the limiter contract on every server
  that behaves as \<open>redis_server\<close> says, appends one event per approval and no other, keeps
  the stream within the maximum backlog, and keeps the quota while the server's clock does
  not go back. \<open>run_redis\<close> serves requests each with what the connection does to it.
\<close>

section \<open>One call\<close>

fun decision_of :: "Policy \<Rightarrow> int list \<Rightarrow> Decision" where
  "decision_of p result = \<lparr>Allowed = (result ! 0 = 1), DLimit = Limit p, Remaining = result ! 1,
     ResetAt = time_UnixMilli (result ! 2), RetryAfterMS = result ! 3\<rparr>"

context redis_limiter
begin

lemma Allow_script:
  assumes "rtb_pol l k = Some p" "0 < n" "n \<le> Limit p"
  shows "Redis_Allow R l (Unsent e) r None t k n = (r, Err (ErrRedis e))"
    and "Redis_Allow R l (ReplyLost e) r None t k n = (fst (script p k n t r), Err (ErrRedis e))"
    and "script p k n t r = (r2, Ok [a, b, c, d, 0]) \<Longrightarrow>
      Redis_Allow R l Delivered r None t k n = (r2, Ok (decision_of p [a, b, c, d, 0]))"
    and "script p k n t r = (r2, Ok [a, b, c, d, 1]) \<Longrightarrow>
      Redis_Allow R l Delivered r None t k n = (r2, Err ErrEventBacklogFull)"
  using assms by (simp_all add: Redis_Allow_def rtb_pol_def run_script_def script_def Let_def)

lemma Allow_refused:
  assumes "c \<noteq> None \<or> n \<le> 0 \<or> rtb_pol l k = None \<or> (\<exists>p. rtb_pol l k = Some p \<and> Limit p < n)"
  shows "\<exists>e. Redis_Allow R l net r c t k n = (r, Err e)"
  using assms by (cases c) (auto simp: Redis_Allow_def rtb_pol_def split: option.split)

text \<open>What one script run does, whatever becomes of its reply.\<close>

definition spent :: "'r \<Rightarrow> Policy \<Rightarrow> Key \<Rightarrow> int \<Rightarrow> go_time \<Rightarrow> rat" where
  "spent r p k n t = (if of_int n \<le> found r p k t then fsub (found r p k t) (of_int n) else found r p k t)"

lemma script_effect:
  assumes ok: "redis_ok R l r" and p: "rtb_pol l k = Some p" and n: "0 < n" "n \<le> Limit p"
    and r2: "r2 = fst (script p k n t r)"
  shows "redis_ok R l r2"
    and "of_int n \<le> found r p k t \<and> full r \<Longrightarrow> r2 = r_at R r (unix_us t div 1000)"
    and "\<not> (of_int n \<le> found r p k t \<and> full r) \<Longrightarrow> stored r r2 p k t (spent r p k n t)"
    and "r_stream R r2 (eventStream l) = r_stream R r (eventStream l) @
      (if of_int n \<le> found r p k t \<and> \<not> full r then [event p k n t (spent r p k n t)] else [])"
proof -
  consider "of_int n \<le> found r p k t" "full r" | "of_int n \<le> found r p k t" "\<not> full r"
    | "found r p k t < of_int n" by linarith
  then have "redis_ok R l r2 \<and>
    (of_int n \<le> found r p k t \<and> full r \<longrightarrow> r2 = r_at R r (unix_us t div 1000)) \<and>
    (\<not> (of_int n \<le> found r p k t \<and> full r) \<longrightarrow> stored r r2 p k t (spent r p k n t)) \<and>
    r_stream R r2 (eventStream l) = r_stream R r (eventStream l) @
      (if of_int n \<le> found r p k t \<and> \<not> full r then [event p k n t (spent r p k n t)] else [])"
  proof cases
    case 1
    then show ?thesis
      using script_backlog_full [OF ok p n 1] redis_ok_at [OF ok] stream_at [OF ok] by (auto simp: r2)
  next
    case 2
    then show ?thesis using script_approves [OF ok p n 2] by (auto simp: r2 spent_def)
  next
    case 3
    then show ?thesis using script_denies [OF ok p n 3] by (auto simp: r2 spent_def)
  qed
  then show "redis_ok R l r2" and "of_int n \<le> found r p k t \<and> full r \<Longrightarrow> r2 = r_at R r (unix_us t div 1000)"
    and "\<not> (of_int n \<le> found r p k t \<and> full r) \<Longrightarrow> stored r r2 p k t (spent r p k n t)"
    and "r_stream R r2 (eventStream l) = r_stream R r (eventStream l) @
      (if of_int n \<le> found r p k t \<and> \<not> full r then [event p k n t (spent r p k n t)] else [])" by auto
qed

lemma Allow_state:
  assumes "rtb_pol l k = Some p" "0 < n" "n \<le> Limit p"
  shows "fst (Redis_Allow R l net r None t k n) = (case net of Unsent e \<Rightarrow> r | _ \<Rightarrow> fst (script p k n t r))"
  using assms
  by (auto simp: Redis_Allow_def rtb_pol_def run_script_def script_def Let_def split_def
      split: link.splits sum.splits)

text \<open>The results of a delivered call.\<close>

lemma Allow_delivered:
  assumes ok: "redis_ok R l r" and p: "rtb_pol l k = Some p" and n: "0 < n" "n \<le> Limit p"
    and a: "Redis_Allow R l Delivered r None t k n = (r', res)"
  shows "of_int n \<le> found r p k t \<and> full r \<Longrightarrow> res = Err ErrEventBacklogFull"
    and "of_int n \<le> found r p k t \<and> \<not> full r \<Longrightarrow>
      \<exists>reset. res = Ok (decision_of p [1, \<lfloor>fsub (found r p k t) (of_int n)\<rfloor>, reset, 0, 0])"
    and "found r p k t < of_int n \<Longrightarrow>
      \<exists>reset retry. 1 \<le> retry \<and> res = Ok (decision_of p [0, \<lfloor>found r p k t\<rfloor>, reset, retry, 0])"
proof -
  note eq = Allow_script(3,4) [OF p n]
  show "of_int n \<le> found r p k t \<and> full r \<Longrightarrow> res = Err ErrEventBacklogFull"
    using script_backlog_full [OF ok p n] eq(2) a by fastforce
  show "of_int n \<le> found r p k t \<and> \<not> full r \<Longrightarrow>
      \<exists>reset. res = Ok (decision_of p [1, \<lfloor>fsub (found r p k t) (of_int n)\<rfloor>, reset, 0, 0])"
    using script_approves [OF ok p n] eq(1) a by fastforce
  show "found r p k t < of_int n \<Longrightarrow>
      \<exists>reset retry. 1 \<le> retry \<and> res = Ok (decision_of p [0, \<lfloor>found r p k t\<rfloor>, reset, retry, 0])"
    using script_denies [OF ok p n] eq(1) a by fastforce
qed

lemma Allow_ok:
  assumes ok: "redis_ok R l r"
  shows "redis_ok R l (fst (Redis_Allow R l net r c t k n))"
proof (cases "c = None \<and> 0 < n \<and> (\<exists>p. rtb_pol l k = Some p \<and> n \<le> Limit p)")
  case True
  then obtain p where p: "rtb_pol l k = Some p" and n: "0 < n" "n \<le> Limit p" by auto
  show ?thesis
    using script_effect(1) [OF ok p n refl] ok True Allow_state [OF p n, of net r t] by (auto split: link.splits)
next
  case False
  then have "\<exists>e. Redis_Allow R l net r c t k n = (r, Err e)"
    by (intro Allow_refused) (cases "rtb_pol l k"; auto)
  then show ?thesis using ok by auto
qed

lemma Allow_result_Ok:
  assumes "snd (Redis_Allow R l net r c t k n) = Ok d"
  shows "c = None \<and> 0 < n \<and> net = Delivered \<and> (\<exists>p. rtb_pol l k = Some p \<and> n \<le> Limit p)"
  using assms
  by (auto simp: Redis_Allow_def rtb_pol_def run_script_def not_le [symmetric] Let_def
      split: option.splits if_splits link.splits)

end

sublocale redis_limiter \<subseteq> rtb: limiter "Redis_Allow R l net" "redis_ok R l" "\<lambda>_. rtb_pol l" for net
proof
  fix r c t k n
  show "redis_ok R l r \<Longrightarrow> redis_ok R l (fst (Redis_Allow R l net r c t k n))" by (rule Allow_ok)
  show "rtb_pol l k \<noteq> None" if "snd (Redis_Allow R l net r c t k n) = Ok d" for d
    using Allow_result_Ok [OF that] by auto
  fix p d
  assume ok: "redis_ok R l r" and p: "rtb_pol l k = Some p" and d: "snd (Redis_Allow R l net r c t k n) = Ok d"
  have c: "c = None" "net = Delivered" and n: "0 < n" "n \<le> Limit p" using Allow_result_Ok [OF d] p by auto
  obtain r' where a: "Redis_Allow R l Delivered r None t k n = (r', Ok d)"
    using d unfolding c by (metis prod.collapse)
  have f: "balance_ok p (found r p k t)" using found_ok [OF ok p] .
  have "\<lfloor>found r p k t\<rfloor> \<le> Limit p" using f by (simp add: balance_ok_def floor_le_iff)
  moreover have "\<lfloor>fsub (found r p k t) (of_int n)\<rfloor> \<le> Limit p" "0 \<le> fsub (found r p k t) (of_int n)"
    if "of_int n \<le> found r p k t"
    using that f n spend_range [of "found r p k t" "of_int n"] by (auto simp: balance_ok_def floor_le_iff)
  moreover have "0 \<le> found r p k t" using f by (simp add: balance_ok_def)
  ultimately show "decision_ok p n d"
    using Allow_delivered [OF ok p n a]
    by (cases "of_int n \<le> found r p k t"; cases "full r")
      (auto simp: decision_ok_def floor_less_iff)
qed (auto simp: Redis_Allow_def rtb_pol_def)

section \<open>A server in memory\<close>

definition ex_rtb :: RedisTokenBucketRateLimiter where
  "ex_rtb = \<lparr>rtb_policies = ex_policies 10 (60 * 10 ^ 9), keyPrefix = ''rate_limit'',
     eventStream = ''rate_limit:approved_requests'', maxBacklog = 2\<rparr>"

definition ex_redis :: mem_redis where
  "ex_redis = \<lparr>mem_values = Map.empty, mem_expiries = Map.empty\<rparr>"

lemma ex_rtb_ok: "rtb_ok ex_rtb"
proof -
  have "redisKey ex_rtb ex_key \<noteq> eventStream ex_rtb"
    by (simp add: redisKey_def ex_rtb_def ex_key_def base64_EncodeToString_def b64_alphabet_def)
  then show ?thesis
    by (simp add: rtb_ok_def ex_rtb_def ex_policies_def policies_ok_def policy_ok_def in64_def min_int64_def max_int64_def)
qed

lemma ex_redis_ok: "redis_ok mem_ops ex_rtb ex_redis"
  by (simp add: redis_ok_def mem_defs ex_redis_def ex_rtb_def bucket_view_def)

interpretation mem_rtb: redis_limiter mem_ops ex_rtb
  by unfold_locales (rule ex_rtb_ok)

lemma redis_limiterI: "redis_server R \<Longrightarrow> rtb_ok l \<Longrightarrow> redis_limiter R l"
  by (simp add: redis_limiter_def redis_limiter_axioms_def)

section \<open>Events\<close>

lemma floor_micros:
  assumes u: "0 \<le> u" "u < 1000000"
  shows "\<lfloor>rnd (of_int u / 1000)\<rfloor> = u div 1000"
proof (rule floor_unique)
  have v: "0 \<le> u div 1000" "u div 1000 < 1000"
    using u zdiv_mono1 [of u 999999 1000] by (simp_all add: pos_imp_zdiv_nonneg_iff)
  have le: "of_int (u div 1000) \<le> (of_int u / 1000 :: rat)"
    by (metis floor_divide_of_int_eq of_int_floor_le of_int_numeral)
  have "rnd (of_int (u div 1000)) = of_int (u div 1000)" using v by (intro rnd_of_int) simp
  then show "of_int (u div 1000) \<le> rnd (of_int u / 1000)" using rnd_mono [OF le] by simp
  define q m where "q = u div 1000" and "m = u mod 1000"
  have "q * 1000 + m = u" "m < 1000" by (simp_all add: q_def m_def)
  then have "u \<le> (q + 1) * 1000 - 1" by simp
  then have "u \<le> (u div 1000 + 1) * 1000 - 1" by (simp only: q_def)
  then have "of_int u \<le> (of_int ((u div 1000 + 1) * 1000 - 1) :: rat)" by (simp only: of_int_le_iff)
  then have hi: "of_int u / 1000 \<le> of_int (u div 1000) + 1 - (1 / 1000 :: rat)" by simp
  have "\<bar>rnd (of_int u / 1000) - of_int u / 1000\<bar> \<le> eps64 * 1000 + min_normal"
    using u by (intro f64.r_err_bound normal_ge) (auto simp: divide_le_eq simp flip: of_int_le_iff)
  moreover have "eps64 * 1000 + min_normal < 1 / 1000" using min_normal_le by (simp add: eps64_def)
  ultimately show "rnd (of_int u / 1000) < of_int (u div 1000) + 1" using hi by linarith
qed

lemma script_now_exact:
  assumes "0 \<le> us" "us div 1000 < 10 ^ 14"
  shows "script_now_ms us = of_int (us div 1000)"
proof -
  let ?s = "us div 1000000" and ?u = "us mod 1000000"
  have u: "0 \<le> ?u" "?u < 1000000" by simp_all
  have "us div 1000 = (?s * 1000 * 1000 + ?u) div 1000" by simp
  also have "\<dots> = ?s * 1000 + ?u div 1000" by (rule div_mult_self3) simp
  finally have s: "0 \<le> ?s" "?s * 1000 + ?u div 1000 = us div 1000" "?s < 10 ^ 11"
    using assms u by (simp_all add: pos_imp_zdiv_nonneg_iff)
  have f: "float64 ?u = of_int ?u" "float64 ?s = of_int ?s"
    using u s by (auto intro!: float64_exact)
  have "fmul (of_int ?s) 1000 = of_int (?s * 1000)"
    using s rnd_of_int [of "?s * 1000"] by (simp add: fmul_def)
  then have "script_now_ms us = rnd (of_int (?s * 1000) + of_int (?u div 1000))"
    by (simp only: script_now_ms_def f fdiv_def ffloor_def fadd_def floor_micros [OF u])
  also have "\<dots> = rnd (of_int (us div 1000))" by (simp only: of_int_add [symmetric] s(2))
  also have "\<dots> = of_int (us div 1000)"
    using assms by (intro rnd_of_int) (simp add: pos_imp_zdiv_nonneg_iff)
  finally show ?thesis .
qed

text \<open>The fields of the event of an approved request, as the worker reads them.\<close>

definition event_fields :: "Key \<Rightarrow> int \<Rightarrow> int \<Rightarrow> int \<Rightarrow> stream_entry" where
  "event_fields k cost at_ms remaining =
     [(''client_id'', ClientID k), (''resource'', Resource k), (''cost'', nat_string (nat cost)),
      (''approved_at_ms'', nat_string (nat at_ms)), (''remaining'', nat_string (nat remaining))]"

definition unix_ms :: "go_time \<Rightarrow> int" where
  "unix_ms t = unix_us t div 1000"

definition time_ok :: "go_time \<Rightarrow> bool" where
  "time_ok t \<longleftrightarrow> 0 \<le> unix_us t \<and> unix_ms t < 10 ^ 14"

context redis_limiter
begin

lemma event_eq:
  assumes p: "rtb_pol l k = Some p" and n: "0 < n" "n \<le> Limit p" and b: "balance_ok p b" and t: "time_ok t"
  shows "event p k n t b = event_fields k n (unix_ms t) \<lfloor>b\<rfloor>"
proof -
  have L: "Limit p < 10 ^ 14" using rtb_ok_policy(2) [OF l_ok p] .
  have "0 \<le> \<lfloor>b\<rfloor>" "\<lfloor>b\<rfloor> < 10 ^ 14" using b L by (auto simp: balance_ok_def floor_less_iff intro: le_less_trans)
  moreover have "0 \<le> unix_us t div 1000" using t by (simp add: time_ok_def pos_imp_zdiv_nonneg_iff)
  ultimately show ?thesis
    using n L t lua_tostring_int [of n] lua_tostring_int [of "unix_us t div 1000"] lua_tostring_int [of "\<lfloor>b\<rfloor>"]
    by (simp add: event_def approval_event_def event_fields_def redis_args_def Let_def ffloor_def
        script_now_exact time_ok_def unix_ms_def)
qed

lemma Allow_event:
  assumes ok: "redis_ok R l r" and t: "time_ok t" and a: "Redis_Allow R l net r c t k n = (r', res)"
  shows "(\<exists>d. res = Ok d \<and> Allowed d \<and>
      r_stream R r' (eventStream l) = r_stream R r (eventStream l) @ [event_fields k n (unix_ms t) (Remaining d)]) \<or>
    \<not> approved res \<and> (r_stream R r' (eventStream l) = r_stream R r (eventStream l) \<or>
      (\<exists>e m. net = ReplyLost e \<and> r_stream R r' (eventStream l) =
        r_stream R r (eventStream l) @ [event_fields k n (unix_ms t) m]))"
proof (cases "c = None \<and> 0 < n \<and> (\<exists>p. rtb_pol l k = Some p \<and> n \<le> Limit p)")
  case True
  then obtain p where c: "c = None" and p: "rtb_pol l k = Some p" and n: "0 < n" "n \<le> Limit p" by auto
  let ?b = "spent r p k n t"
  note eff = script_effect(4) [OF ok p n refl, of t]
  have b: "balance_ok p ?b"
    using found_ok [OF ok p, of t] n spend_range [of "found r p k t" "of_int n"]
    by (auto simp: spent_def balance_ok_def)
  note ev = event_eq [OF p n b t]
  have r': "r' = (case net of Unsent e \<Rightarrow> r | _ \<Rightarrow> fst (script p k n t r))"
    using Allow_state [OF p n, of net r t] a c by simp
  show ?thesis
  proof (cases net)
    case Delivered
    then have "Redis_Allow R l Delivered r None t k n = (r', res)" using a c by simp
    from Allow_delivered [OF ok p n this] show ?thesis
      using eff ev r' Delivered
      by (cases "of_int n \<le> found r p k t"; cases "full r") (auto simp: spent_def)
  next
    case (Unsent e)
    then show ?thesis using a c r' Allow_script(1) [OF p n] by auto
  next
    case (ReplyLost e)
    then show ?thesis using a c r' Allow_script(2) [OF p n] eff ev by auto
  qed
next
  case False
  then have "\<exists>e. Redis_Allow R l net r c t k n = (r, Err e)"
    by (intro Allow_refused) (cases "rtb_pol l k"; auto)
  then show ?thesis using a by auto
qed

end

text \<open>
  The approval history is exact. On every server with the documented commands, a call
  that answers an approval appends exactly one event to the stream, with the client, the
  resource, the cost, the server's time and the remaining capacity of that approval. Any
  other answer appends nothing, except that a call whose reply is lost may have been
  approved and then has its event.
\<close>

theorem redis_events_exact:
  assumes "redis_server R" and "rtb_ok l" and "redis_ok R l r" and "time_ok t"
    and "Redis_Allow R l net r c t k n = (r', res)"
  shows "(\<exists>d. res = Ok d \<and> Allowed d \<and>
      r_stream R r' (eventStream l) = r_stream R r (eventStream l) @ [event_fields k n (unix_ms t) (Remaining d)]) \<or>
    \<not> approved res \<and> (r_stream R r' (eventStream l) = r_stream R r (eventStream l) \<or>
      (\<exists>e m. net = ReplyLost e \<and> r_stream R r' (eventStream l) =
        r_stream R r (eventStream l) @ [event_fields k n (unix_ms t) m]))"
  using redis_limiter.Allow_event [OF redis_limiterI [OF assms(1,2)] assms(3-5)] .

theorem redis_events_exact_witness:
  "\<exists>r' res. Redis_Allow mem_ops ex_rtb Delivered ex_redis None unix_epoch ex_key 1 = (r', res) \<and>
    ((\<exists>d. res = Ok d \<and> Allowed d \<and> mem_stream r' (eventStream ex_rtb) = [event_fields ex_key 1 0 (Remaining d)]) \<or>
     \<not> approved res \<and> mem_stream r' (eventStream ex_rtb) = [])"
proof -
  obtain r' res where a: "Redis_Allow mem_ops ex_rtb Delivered ex_redis None unix_epoch ex_key 1 = (r', res)" by force
  have t: "time_ok unix_epoch" "unix_ms unix_epoch = 0" by (simp_all add: time_ok_def unix_ms_def unix_us_def)
  have s: "mem_stream ex_redis (eventStream ex_rtb) = []" "r_stream mem_ops = mem_stream"
    by (simp_all add: mem_ops_def mem_stream_def ex_redis_def)
  show ?thesis
    using redis_events_exact [OF mem.redis_server_axioms ex_rtb_ok ex_redis_ok t(1) a] a by (simp add: s t(2))
qed

end
