(* ===== verification/RedisQuota.thy ===== *)
theory RedisQuota
  imports RedisLimiter
begin

text \<open>
  Sequences of calls of the shared token bucket. \<open>available\<close> is the balance a call finds on
  the server; \<open>run_redis\<close> serves requests in order, each with what happens to its connection.
\<close>

section \<open>Decisions\<close>

definition available :: "'r redis_ops \<Rightarrow> RedisTokenBucketRateLimiter \<Rightarrow> 'r \<Rightarrow> Policy \<Rightarrow> Key \<Rightarrow> go_time \<Rightarrow> rat" where
  "available R l r p k t =
     script_tokens R (r_at R r (unix_ms t)) (redisKey l k) (float64 (Limit p))
       (float64 (millisecondsRoundedUp (Window p))) (script_now_ms (unix_us t))"

fun run_redis ::
  "'r redis_ops \<Rightarrow> RedisTokenBucketRateLimiter \<Rightarrow> 'r \<Rightarrow> (request \<times> link) list \<Rightarrow>
   'r \<times> (limiter_error, Decision) result list" where
  "run_redis R l r [] = (r, [])"
| "run_redis R l r ((q, net) # qs) =
     (let a = Redis_Allow R l net r (q_ctx q) (q_now q) (q_key q) (q_cost q);
          b = run_redis R l (fst a) qs
      in (fst b, snd a # snd b))"

context redis_limiter
begin

lemma available_found: "rtb_pol l k = Some p \<Longrightarrow> available R l r p k t = found r p k t"
  using rtb_ok_policy(3) [OF l_ok] by (simp add: available_def found_def unix_ms_def)

lemma full_exact:
  assumes "redis_ok R l r" "maxBacklog l \<le> 2 ^ 53"
  shows "full r \<longleftrightarrow> maxBacklog l \<le> int (length (r_stream R r (eventStream l)))"
proof -
  let ?n = "int (length (r_stream R r (eventStream l)))"
  have "?n \<le> maxBacklog l" using assms(1) by (simp add: redis_ok_def)
  then have "\<bar>?n\<bar> \<le> 2 ^ 53" "\<bar>maxBacklog l\<bar> \<le> 2 ^ 53" using assms(2) by auto
  then have "float64 ?n = of_int ?n" "float64 (maxBacklog l) = of_int (maxBacklog l)"
    by (simp_all only: float64_exact)
  then show ?thesis by (simp only: full_def of_int_le_iff)
qed

lemma run_redis_ok: "redis_ok R l r \<Longrightarrow> redis_ok R l (fst (run_redis R l r qs))"
  by (induction qs arbitrary: r) (auto simp: Let_def Allow_ok)

lemma Allow_branches:
  assumes ok: "redis_ok R l r" "maxBacklog l \<le> 2 ^ 53" and p: "rtb_pol l k = Some p" and n: "0 < n" "n \<le> Limit p"
    and a: "Redis_Allow R l Delivered r None t k n = (r', res)" and b: "b = available R l r p k t"
    and es: "es = r_stream R r (eventStream l)"
  shows "if b < of_int n
      then (\<exists>d. res = Ok d \<and> \<not> Allowed d \<and> Remaining d = \<lfloor>b\<rfloor>) \<and> r_stream R r' (eventStream l) = es
      else if maxBacklog l \<le> int (length es)
      then res = Err ErrEventBacklogFull \<and> r' = r_at R r (unix_ms t)
      else (\<exists>d. res = Ok d \<and> Allowed d \<and> Remaining d = \<lfloor>fsub b (of_int n)\<rfloor>)"
proof -
  note d = Allow_delivered [OF ok(1) p n a] and f = full_exact [OF ok]
  have b: "b = found r p k t" using b available_found [OF p] by simp
  have r': "r' = fst (script p k n t r)" using Allow_state [OF p n, of Delivered r t] a by simp
  show ?thesis
    using d f script_effect(2,4) [OF ok(1) p n r'] unfolding b es unix_ms_def
    by (auto simp: not_less)
qed

end

text \<open>
  C12. The decision of the shared bucket, on every branch. A delivered call for a request of
  at most the limit compares the cost with the refilled balance. Too few tokens is a denial,
  even while the backlog is full, and appends no event. Enough tokens and a full backlog is
  \<open>ErrEventBacklogFull\<close>, and then the data set is as before: no token is spent. Otherwise the
  request is approved and its cost is taken from the balance.
\<close>

theorem redis_decision:
  assumes "redis_server R" and "rtb_ok l" and "redis_ok R l r" and "maxBacklog l \<le> 2 ^ 53"
    and "map_of (rtb_policies l) k = Some p" and "0 < n" and "n \<le> Limit p"
    and "Redis_Allow R l Delivered r None t k n = (r', res)"
    and "b = available R l r p k t" and "es = r_stream R r (eventStream l)"
  shows "if b < of_int n
      then (\<exists>d. res = Ok d \<and> \<not> Allowed d \<and> Remaining d = \<lfloor>b\<rfloor>) \<and> r_stream R r' (eventStream l) = es
      else if maxBacklog l \<le> int (length es)
      then res = Err ErrEventBacklogFull \<and> r' = r_at R r (unix_ms t)
      else (\<exists>d. res = Ok d \<and> Allowed d \<and> Remaining d = \<lfloor>fsub b (of_int n)\<rfloor>)"
  using redis_limiter.Allow_branches [OF redis_limiterI [OF assms(1,2)] assms(3,4) _ assms(6-10)] assms(5)
  by (simp add: rtb_pol_def)

text \<open>
  C27. The event stream never exceeds the maximum backlog: whatever requests arrive, in
  whatever order, from however many API instances, and whatever happens to their connections.
\<close>

theorem redis_backlog_bound:
  assumes "redis_server R" and "rtb_ok l" and "redis_ok R l r"
  shows "int (length (r_stream R (fst (run_redis R l r qs)) (eventStream l))) \<le> maxBacklog l"
  using redis_limiter.run_redis_ok [OF redis_limiterI [OF assms(1,2)] assms(3)] by (simp add: redis_ok_def)

theorem redis_backlog_bound_witness:
  "int (length (mem_stream (fst (run_redis mem_ops ex_rtb ex_redis
     [(ex_req unix_epoch 1, Delivered), (ex_req unix_epoch 1, ReplyLost ''timeout''), (ex_req unix_epoch 1, Delivered)]))
     (eventStream ex_rtb))) \<le> 2"
  using redis_backlog_bound [OF mem.redis_server_axioms ex_rtb_ok ex_redis_ok, of
      "[(ex_req unix_epoch 1, Delivered), (ex_req unix_epoch 1, ReplyLost ''timeout''), (ex_req unix_epoch 1, Delivered)]"]
  by (simp add: ex_rtb_def mem_ops_def)

lemma ex_available:
  "available mem_ops ex_rtb ex_redis \<lparr>Limit = 10, Window = 60 * 10 ^ 9\<rparr> ex_key unix_epoch = 10"
  by (simp add: available_def script_tokens_def mem_defs ex_redis_def float_simps)

theorem redis_decision_witness:
  "\<exists>r' d. Redis_Allow mem_ops ex_rtb Delivered ex_redis None unix_epoch ex_key 3 = (r', Ok d) \<and>
     Allowed d \<and> Remaining d = 7"
proof -
  let ?p = "\<lparr>Limit = 10, Window = 60 * 10 ^ 9\<rparr>"
  obtain r' res where a: "Redis_Allow mem_ops ex_rtb Delivered ex_redis None unix_epoch ex_key 3 = (r', res)" by force
  have m: "maxBacklog ex_rtb = 2" "maxBacklog ex_rtb \<le> 2 ^ 53" "map_of (rtb_policies ex_rtb) ex_key = Some ?p"
    by (simp_all add: ex_rtb_def ex_policies_def)
  have e: "[] = r_stream mem_ops ex_redis (eventStream ex_rtb)"
    by (simp add: mem_ops_def mem_stream_def ex_redis_def)
  have "if (10::rat) < of_int 3
      then (\<exists>d. res = Ok d \<and> \<not> Allowed d \<and> Remaining d = \<lfloor>10::rat\<rfloor>) \<and>
        r_stream mem_ops r' (eventStream ex_rtb) = []
      else if maxBacklog ex_rtb \<le> int (length ([] :: stream_entry list))
      then res = Err ErrEventBacklogFull \<and> r' = r_at mem_ops ex_redis (unix_ms unix_epoch)
      else (\<exists>d. res = Ok d \<and> Allowed d \<and> Remaining d = \<lfloor>fsub 10 (of_int 3)\<rfloor>)"
    by (rule redis_decision [OF mem.redis_server_axioms ex_rtb_ok ex_redis_ok m(2,3) _ _ a ex_available [symmetric] e])
      simp_all
  then show ?thesis using a by (auto simp: m(1) fsub_def float_simps)
qed

section \<open>The quota\<close>

text \<open>The policy as the script applies it: the window in milliseconds, rounded up.\<close>

definition ms_policy :: "Policy \<Rightarrow> Policy" where
  "ms_policy p = \<lparr>Limit = Limit p, Window = millisecondsRoundedUp (Window p)\<rparr>"

lemma ms_policy_ok:
  assumes "policy_ok p"
  shows "policy_ok (ms_policy p)"
  using assms windowMS_bounds [OF assms]
  by (auto simp: policy_ok_def ms_policy_def in64_def min_int64_def max_int64_def)

definition ms_rate :: "Policy \<Rightarrow> rat" where
  "ms_rate p = (1 + err50) * (of_int (Limit p) / of_int (millisecondsRoundedUp (Window p)))"

lemma ms_rate_pos: "policy_ok p \<Longrightarrow> 0 < ms_rate p"
  using windowMS_bounds(1) [of p] by (auto simp: ms_rate_def policy_ok_def)

lemma ms_rate_two_windows:
  assumes "policy_ok p"
  shows "of_int (Limit p) \<le> ms_rate p * of_int (2 * millisecondsRoundedUp (Window p))"
proof -
  have w: "(0::rat) < of_int (millisecondsRoundedUp (Window p))" using windowMS_bounds(1) [OF assms] by simp
  have "ms_rate p * of_int (2 * millisecondsRoundedUp (Window p)) = (1 + err50) * (2 * of_int (Limit p))"
    using w by (simp add: ms_rate_def)
  moreover have "(0::rat) < of_int (Limit p)" using assms by (simp add: policy_ok_def)
  ultimately show ?thesis by simp
qed

text \<open>The error one stored balance may gain by the rounding to 14 digits and to binary64.\<close>

lemma stored_upper:
  assumes "0 \<le> b" "b \<le> cap" "1 \<le> cap"
  shows "rnd (g14 b) \<le> b + cap / 2 ^ 44"
proof -
  have "b * (5 / 10 ^ 14) \<le> cap * (5 / 10 ^ 14)" using assms(2) by (intro mult_right_mono) auto
  then have g: "g14 b \<le> b + cap * (5 / 10 ^ 14)" using g14_err [OF assms(1)] by linarith
  have le: "g14 b \<le> 2 * cap" using g assms by simp
  have "min_normal \<le> 2 * cap" using assms min_normal_le by simp
  then have "\<bar>rnd (g14 b) - g14 b\<bar> \<le> eps64 * (2 * cap) + min_normal"
    using assms(1) le by (intro f64.r_err_bound) auto
  moreover have "min_normal \<le> cap * (1 / 2 ^ 200)" using min_normal_le assms(3) by simp
  ultimately show ?thesis using g assms(3) by (simp add: eps64_def abs_le_iff)
qed

abbreviation err43 :: rat where
  "err43 \<equiv> 1 / 2 ^ 43"

context redis_limiter
begin

text \<open>What key \<open>k\<close> may still spend up to \<open>T1\<close>, seen from time \<open>T\<close> (milliseconds).\<close>

definition rbudget :: "'r \<Rightarrow> Policy \<Rightarrow> Key \<Rightarrow> int \<Rightarrow> int \<Rightarrow> rat" where
  "rbudget r p k T T1 =
     (case bucket_view R r (redisKey l k) of
        (Some b, Some x) \<Rightarrow> b + ms_rate p * (of_int T1 - x)
      | _ \<Rightarrow> of_int (Limit p) + ms_rate p * of_int (T1 - T))"

text \<open>The bucket was stored at a time up to \<open>T\<close>, with its time to live.\<close>

definition timed :: "'r \<Rightarrow> Policy \<Rightarrow> Key \<Rightarrow> int \<Rightarrow> bool" where
  "timed r p k T \<longleftrightarrow> (\<forall>b x. bucket_view R r (redisKey l k) = (Some b, Some x) \<longrightarrow>
     (\<exists>i. x = of_int i \<and> 0 \<le> i \<and> i \<le> T \<and>
       r_expiry R r (redisKey l k) = Some (i + 2 * millisecondsRoundedUp (Window p))))"

lemma view_at:
  "bucket_view R (r_at R r T) k = (if expired R r k T then (None, None) else bucket_view R r k)"
  by (simp add: bucket_view_def at_HGET)

lemma timed_at: "timed r p k T0 \<Longrightarrow> T0 \<le> T \<Longrightarrow> timed (r_at R r T) p k T"
  by (fastforce simp: timed_def view_at at_expiry)

lemma redis_ok_balance:
  "redis_ok R l r \<Longrightarrow> rtb_pol l k = Some p \<Longrightarrow> bucket_view R r (redisKey l k) = (Some b, Some x) \<Longrightarrow> balance_ok p b"
  by (auto simp: redis_ok_def)

lemma rbudget_at:
  assumes ok: "redis_ok R l r" and p: "rtb_pol l k = Some p" and t: "timed r p k T0" "T0 \<le> T"
  shows "rbudget (r_at R r T) p k T T1 \<le> rbudget r p k T0 T1"
proof -
  note pol = rtb_ok_policy(1) [OF l_ok p]
  have mono: "ms_rate p * of_int a \<le> ms_rate p * of_int b" if "a \<le> b" for a b
    using ms_rate_pos [OF pol] that by (intro mult_left_mono) auto
  show ?thesis
  proof (cases "bucket_view R r (redisKey l k)")
    case (Pair vb vx)
    show ?thesis
    proof (cases "vb = None \<or> vx = None")
      case True
      then show ?thesis using Pair mono [of "T1 - T" "T1 - T0"] t(2)
        by (auto simp: rbudget_def view_at split: option.splits)
    next
      case False
      then obtain b x where v: "bucket_view R r (redisKey l k) = (Some b, Some x)" using Pair by auto
      then obtain i where i: "x = of_int i" "i \<le> T0"
        "r_expiry R r (redisKey l k) = Some (i + 2 * millisecondsRoundedUp (Window p))"
        using t(1) by (auto simp: timed_def)
      have b: "0 \<le> b" using ok p v by (auto simp: redis_ok_def balance_ok_def)
      show ?thesis
      proof (cases "expired R r (redisKey l k) T")
        case True
        then have "2 * millisecondsRoundedUp (Window p) + (T1 - T) \<le> T1 - i" using i(3) by (simp add: expired_def)
        from mono [OF this] ms_rate_two_windows [OF pol] b show ?thesis
          using True by (simp add: rbudget_def view_at v i(1) distrib_left)
      next
        case False
        then show ?thesis by (simp add: rbudget_def view_at v)
      qed
    qed
  qed
qed

text \<open>The balance a call finds is covered by the budget.\<close>

lemma found_budget:
  assumes ok: "redis_ok R l r" and p: "rtb_pol l k = Some p" and ti: "timed r p k T0" "T0 \<le> unix_ms t"
    and t: "time_ok t"
  shows "found r p k t + ms_rate p * of_int (T1 - unix_ms t) \<le>
    rbudget r p k T0 T1 + 4 * eps64 * of_int (Limit p)"
proof -
  let ?T = "unix_ms t" and ?r = "r_at R r (unix_ms t)" and ?L = "of_int (Limit p) :: rat"
  note pol = rtb_ok_policy [OF l_ok p]
  have L: "1 \<le> ?L" using pol(1) by (simp add: policy_ok_def)
  have eps: "0 \<le> 4 * eps64 * ?L" using L by (simp add: eps64_def)
  have now: "script_now_ms (unix_us t) = of_int ?T" using t by (simp add: script_now_exact time_ok_def unix_ms_def)
  have fnd: "found r p k t = script_tokens R ?r (redisKey l k) ?L (float64 (millisecondsRoundedUp (Window p))) (of_int ?T)"
    by (simp add: found_def now flip: unix_ms_def)
  have main: "found r p k t + ms_rate p * of_int (T1 - ?T) \<le> rbudget ?r p k ?T T1 + 4 * eps64 * ?L"
  proof (cases "\<exists>b x. bucket_view R ?r (redisKey l k) = (Some b, Some x)")
    case False
    then show ?thesis using eps
      by (cases "bucket_view R ?r (redisKey l k)") (auto simp: fnd script_tokens_view rbudget_def split: option.splits)
  next
    case True
    then obtain b x where v: "bucket_view R ?r (redisKey l k) = (Some b, Some x)" by auto
    then obtain i where i: "x = of_int i" "0 \<le> i" "i \<le> ?T"
      using timed_at [OF ti(1,2)] by (fastforce simp: timed_def)
    have b: "0 \<le> b" "b \<le> ?L" using redis_ok_balance [OF redis_ok_at [OF ok] p v] by (simp_all add: balance_ok_def)
    have d: "fsub (of_int ?T) x = of_int (?T - i)"
      using rnd_of_int [of "?T - i"] i t by (simp add: fsub_def time_ok_def)
    let ?ref = "refill (of_int (?T - i)) ?L (float64 (millisecondsRoundedUp (Window p)))"
    have fb: "found r p k t = top_up ?L b ?ref" using i(3) d by (simp add: fnd script_tokens_view v)
    have r0: "0 \<le> ?ref"
      using i L windowMS_bounds(1) [OF pol(1)] by (intro refill_nonneg float64_nonneg) auto
    have ref: "?ref \<le> ms_rate p * of_int (?T - i)"
    proof (cases "i = ?T")
      case False
      have "float64 (?T - i) = of_int (?T - i)" using i t by (intro float64_exact) (simp add: time_ok_def)
      then show ?thesis
        using go_refill_bounds(1) [OF _ ms_policy_ok [OF pol(1)], of "?T - i"] False i pol(2)
        by (simp add: ms_policy_def ms_rate_def mult.assoc)
    qed simp
    have "found r p k t \<le> b + ?ref + 4 * eps64 * ?L" unfolding fb using b r0 L by (intro top_up_upper) auto
    moreover have "ms_rate p * of_int (?T - i) + ms_rate p * of_int (T1 - ?T) = ms_rate p * (of_int T1 - x)"
      by (simp add: i(1) algebra_simps)
    ultimately show ?thesis using ref by (simp add: rbudget_def v)
  qed
  then show ?thesis using rbudget_at [OF ok p ti, of T1] by linarith
qed

lemma budget_unchanged:
  assumes ok: "redis_ok R l r" and p: "rtb_pol l k = Some p" and ti: "timed r p k T0" "T0 \<le> T"
    and "r' = r \<or> bucket_view R r' (redisKey l k) = bucket_view R (r_at R r T) (redisKey l k) \<and>
      r_expiry R r' (redisKey l k) = r_expiry R (r_at R r T) (redisKey l k)"
  shows "timed r' p k T" and "rbudget r' p k T T1 \<le> rbudget r p k T0 T1"
proof -
  have "ms_rate p * of_int (T1 - T) \<le> ms_rate p * of_int (T1 - T0)"
    using ms_rate_pos [OF rtb_ok_policy(1) [OF l_ok p]] ti(2) by (intro mult_left_mono) auto
  then have later: "rbudget r p k T T1 \<le> rbudget r p k T0 T1"
    by (auto simp: rbudget_def split: option.splits prod.splits)
  show "timed r' p k T"
    using assms(5) timed_at [OF ti] ti by (fastforce simp: timed_def)
  show "rbudget r' p k T T1 \<le> rbudget r p k T0 T1"
    using assms(5) later rbudget_at [OF ok p ti, of T1] by (auto simp: rbudget_def)
qed

lemma approved_enough:
  assumes "redis_ok R l r" "rtb_pol l k = Some p" "0 < n" "n \<le> Limit p"
    "Redis_Allow R l net r None t k n = (r', res)" "approved res"
  shows "of_int n \<le> found r p k t"
proof -
  obtain d where "res = Ok d" using assms(6) by (cases res) auto
  then have "net = Delivered" using Allow_result_Ok [of net r None t k n d] assms(5) by simp
  then show ?thesis using Allow_delivered(3) [OF assms(1-4)] assms(5,6) by (force simp: not_le [symmetric])
qed

lemma stored_budget:
  assumes ok: "redis_ok R l r" and p: "rtb_pol l k = Some p" and n: "0 < n" "n \<le> Limit p"
    and ti: "timed r p k T0" "T0 \<le> unix_ms t" and t: "time_ok t"
    and st: "stored r r' p k t (spent r p k n t)"
  shows "timed r' p k (unix_ms t)"
    and "(if of_int n \<le> found r p k t then of_int n else 0) + rbudget r' p k (unix_ms t) T1 \<le>
      rbudget r p k T0 T1 + err43 * of_int (Limit p)"
proof -
  let ?T = "unix_ms t" and ?L = "of_int (Limit p) :: rat" and ?s = "spent r p k n t"
  note pol = rtb_ok_policy [OF l_ok p]
  have L: "1 \<le> ?L" using pol(1) by (simp add: policy_ok_def)
  have T: "0 \<le> ?T" "?T < 10 ^ 14" using t by (auto simp: time_ok_def unix_ms_def pos_imp_zdiv_nonneg_iff)
  have f: "balance_ok p (found r p k t)" using found_ok [OF ok p] .
  have now: "rnd (g14 (script_now_ms (unix_us t))) = of_int ?T"
    using t T rnd_of_int [of ?T] by (simp add: script_now_exact time_ok_def g14_int flip: unix_ms_def)
  have v: "bucket_view R r' (redisKey l k) = (Some (rnd (g14 ?s)), Some (of_int ?T))"
    and ex: "r_expiry R r' (redisKey l k) = Some (?T + 2 * millisecondsRoundedUp (Window p))"
    using st now by (simp_all add: stored_def unix_ms_def)
  show "timed r' p k ?T" using v ex T by (simp add: timed_def)
  have s: "0 \<le> ?s" "?s \<le> ?L" "(if of_int n \<le> found r p k t then of_int n else 0) + ?s \<le> found r p k t + 2 * eps64 * ?L"
    using f n L spend_range [of "found r p k t" "of_int n"] spend_upper [of "of_int n" "found r p k t" ?L]
    by (auto simp: spent_def balance_ok_def eps64_def)
  have "rnd (g14 ?s) \<le> ?s + ?L / 2 ^ 44" using s L by (intro stored_upper) auto
  then show "(if of_int n \<le> found r p k t then of_int n else 0) + rbudget r' p k ?T T1 \<le>
      rbudget r p k T0 T1 + err43 * ?L"
    using s(3) found_budget [OF ok p ti t, of T1] L by (simp add: rbudget_def v eps64_def)
qed

text \<open>A call that does not store the bucket of \<open>k\<close>: it is as it was, and nothing was approved for \<open>k\<close>.\<close>

lemma call_not_sent:
  assumes "Redis_Allow R l net r c t k' n = (r', res)"
    and "\<not> (c = None \<and> 0 < n \<and> (\<exists>p'. rtb_pol l k' = Some p' \<and> n \<le> Limit p') \<and> (\<nexists>e. net = Unsent e))"
  shows "r' = r \<and> \<not> approved res"
proof (cases "c = None \<and> 0 < n \<and> (\<exists>p'. rtb_pol l k' = Some p' \<and> n \<le> Limit p')")
  case True
  then show ?thesis using assms Allow_script(1) by auto
next
  case False
  then have "\<exists>e. Redis_Allow R l net r c t k' n = (r, Err e)"
    by (intro Allow_refused) (cases "rtb_pol l k'"; auto)
  then show ?thesis using assms(1) by auto
qed

lemma script_not_stored:
  assumes ok: "redis_ok R l r" and p': "rtb_pol l k' = Some p'" and n: "0 < n" "n \<le> Limit p'"
    and a: "Redis_Allow R l net r None t k' n = (r', res)" and r': "r' = fst (script p' k' n t r)"
    and no: "\<not> (k' = k \<and> \<not> (of_int n \<le> found r p' k' t \<and> full r))"
  shows "bucket_view R r' (redisKey l k) = bucket_view R (r_at R r (unix_ms t)) (redisKey l k) \<and>
      r_expiry R r' (redisKey l k) = r_expiry R (r_at R r (unix_ms t)) (redisKey l k)"
    and "\<not> (k' = k \<and> approved res)"
proof -
  note eff = script_effect [OF ok p' n r']
  show "bucket_view R r' (redisKey l k) = bucket_view R (r_at R r (unix_ms t)) (redisKey l k) \<and>
      r_expiry R r' (redisKey l k) = r_expiry R (r_at R r (unix_ms t)) (redisKey l k)"
  proof (cases "of_int n \<le> found r p' k' t \<and> full r")
    case True
    then show ?thesis using eff(2) by (simp add: unix_ms_def)
  next
    case f: False
    then show ?thesis using eff(3) [OF f] no by (auto simp: stored_def unix_ms_def)
  qed
  show "\<not> (k' = k \<and> approved res)"
  proof
    assume ap: "k' = k \<and> approved res"
    then obtain d where "res = Ok d" by (cases res) auto
    then have "net = Delivered" using Allow_result_Ok [of net r None t k' n d] a by simp
    then have "Redis_Allow R l Delivered r None t k' n = (r', res)" using a by simp
    from Allow_delivered(1) [OF ok p' n this] show False using no ap by auto
  qed
qed

lemma redis_step:
  assumes ok: "redis_ok R l r" and p: "rtb_pol l k = Some p" and ti: "timed r p k T0" "T0 \<le> unix_ms t"
    and t: "time_ok t" and a: "Redis_Allow R l net r c t k' n = (r', res)"
  shows "timed r' p k (unix_ms t) \<and>
    (if k' = k \<and> approved res then of_int n else 0) + rbudget r' p k (unix_ms t) T1 \<le>
      rbudget r p k T0 T1 + err43 * of_int (Limit p)"
proof -
  have err: "0 \<le> err43 * of_int (Limit p)" using rtb_ok_policy(1) [OF l_ok p] by (simp add: policy_ok_def)
  note same = budget_unchanged(1) [OF ok p ti, of r'] budget_unchanged(2) [OF ok p ti, of r' T1]
  show ?thesis
  proof (cases "c = None \<and> 0 < n \<and> (\<exists>p'. rtb_pol l k' = Some p' \<and> n \<le> Limit p') \<and> (\<nexists>e. net = Unsent e)")
    case False
    then show ?thesis using call_not_sent [OF a] same err by auto
  next
    case True
    then obtain p' where c: "c = None" and n: "0 < n" "n \<le> Limit p'" and p': "rtb_pol l k' = Some p'" by auto
    have a': "Redis_Allow R l net r None t k' n = (r', res)" using a c by simp
    have r': "r' = fst (script p' k' n t r)"
      using Allow_state [OF p' n, of net r t] a' True by (auto split: link.splits)
    show ?thesis
    proof (cases "k' = k \<and> \<not> (of_int n \<le> found r p' k' t \<and> full r)")
      case True
      then have k: "k' = k" "p' = p" using p p' by auto
      have "stored r r' p k t (spent r p k n t)" using script_effect(3) [OF ok p' n r'] True k by simp
      then show ?thesis
        using stored_budget(1) [OF ok p _ _ ti t, of n r'] stored_budget(2) [OF ok p _ _ ti t, of n r' T1] n k
          approved_enough [OF ok p' n a']
        by (auto split: if_splits)
    next
      case False
      then show ?thesis using script_not_stored [OF ok p' n a' r' False] same err by auto
    qed
  qed
qed

lemma redis_quota_gen:
  assumes "redis_ok R l r" "rtb_pol l k = Some p" "timed r p k T0" "T0 \<le> T1"
    and "\<forall>(q, net) \<in> set qs. time_ok (q_now q) \<and> T0 \<le> unix_ms (q_now q) \<and> unix_ms (q_now q) \<le> T1"
    and "sorted (map (q_now \<circ> fst) qs)"
  shows "of_int (approved_cost (\<lambda>_. True) k (map fst qs) (snd (run_redis R l r qs))) \<le>
    rbudget r p k T0 T1 + of_nat (length qs) * err43 * of_int (Limit p)"
  using assms
proof (induction qs arbitrary: r T0)
  case Nil
  have "0 \<le> rbudget r p k T0 T1"
  proof -
    note pol = rtb_ok_policy(1) [OF l_ok Nil(2)]
    have rate: "0 \<le> ms_rate p * of_int x" if "0 \<le> x" for x using ms_rate_pos [OF pol] that by simp
    have "0 \<le> b \<and> (\<exists>i. x = of_int i \<and> i \<le> T0)" if "bucket_view R r (redisKey l k) = (Some b, Some x)" for b x
      using that Nil(3) redis_ok_balance [OF Nil(1,2) that] by (auto simp: timed_def balance_ok_def)
    then show ?thesis
      using rate [of "T1 - T0"] rate Nil(4) pol
      by (fastforce simp: rbudget_def policy_ok_def split: prod.splits option.splits simp flip: of_int_diff)
  qed
  then show ?case by simp
next
  case (Cons x qs)
  obtain q net where x: "x = (q, net)" by force
  obtain r' res where a: "Redis_Allow R l net r (q_ctx q) (q_now q) (q_key q) (q_cost q) = (r', res)" by force
  have q: "time_ok (q_now q)" "T0 \<le> unix_ms (q_now q)" "unix_ms (q_now q) \<le> T1" using Cons.prems(5) by (auto simp: x)
  note step = redis_step [OF Cons.prems(1-3) q(2,1) a, of T1]
  have "unix_ms (q_now q) \<le> unix_ms (q_now (fst y))" if "y \<in> set qs" for y
    using that Cons.prems(6) by (auto simp: x unix_ms_def unix_us_def intro!: zdiv_mono1)
  then have "of_int (approved_cost (\<lambda>_. True) k (map fst qs) (snd (run_redis R l r' qs))) \<le>
      rbudget r' p k (unix_ms (q_now q)) T1 + of_nat (length qs) * err43 * of_int (Limit p)"
    using Cons.prems q step Allow_ok [OF Cons.prems(1), of net "q_ctx q" "q_now q" "q_key q" "q_cost q"] a
    by (intro Cons.IH) (auto simp: x)
  then show ?case using step by (auto simp: x a Let_def distrib_right add_divide_distrib split: if_splits)
qed

end

lemma redis_quota_aux:
  assumes "redis_server R" and "rtb_ok l" and "redis_ok R l r"
    and "map_of (rtb_policies l) k = Some p" and "r_TYPE R r (redisKey l k) = ''none''"
    and "\<forall>(q, net) \<in> set qs. time_ok (q_now q) \<and> T0 \<le> unix_ms (q_now q) \<and> unix_ms (q_now q) \<le> T1"
    and "T0 \<le> T1" and "sorted (map (q_now \<circ> fst) qs)"
  shows "of_int (approved_cost (\<lambda>_. True) k (map fst qs) (snd (run_redis R l r qs))) \<le>
    of_int (Limit p) * (1 + of_nat (length qs) / 2 ^ 43) +
    (1 + 1 / 2 ^ 50) * (of_int (Limit p) / of_int (millisecondsRoundedUp (Window p)) * of_int (T1 - T0) :: rat)"
proof -
  note rl = redis_limiterI [OF assms(1,2)]
  have v: "bucket_view R r (redisKey l k) = (None, None)"
    using redis_server.HGET_type [OF assms(1)] assms(5) by (simp add: bucket_view_def)
  have "of_int (approved_cost (\<lambda>_. True) k (map fst qs) (snd (run_redis R l r qs))) \<le>
      redis_limiter.rbudget R l r p k T0 T1 + of_nat (length qs) * err43 * of_int (Limit p)"
    using assms(4) v by (intro redis_limiter.redis_quota_gen [OF rl assms(3) _ _ assms(7,6,8)])
      (simp_all add: rtb_pol_def redis_limiter.timed_def [OF rl])
  also have "\<dots> = of_int (Limit p) * (1 + of_nat (length qs) / 2 ^ 43) +
    (1 + 1 / 2 ^ 50) * (of_int (Limit p) / of_int (millisecondsRoundedUp (Window p)) * of_int (T1 - T0))"
    by (simp add: redis_limiter.rbudget_def [OF rl] v ms_rate_def distrib_left mult_ac)
  finally show ?thesis .
qed

text \<open>
  C8. The quota of the shared bucket. While the server's clock does not go back, from a state
  without a bucket for the key, whatever requests for whatever keys arrive between \<open>T0\<close> and
  \<open>T1\<close> (milliseconds) and whatever happens to their connections, the cost approved for a key
  is at most its limit plus what the refill rate produces in that period, although buckets
  expire. Rounding adds at most \<open>2^-43\<close> of the limit per request, because a stored balance has
  14 decimal digits, and \<open>2^-50\<close> of the rate.
\<close>

theorem redis_quota:
  assumes "redis_server R" and "rtb_ok l" and "redis_ok R l r"
    and "map_of (rtb_policies l) k = Some p" and "r_TYPE R r (redisKey l k) = ''none''"
    and "\<forall>(q, net) \<in> set qs. time_ok (q_now q) \<and> T0 \<le> unix_ms (q_now q) \<and> unix_ms (q_now q) \<le> T1"
    and "T0 \<le> T1" and "sorted (map (q_now \<circ> fst) qs)"
  shows "of_int (approved_cost (\<lambda>_. True) k (map fst qs) (snd (run_redis R l r qs))) \<le>
    of_int (Limit p) * (1 + of_nat (length qs) / 2 ^ 43) +
    (1 + 1 / 2 ^ 50) * (of_int (Limit p) / of_int (millisecondsRoundedUp (Window p)) * of_int (T1 - T0) :: rat)"
  using assms by (rule redis_quota_aux)

lemma ex_bucket_none: "r_TYPE mem_ops ex_redis k = ''none''"
  by (simp add: mem_ops_def mem_type_def ex_redis_def)

lemma ex_time_ok: "time_ok unix_epoch" "unix_ms unix_epoch = 0"
  by (simp_all add: time_ok_def unix_ms_def unix_us_def)

theorem redis_quota_witness:
  "of_int (approved_cost (\<lambda>_. True) ex_key [ex_req unix_epoch 7, ex_req unix_epoch 7]
     (snd (run_redis mem_ops ex_rtb ex_redis [(ex_req unix_epoch 7, Delivered), (ex_req unix_epoch 7, Delivered)]))) <
   (11 :: rat)"
proof -
  let ?qs = "[(ex_req unix_epoch 7, Delivered), (ex_req unix_epoch 7, Delivered)]"
  let ?p = "\<lparr>Limit = 10, Window = 60 * 10 ^ 9\<rparr>"
  have p: "map_of (rtb_policies ex_rtb) ex_key = Some ?p" by (simp add: ex_rtb_def ex_policies_def)
  have "of_int (approved_cost (\<lambda>_. True) ex_key (map fst ?qs) (snd (run_redis mem_ops ex_rtb ex_redis ?qs))) \<le>
    of_int (Limit ?p) * (1 + of_nat (length ?qs) / 2 ^ 43) +
    (1 + 1 / 2 ^ 50) * (of_int (Limit ?p) / of_int (millisecondsRoundedUp (Window ?p)) * of_int (0 - 0) :: rat)"
    by (rule redis_quota [OF mem.redis_server_axioms ex_rtb_ok ex_redis_ok p ex_bucket_none])
      (simp_all add: ex_req_def ex_time_ok)
  then show ?thesis by simp
qed


section \<open>A clock that goes back\<close>

definition ex_p :: Policy where
  "ex_p = \<lparr>Limit = 10, Window = 60 * 10 ^ 9\<rparr>"

lemma ex_policy:
  "rtb_pol ex_rtb ex_key = Some ex_p" "Limit ex_p = 10" "millisecondsRoundedUp (Window ex_p) = 60000"
  by (simp_all add: ex_p_def rtb_pol_def ex_rtb_def ex_policies_def millisecondsRoundedUp_def fdiv_def float_simps
      Millisecond_def fceil_def int_of_float_def)

definition ex_at :: "int \<Rightarrow> go_time" where
  "ex_at s = unix_epoch + s * Second"

lemma ex_at: "0 \<le> s \<Longrightarrow> s \<le> 1000 \<Longrightarrow> time_ok (ex_at s) \<and> unix_ms (ex_at s) = s * 1000"
proof -
  have "s * 1000000000 div 1000 = s * 1000000" "s * 1000000 div 1000 = s * 1000" by simp_all
  then show "0 \<le> s \<Longrightarrow> s \<le> 1000 \<Longrightarrow> ?thesis"
    by (simp add: ex_at_def time_ok_def unix_ms_def unix_us_def Second_def)
qed

context redis_limiter
begin

lemma delivered_call:
  assumes ok: "redis_ok R l r" and p: "rtb_pol l k = Some p" and n: "0 < n" "n \<le> Limit p" and t: "time_ok t"
    and room: "of_int n \<le> found r p k t \<Longrightarrow> \<not> full r"
  shows "\<exists>r' d. Redis_Allow R l Delivered r None t k n = (r', Ok d) \<and>
    (Allowed d \<longleftrightarrow> of_int n \<le> found r p k t) \<and> redis_ok R l r' \<and>
    bucket_view R r' (redisKey l k) = (Some (rnd (g14 (spent r p k n t))), Some (of_int (unix_ms t))) \<and>
    r_expiry R r' (redisKey l k) = Some (unix_ms t + 2 * millisecondsRoundedUp (Window p)) \<and>
    length (r_stream R r' (eventStream l)) = length (r_stream R r (eventStream l)) + (if Allowed d then 1 else 0)"
proof -
  obtain r' res where a: "Redis_Allow R l Delivered r None t k n = (r', res)" by force
  have r': "r' = fst (script p k n t r)" using Allow_state [OF p n, of Delivered r t] a by simp
  note eff = script_effect [OF ok p n r'] and d = Allow_delivered [OF ok p n a]
  have T: "0 \<le> unix_ms t" "unix_ms t < 10 ^ 14" using t by (auto simp: time_ok_def unix_ms_def pos_imp_zdiv_nonneg_iff)
  have now: "rnd (g14 (script_now_ms (unix_us t))) = of_int (unix_ms t)"
    using t T rnd_of_int [of "unix_ms t"] by (simp add: script_now_exact time_ok_def g14_int flip: unix_ms_def)
  have "stored r r' p k t (spent r p k n t)" using eff(3) room by blast
  then have v: "bucket_view R r' (redisKey l k) = (Some (rnd (g14 (spent r p k n t))), Some (of_int (unix_ms t))) \<and>
      r_expiry R r' (redisKey l k) = Some (unix_ms t + 2 * millisecondsRoundedUp (Window p))"
    by (simp add: stored_def now unix_ms_def)
  obtain d where "res = Ok d" "Allowed d \<longleftrightarrow> of_int n \<le> found r p k t"
    using d(2,3) room by (cases "of_int n \<le> found r p k t") auto
  then show ?thesis using a v eff(1,4) room by auto
qed

lemma found_view:
  assumes "rtb_pol l k = Some p" "time_ok t"
  shows "found r p k t = (case bucket_view R (r_at R r (unix_ms t)) (redisKey l k) of
     (Some b, Some x) \<Rightarrow> top_up (of_int (Limit p)) b (refill (max 0 (fsub (of_int (unix_ms t)) x)) (of_int (Limit p))
       (float64 (millisecondsRoundedUp (Window p)))) | _ \<Rightarrow> of_int (Limit p))"
  using assms(2) by (simp add: found_def script_tokens_view script_now_exact time_ok_def flip: unix_ms_def)

end

context redis_limiter
begin

lemma fresh_found:
  assumes "rtb_pol l k = Some p" "time_ok t" "r_TYPE R r (redisKey l k) = ''none''"
  shows "found r p k t = of_int (Limit p)"
proof -
  have "bucket_view R r (redisKey l k) = (None, None)" using HGET_type assms(3) by (simp add: bucket_view_def)
  then show ?thesis by (simp add: found_view [OF assms(1,2)] view_at)
qed

text \<open>An empty bucket stored at a later time is found empty; stored earlier, it is refilled.\<close>

lemma stored_later:
  assumes p: "rtb_pol l k = Some p" and t: "time_ok t" "unix_ms t < i" "i < 10 ^ 14"
    and v: "bucket_view R r (redisKey l k) = (Some 0, Some (of_int i))"
    and e: "r_expiry R r (redisKey l k) = Some (i + 2 * millisecondsRoundedUp (Window p))"
  shows "found r p k t = 0"
proof -
  note pol = rtb_ok_policy [OF l_ok p]
  have w: "1 \<le> millisecondsRoundedUp (Window p)" using windowMS_bounds [OF pol(1)] by simp
  have T: "0 \<le> unix_ms t" using t(1) by (auto simp: time_ok_def unix_ms_def pos_imp_zdiv_nonneg_iff)
  have "fsub (of_int (unix_ms t)) (of_int i) = of_int (unix_ms t - i)"
    using rnd_of_int [of "unix_ms t - i"] T t by (simp add: fsub_def)
  then have "max 0 (fsub (of_int (unix_ms t)) (of_int i)) = 0" using t(2) by simp
  moreover have "\<not> expired R r (redisKey l k) (unix_ms t)" using e t(2) w by (simp add: expired_def)
  moreover have "0 \<le> (of_int (Limit p) :: rat)" using pol(1) by (simp add: policy_ok_def)
  ultimately show ?thesis by (simp add: found_view [OF p t(1)] view_at v top_up_def fadd_def)
qed

lemma stored_earlier:
  assumes p: "rtb_pol l k = Some p" and t: "time_ok t" "0 \<le> i" "i < unix_ms t"
    and v: "bucket_view R r (redisKey l k) = (Some 0, Some (of_int i))"
    and n: "0 < n" "n \<le> Limit p" "n * millisecondsRoundedUp (Window p) \<le> (unix_ms t - i) * Limit p"
      "(unix_ms t - i) * Limit p \<le> 2 ^ 53"
  shows "of_int n \<le> found r p k t"
proof (cases "expired R r (redisKey l k) (unix_ms t)")
  case True
  then show ?thesis using n(2) by (simp add: found_view [OF p t(1)] view_at)
next
  case False
  note pol = rtb_ok_policy [OF l_ok p]
  let ?w = "millisecondsRoundedUp (Window p)" and ?d = "unix_ms t - i"
  have w: "1 \<le> ?w" "float64 ?w = of_int ?w" using windowMS_bounds [OF pol(1)] by (auto intro!: float64_exact)
  have T: "unix_ms t < 10 ^ 14" using t(1) by (auto simp: time_ok_def unix_ms_def)
  have d: "max 0 (fsub (of_int (unix_ms t)) (of_int i)) = (of_int ?d :: rat)"
    using rnd_of_int [of ?d] T t by (simp add: fsub_def)
  have fl: "is_float (of_int n)" using n(1,2) pol(2) by (simp add: is_float_def float_simps)
  have m: "fmul (of_int ?d) (of_int (Limit p)) = of_int (?d * Limit p)"
    using rnd_of_int [of "?d * Limit p"] n(1,2,4) t(3) by (simp add: fmul_def abs_mult)
  have "of_int (n * ?w) \<le> (of_int (?d * Limit p) :: rat)" using n(3) by (simp only: of_int_le_iff)
  then have "of_int n \<le> of_int (?d * Limit p) / (of_int ?w :: rat)" using w(1) by (simp add: pos_le_divide_eq)
  then have "of_int n \<le> refill (of_int ?d) (of_int (Limit p)) (float64 ?w)"
    using rnd_mono fl unfolding refill_def m w(2) fdiv_def is_float_def by metis
  then have "of_int n \<le> top_up (of_int (Limit p)) 0 (refill (of_int ?d) (of_int (Limit p)) (float64 ?w))"
    using fl n(2) by (intro top_up_ge) simp_all
  then show ?thesis using False d by (simp add: found_view [OF p t(1)] view_at v)
qed

lemma clock_back:
  assumes ok: "redis_ok R l r" and p: "rtb_pol l k = Some p" and none: "r_TYPE R r (redisKey l k) = ''none''"
    and t: "time_ok t0" "time_ok t1" "unix_ms t1 < unix_ms t0"
    and room: "maxBacklog l \<le> 2 ^ 53" "int (length (r_stream R r (eventStream l))) + 2 \<le> maxBacklog l"
    and m: "0 < m" "m \<le> Limit p" and n: "0 < n" "n \<le> Limit p"
      "n * millisecondsRoundedUp (Window p) \<le> (unix_ms t0 - unix_ms t1) * Limit p"
      "(unix_ms t0 - unix_ms t1) * Limit p \<le> 2 ^ 53"
  shows "\<exists>r1 d1 r2 d2 r3 d3. Redis_Allow R l Delivered r None t0 k (Limit p) = (r1, Ok d1) \<and>
    Redis_Allow R l Delivered r1 None t1 k m = (r2, Ok d2) \<and> Redis_Allow R l Delivered r2 None t0 k n = (r3, Ok d3) \<and>
    Allowed d1 \<and> \<not> Allowed d2 \<and> Allowed d3"
proof -
  let ?k = "redisKey l k" and ?len = "\<lambda>r. length (r_stream R r (eventStream l))"
  have L: "0 < Limit p" using m by simp
  have T: "0 \<le> unix_ms t1" "unix_ms t0 < 10 ^ 14" using t by (auto simp: time_ok_def unix_ms_def pos_imp_zdiv_nonneg_iff)
  have notfull: "\<not> full x" if "redis_ok R l x" "?len x \<le> ?len r + 1" for x
    using full_exact [OF that(1) room(1)] room(2) that(2) by linarith
  have zero: "fsub x x = 0" "rnd (g14 0) = 0" for x :: rat by (simp_all add: fsub_def)
  have f1: "found r p k t0 = of_int (Limit p)" by (rule fresh_found [OF p t(1) none])
  obtain r1 d1 where 1: "Redis_Allow R l Delivered r None t0 k (Limit p) = (r1, Ok d1)" "Allowed d1" "redis_ok R l r1"
    "bucket_view R r1 ?k = (Some 0, Some (of_int (unix_ms t0)))"
    "r_expiry R r1 ?k = Some (unix_ms t0 + 2 * millisecondsRoundedUp (Window p))" "?len r1 = ?len r + 1"
    using delivered_call [OF ok p L order_refl t(1)] notfull [OF ok] by (auto simp: f1 spent_def zero)
  have f2: "found r1 p k t1 = 0" by (rule stored_later [OF p t(2,3) T(2) 1(4,5)])
  obtain r2 d2 where 2: "Redis_Allow R l Delivered r1 None t1 k m = (r2, Ok d2)" "\<not> Allowed d2" "redis_ok R l r2"
    "bucket_view R r2 ?k = (Some 0, Some (of_int (unix_ms t1)))" "?len r2 = ?len r + 1"
    using delivered_call [OF 1(3) p m t(2)] m(1) 1(6) by (auto simp: f2 spent_def zero)
  have f3: "of_int n \<le> found r2 p k t0" by (rule stored_earlier [OF p t(1) T(1) t(3) 2(4) n])
  obtain r3 d3 where "Redis_Allow R l Delivered r2 None t0 k n = (r3, Ok d3)" "Allowed d3"
    using delivered_call [OF 2(3) p n(1,2) t(1)] f3 notfull [OF 2(3)] 2(5) by auto
  then show ?thesis using 1 2 by blast
qed

end

text \<open>
  C40. A clock that goes back refills twice. The script stores the server's time even when it is
  earlier than the stored one, so the interval is refilled again. On every documented server,
  for every policy and every key without a bucket: the whole limit is spent at \<open>t0\<close>, a request
  that the server dates back to \<open>t1\<close> is denied, and at \<open>t0\<close> again any cost that the rate produces between
  \<open>t1\<close> and \<open>t0\<close> is approved, so at the one instant \<open>t0\<close> more than the limit was approved. (Room in the
  backlog for two events; the products are below \<open>2^53\<close>. The in-memory bucket keeps its
  \<open>lastRefill\<close>.)
\<close>

theorem redis_clock_back_refills:
  assumes "redis_server R" and "rtb_ok l" and "redis_ok R l r"
    and "map_of (rtb_policies l) k = Some p" and "r_TYPE R r (redisKey l k) = ''none''"
    and "time_ok t0" and "time_ok t1" and "unix_ms t1 < unix_ms t0"
    and "maxBacklog l \<le> 2 ^ 53" and "int (length (r_stream R r (eventStream l))) + 2 \<le> maxBacklog l"
    and "0 < m" and "m \<le> Limit p" and "0 < n" and "n \<le> Limit p"
    and "n * millisecondsRoundedUp (Window p) \<le> (unix_ms t0 - unix_ms t1) * Limit p"
    and "(unix_ms t0 - unix_ms t1) * Limit p \<le> 2 ^ 53"
    and "qs = [\<lparr>q_ctx = None, q_now = t0, q_key = k, q_cost = Limit p\<rparr>, \<lparr>q_ctx = None, q_now = t1, q_key = k, q_cost = m\<rparr>,
      \<lparr>q_ctx = None, q_now = t0, q_key = k, q_cost = n\<rparr>]"
    and "run_redis R l r (map (\<lambda>q. (q, Delivered)) qs) = (r', rs)"
  shows "(\<exists>d1 d2 d3. rs = [Ok d1, Ok d2, Ok d3] \<and> Allowed d1 \<and> \<not> Allowed d2 \<and> Allowed d3) \<and>
    approved_cost (\<lambda>t. t = t0) k qs rs = Limit p + n"
proof -
  have p: "rtb_pol l k = Some p" using assms(4) by (simp add: rtb_pol_def)
  obtain r1 d1 r2 d2 r3 d3 where "Redis_Allow R l Delivered r None t0 k (Limit p) = (r1, Ok d1)"
    "Redis_Allow R l Delivered r1 None t1 k m = (r2, Ok d2)" "Redis_Allow R l Delivered r2 None t0 k n = (r3, Ok d3)"
    "Allowed d1" "\<not> Allowed d2" "Allowed d3"
    using redis_limiter.clock_back [OF redis_limiterI [OF assms(1,2)] assms(3) p assms(5-16)] by blast
  then show ?thesis using assms(17,18) by auto
qed

text \<open>Ten tokens per minute: ten spent at second 60, a denial at second 30, and five more at second 60.\<close>

theorem redis_clock_back_refills_witness:
  "approved_cost (\<lambda>t. t = ex_at 60) ex_key [ex_req (ex_at 60) 10, ex_req (ex_at 30) 5, ex_req (ex_at 60) 5]
     (snd (run_redis mem_ops ex_rtb ex_redis
       (map (\<lambda>q. (q, Delivered)) [ex_req (ex_at 60) 10, ex_req (ex_at 30) 5, ex_req (ex_at 60) 5]))) = 15"
proof -
  let ?qs = "[ex_req (ex_at 60) 10, ex_req (ex_at 30) 5, ex_req (ex_at 60) 5]"
  obtain r' rs where run: "run_redis mem_ops ex_rtb ex_redis (map (\<lambda>q. (q, Delivered)) ?qs) = (r', rs)" by force
  have t: "time_ok (ex_at 60)" "unix_ms (ex_at 60) = 60000" "time_ok (ex_at 30)" "unix_ms (ex_at 30) = 30000"
    using ex_at [of 60] ex_at [of 30] by simp_all
  have p: "map_of (rtb_policies ex_rtb) ex_key = Some ex_p" using ex_policy(1) by (simp add: rtb_pol_def)
  have l0: "length (r_stream mem_ops ex_redis (eventStream ex_rtb)) = 0" "maxBacklog ex_rtb = 2"
    by (simp_all add: mem_ops_def mem_stream_def ex_redis_def ex_rtb_def)
  have "(\<exists>d1 d2 d3. rs = [Ok d1, Ok d2, Ok d3] \<and> Allowed d1 \<and> \<not> Allowed d2 \<and> Allowed d3) \<and>
      approved_cost (\<lambda>t. t = ex_at 60) ex_key ?qs rs = Limit ex_p + 5"
    by (rule redis_clock_back_refills [OF mem.redis_server_axioms ex_rtb_ok ex_redis_ok p ex_bucket_none t(1,3) _ _ _ _ _ _ _ _ _ _ run,
          of 5]) (simp_all only: t l0 ex_policy ex_req_def, simp_all)
  then show ?thesis using run by (simp add: ex_policy)
qed


end
