(* ===== verification/GoStrings.thy ===== *)
theory GoStrings
  imports LuaNumber GoTime
begin

text \<open>
  What the program uses of Go's \<open>strconv\<close>, \<open>strings\<close> and \<open>time.ParseDuration\<close>. A Go string is
  its list of bytes; a byte is a \<open>char\<close>.
\<close>

section \<open>Integers and booleans\<close>

text \<open>\<open>strconv.ParseInt(s, 10, 64)\<close>; \<open>strconv.Atoi\<close> is the same function where \<open>int\<close> has 64 bits.\<close>

datatype parse_error = ErrSyntax | ErrRange

definition ParseInt :: "string \<Rightarrow> (parse_error, int) result" where
  "ParseInt s =
     (let (sg, ds) = split_sign s
      in if ds = [] \<or> \<not> list_all is_digit ds then Err ErrSyntax
         else let n = sg * int (digits_val ds)
              in if in64 n then Ok n else Err ErrRange)"

definition Atoi :: "string \<Rightarrow> (parse_error, int) result" where
  "Atoi s = ParseInt s"

definition ParseBool :: "string \<Rightarrow> bool option" where
  "ParseBool s =
     (if s \<in> {''1'', ''t'', ''T'', ''true'', ''TRUE'', ''True''} then Some True
      else if s \<in> {''0'', ''f'', ''F'', ''false'', ''FALSE'', ''False''} then Some False
      else None)"

lemma ParseInt_nat_string: "int n \<le> max_int64 \<Longrightarrow> ParseInt (nat_string n) = Ok (int n)"
proof -
  assume n: "int n \<le> max_int64"
  have "split_sign (nat_string n) = (1, nat_string n)"
    using split_sign_digits [of 1 "nat_string n"] nat_string_digits [of "hd (nat_string n)" n] by (simp add: sign_string_def)
  moreover have "list_all is_digit (nat_string n)" by (simp add: list_all_iff)
  ultimately show ?thesis using n by (simp add: ParseInt_def in64_def min_int64_def)
qed

lemma ParseInt_in64: "ParseInt s = Ok n \<Longrightarrow> in64 n"
  by (auto simp: ParseInt_def Let_def split: prod.splits if_splits)

section \<open>Cutting, splitting and trimming\<close>

text \<open>\<open>strings.Cut\<close> at the first dash.\<close>

definition Cut_dash :: "string \<Rightarrow> string \<times> string \<times> bool" where
  "Cut_dash s =
     (let rest = dropWhile (\<lambda>c. c \<noteq> CHR ''-'') s
      in (takeWhile (\<lambda>c. c \<noteq> CHR ''-'') s, tl rest, rest \<noteq> []))"

text \<open>\<open>strings.Split\<close> with a one-byte separator.\<close>

fun Split :: "char \<Rightarrow> string \<Rightarrow> string list" where
  "Split sep [] = [[]]"
| "Split sep (c # s) =
     (if c = sep then [] # Split sep s
      else case Split sep s of part # parts \<Rightarrow> (c # part) # parts | [] \<Rightarrow> [[c]])"

text \<open>The UTF-8 encodings of the characters that \<open>unicode.IsSpace\<close> accepts.\<close>

definition utf8_spaces :: "string list" where
  "utf8_spaces = map (map char_of)
     ([[9], [10], [11], [12], [13], [32], [0xC2, 0x85], [0xC2, 0xA0], [0xE1, 0x9A, 0x80]] @
      map (\<lambda>b. [0xE2, 0x80, b]) [0x80, 0x81, 0x82, 0x83, 0x84, 0x85, 0x86, 0x87, 0x88, 0x89, 0x8A, 0xA8, 0xA9, 0xAF] @
      [[0xE2, 0x81, 0x9F], [0xE3, 0x80, 0x80 :: nat]])"

text \<open>Removes prefixes as long as one of \<open>ps\<close> fits.\<close>

function trim_left :: "string list \<Rightarrow> string \<Rightarrow> string" where
  "trim_left ps s =
     (case find (\<lambda>p. p \<noteq> [] \<and> take (length p) s = p) ps of
        None \<Rightarrow> s
      | Some p \<Rightarrow> trim_left ps (drop (length p) s))"
  by auto
termination
proof (relation "measure (length \<circ> snd)")
  fix ps s p assume "find (\<lambda>p. p \<noteq> [] \<and> take (length p) s = p) ps = Some p"
  then have "p \<noteq> []" "take (length p) s = p" by (auto simp: find_Some_iff)
  then show "((ps, drop (length p) s), ps, s) \<in> measure (length \<circ> snd)" by (cases s) auto
qed simp

declare trim_left.simps [simp del]

definition TrimSpace :: "string \<Rightarrow> string" where
  "TrimSpace s =
     (let t = trim_left utf8_spaces s
      in rev (trim_left (map rev utf8_spaces) (rev t)))"

lemma trim_left_suffix: "\<exists>u. s = u @ trim_left ps s"
proof (induction ps s rule: trim_left.induct)
  case (1 ps s)
  show ?case
  proof (cases "find (\<lambda>p. p \<noteq> [] \<and> take (length p) s = p) ps")
    case (Some p)
    then obtain u where "drop (length p) s = u @ trim_left ps (drop (length p) s)" using 1 by blast
    then have "s = (take (length p) s @ u) @ trim_left ps s"
      using Some by (simp add: trim_left.simps [of ps s])
    then show ?thesis by blast
  qed (simp add: trim_left.simps)
qed

lemma trim_left_idle: "(\<And>p. p \<in> set ps \<Longrightarrow> p \<noteq> [] \<Longrightarrow> take (length p) s \<noteq> p) \<Longrightarrow> trim_left ps s = s"
proof -
  assume "\<And>p. p \<in> set ps \<Longrightarrow> p \<noteq> [] \<Longrightarrow> take (length p) s \<noteq> p"
  then have "find (\<lambda>p. p \<noteq> [] \<and> take (length p) s = p) ps = None" by (auto simp: find_None_iff)
  then show ?thesis by (simp add: trim_left.simps)
qed

text \<open>A string that neither starts nor ends with a space is not changed.\<close>

definition trimmed :: "string \<Rightarrow> bool" where
  "trimmed s \<longleftrightarrow>
     list_all (\<lambda>p. take (length p) s \<noteq> p \<and> take (length p) (rev s) \<noteq> rev p) utf8_spaces"

lemma TrimSpace_trimmed: "trimmed s \<Longrightarrow> TrimSpace s = s"
proof -
  assume t: "trimmed s"
  have "trim_left utf8_spaces s = s" "trim_left (map rev utf8_spaces) (rev s) = rev s"
    using t by (auto intro!: trim_left_idle simp: trimmed_def list_all_iff)
  then show ?thesis by (simp add: TrimSpace_def)
qed

text \<open>No visible ASCII character is a byte of a space, so most strings are seen to be trimmed at once.\<close>

definition visible :: "char \<Rightarrow> bool" where
  "visible c \<longleftrightarrow> 33 \<le> (of_char c :: nat) \<and> (of_char c :: nat) < 128"

lemma utf8_spaces_invisible: "p \<in> set utf8_spaces \<Longrightarrow> p \<noteq> [] \<and> (\<forall>c \<in> set p. \<not> visible c)"
  by (auto simp: utf8_spaces_def visible_def)

lemma trimmed_visible:
  assumes "s \<noteq> []" "visible (hd s)" "visible (last s)"
  shows "trimmed s"
  unfolding trimmed_def list_all_iff
proof (intro ballI conjI notI)
  fix p assume p: "p \<in> set utf8_spaces"
  then have ne: "p \<noteq> []" "\<And>c. c \<in> set p \<Longrightarrow> \<not> visible c" using utf8_spaces_invisible by auto
  show False if "take (length p) s = p"
    using ne(2) [of "hd s"] ne(1) that assms(1,2) by (metis hd_take hd_in_set length_greater_0_conv)
  show False if "take (length p) (rev s) = rev p"
  proof -
    have "hd (rev s) = hd (rev p)" using that ne(1) by (metis hd_take length_greater_0_conv)
    then have "last s = last p" by (simp add: hd_rev)
    then show False using ne assms(3) by (metis last_in_set)
  qed
qed

lemma Split_nonempty [simp]: "Split sep s \<noteq> []"
  by (cases s) (auto split: list.splits)

lemma Split_single: "sep \<notin> set s \<Longrightarrow> Split sep s = [s]"
  by (induction s) auto

lemma Split_append: "sep \<notin> set s \<Longrightarrow> Split sep (s @ sep # t) = s # Split sep t"
  by (induction s) auto

text \<open>\<open>strings.Join\<close> with the same separator.\<close>

fun Join :: "char \<Rightarrow> string list \<Rightarrow> string" where
  "Join sep [] = []"
| "Join sep [s] = s"
| "Join sep (s # t # ss) = s @ sep # Join sep (t # ss)"

lemma Split_Join: "ss \<noteq> [] \<Longrightarrow> (\<And>s. s \<in> set ss \<Longrightarrow> sep \<notin> set s) \<Longrightarrow> Split sep (Join sep ss) = ss"
  by (induction sep ss rule: Join.induct) (auto simp: Split_single Split_append)

section \<open>Durations\<close>

text \<open>
  \<open>time.ParseDuration\<close>, function by function: \<open>leadingInt\<close>, \<open>leadingFraction\<close> and the loop over
  the segments. Numbers are 64-bit unsigned with the checks of the library, the fraction is
  computed in binary64. The error texts are not distinguished.
\<close>

fun leadingInt :: "nat \<Rightarrow> string \<Rightarrow> (nat \<times> string) option" where
  "leadingInt x [] = Some (x, [])"
| "leadingInt x (c # s) =
     (if \<not> is_digit c then Some (x, c # s)
      else if x > 2 ^ 63 div 10 then None
      else let x' = x * 10 + digit_val c
           in if x' > 2 ^ 63 then None else leadingInt x' s)"

fun leadingFraction :: "nat \<Rightarrow> rat \<Rightarrow> bool \<Rightarrow> string \<Rightarrow> nat \<times> rat \<times> string" where
  "leadingFraction x scale overflow [] = (x, scale, [])"
| "leadingFraction x scale overflow (c # s) =
     (if \<not> is_digit c then (x, scale, c # s)
      else if overflow then leadingFraction x scale True s
      else if x > (2 ^ 63 - 1) div 10 then leadingFraction x scale True s
      else let y = x * 10 + digit_val c
           in if y > 2 ^ 63 then leadingFraction x scale True s
              else leadingFraction y (fmul scale 10) False s)"

definition unitMap :: "string \<Rightarrow> nat option" where
  "unitMap = [''ns'' \<mapsto> 1, ''us'' \<mapsto> 1000, char_of (0xC2::nat) # char_of (0xB5::nat) # ''s'' \<mapsto> 1000,
     char_of (0xCE::nat) # char_of (0xBC::nat) # ''s'' \<mapsto> 1000,
     ''ms'' \<mapsto> 1000000, ''s'' \<mapsto> 1000000000, ''m'' \<mapsto> 60 * 1000000000, ''h'' \<mapsto> 3600 * 1000000000]"

definition in_number :: "char \<Rightarrow> bool" where
  "in_number c \<longleftrightarrow> c = CHR ''.'' \<or> is_digit c"

text \<open>The optional fraction: its digits as a number, its scale, whether it had digits, the rest.\<close>

definition fraction_part :: "string \<Rightarrow> nat \<times> rat \<times> bool \<times> string" where
  "fraction_part s =
     (case s of
        c # s1 \<Rightarrow>
          if c = CHR ''.''
          then let (f, scale, s2) = leadingFraction 0 1 False s1 in (f, scale, length s1 \<noteq> length s2, s2)
          else (0, 1, False, s)
      | [] \<Rightarrow> (0, 1, False, s))"

text \<open>One number with its unit; \<open>v\<close> is its value in nanoseconds.\<close>

definition duration_segment :: "string \<Rightarrow> (nat \<times> string) option" where
  "duration_segment s =
     (if s = [] \<or> \<not> in_number (hd s) then None
      else case leadingInt 0 s of
        None \<Rightarrow> None
      | Some (v, s1) \<Rightarrow>
          let (f, scale, post, s2) = fraction_part s1;
              u = takeWhile (\<lambda>c. \<not> in_number c) s2;
              s3 = dropWhile (\<lambda>c. \<not> in_number c) s2
          in if length s = length s1 \<and> \<not> post then None
             else if u = [] then None
             else case unitMap u of
               None \<Rightarrow> None
             | Some unit \<Rightarrow>
                 if v > 2 ^ 63 div unit then None
                 else let v1 = v * unit;
                          v2 = (if f > 0 then v1 + nat \<lfloor>fmul (float64 (int f)) (fdiv (float64 (int unit)) scale)\<rfloor> else v1)
                      in if v2 > 2 ^ 63 then None else Some (v2, s3))"

lemma leadingInt_length: "leadingInt x s = Some (v, s') \<Longrightarrow> length s' \<le> length s"
  by (induction x s rule: leadingInt.induct) (auto simp: Let_def split: if_splits)

lemma leadingFraction_length: "leadingFraction x sc ov s = (f, sc', s') \<Longrightarrow> length s' \<le> length s"
  by (induction x sc ov s rule: leadingFraction.induct) (auto simp: Let_def split: if_splits)

lemma fraction_part_length: "fraction_part s = (f, sc, post, s') \<Longrightarrow> length s' \<le> length s"
  by (auto simp: fraction_part_def Let_def dest!: leadingFraction_length split: list.splits if_splits prod.splits)

lemma duration_segment_length: "duration_segment s = Some (v, s') \<Longrightarrow> length s' < length s"
proof -
  assume a: "duration_segment s = Some (v, s')"
  then obtain w s1 where l: "leadingInt 0 s = Some (w, s1)"
    by (auto simp: duration_segment_def split: if_splits option.splits)
  obtain f sc post s2 where f: "fraction_part s1 = (f, sc, post, s2)" by (metis prod.exhaust)
  have s': "s' = dropWhile (\<lambda>c. \<not> in_number c) s2" "takeWhile (\<lambda>c. \<not> in_number c) s2 \<noteq> []"
    using a l f by (auto simp: duration_segment_def Let_def split: if_splits option.splits)
  have "length s' + length (takeWhile (\<lambda>c. \<not> in_number c) s2) = length s2"
    unfolding s'(1) by (metis add.commute length_append takeWhile_dropWhile_id)
  moreover have "0 < length (takeWhile (\<lambda>c. \<not> in_number c) s2)" using s'(2) by blast
  ultimately show ?thesis using leadingInt_length [OF l] fraction_part_length [OF f] by linarith
qed

function duration_loop :: "nat \<Rightarrow> string \<Rightarrow> nat option" where
  "duration_loop d s =
     (if s = [] then Some d
      else case duration_segment s of
        None \<Rightarrow> None
      | Some (v, s') \<Rightarrow>
          let d' = (d + v) mod 2 ^ 64
          in if d' > 2 ^ 63 then None else duration_loop d' s')"
  by auto
termination
  by (relation "measure (length \<circ> snd)") (auto dest: duration_segment_length)

declare duration_loop.simps [simp del]

definition ParseDuration :: "string \<Rightarrow> duration option" where
  "ParseDuration s0 =
     (let neg = (s0 \<noteq> [] \<and> hd s0 = CHR ''-'');
          s = (if s0 \<noteq> [] \<and> (hd s0 = CHR ''-'' \<or> hd s0 = CHR ''+'') then tl s0 else s0)
      in if s = ''0'' then Some 0
         else if s = [] then None
         else case duration_loop 0 s of
           None \<Rightarrow> None
         | Some d \<Rightarrow>
             if neg then Some (wrap64 (- wrap64 (int d)))
             else if d > 2 ^ 63 - 1 then None
             else Some (int d))"

lemma ParseDuration_in64: "ParseDuration s = Some d \<Longrightarrow> in64 d"
proof -
  have "in64 (int x)" if "x \<le> 2 ^ 63 - 1" for x
    using that by (simp add: in64_def min_int64_def max_int64_def)
  then show "ParseDuration s = Some d \<Longrightarrow> in64 d"
    by (auto simp: ParseDuration_def Let_def in64_wrap64 not_less in64_def [of 0] min_int64_def max_int64_def
        simp del: wrap64_id split: option.splits if_splits)
qed

text \<open>A whole number of units is read exactly.\<close>

lemma leadingInt_digits:
  assumes "list_all is_digit ds" "rest = [] \<or> \<not> is_digit (hd rest)"
    "x * 10 ^ length ds + digits_val ds \<le> 2 ^ 63"
  shows "leadingInt x (ds @ rest) = Some (x * 10 ^ length ds + digits_val ds, rest)"
  using assms
proof (induction ds arbitrary: x)
  case Nil
  then show ?case by (cases rest) auto
next
  case (Cons c ds)
  have dv: "digits_val (c # ds) = digit_val c * 10 ^ length ds + digits_val ds"
    using digits_val_append [of "[c]" ds] digits_val_snoc [of "[]" c] by simp
  let ?x = "x * 10 + digit_val c"
  have eq: "?x * 10 ^ length ds + digits_val ds = x * 10 ^ length (c # ds) + digits_val (c # ds)"
    by (simp add: dv add_mult_distrib)
  then have le: "?x * 10 ^ length ds + digits_val ds \<le> 2 ^ 63" using Cons.prems(3) by (simp only:)
  then have "?x * 1 \<le> 2 ^ 63" by (meson add_leD1 le_trans mult_le_mono2 one_le_numeral one_le_power)
  then have x: "\<not> 2 ^ 63 div 10 < x" "\<not> 2 ^ 63 < ?x" by simp_all
  have c: "is_digit c" "list_all is_digit ds" using Cons.prems(1) by simp_all
  show ?case
    unfolding append_Cons leadingInt.simps Let_def using x c Cons.IH [OF c(2) Cons.prems(2) le]
    by (simp only: not_True_eq_False if_False eq)
qed

lemma ParseDuration_unit:
  assumes u: "unitMap u = Some unit" "list_all (\<lambda>c. \<not> in_number c) u" and n: "n * unit \<le> 2 ^ 63 - 1" "0 < n"
  shows "ParseDuration (nat_string n @ u) = Some (int (n * unit))"
proof -
  have unit: "0 < unit" "u \<noteq> []" using u(1) by (auto simp: unitMap_def split: if_splits)
  let ?s = "nat_string n @ u"
  have d: "is_digit (hd ?s)" "list_all is_digit (nat_string n)"
    using nat_string_digits [of "hd (nat_string n)" n] by (auto simp: list_all_iff)
  have nb: "n \<le> 2 ^ 63 div unit" using n(1) unit(1) by (simp add: less_eq_div_iff_mult_less_eq)
  then have n63: "n \<le> 2 ^ 63" using div_le_dividend le_trans by blast
  have hu: "hd u \<noteq> CHR ''.''" "\<not> is_digit (hd u)" using u(2) unit(2) by (cases u; simp add: in_number_def)+
  have "leadingInt 0 ?s = Some (n, u)"
    using leadingInt_digits [OF d(2), of u 0] hu n63 by simp
  moreover have "fraction_part u = (0, 1, False, u)" using hu by (auto simp: fraction_part_def split: list.splits)
  moreover have tw: "takeWhile (\<lambda>c. \<not> in_number c) u = u" "dropWhile (\<lambda>c. \<not> in_number c) u = []"
    using u(2) by (auto simp: list_all_iff takeWhile_eq_all_conv)
  moreover have "in_number (hd ?s)" using d(1) by (simp add: in_number_def)
  ultimately have "duration_segment ?s = Some (n * unit, [])"
    using u(1) unit nb n(1) by (simp add: duration_segment_def tw)
  then have "duration_loop 0 ?s = Some (n * unit)"
    using n(1) by (simp add: duration_loop.simps [of 0 ?s] duration_loop.simps [of _ "[]"])
  moreover have "hd ?s \<noteq> CHR ''-''" "hd ?s \<noteq> CHR ''+''" "?s \<noteq> ''0''"
    using d(1) hu unit(2) by (auto simp: is_digit_def append_eq_Cons_conv)
  ultimately show ?thesis using n(1) by (simp add: ParseDuration_def Let_def)
qed

end
