(* ===== verification/CircuitBreaker.thy ===== *)
theory CircuitBreaker
  imports RateLimiter
begin

text \<open>
  The circuit breaker of \<open>internal/ratelimiter/circuit-breaker.go\<close>. The breaker's own state
  is the record \<open>CircuitBreakerLimiter\<close>; the wrapped \<open>Limiter\<close> is an argument. The code holds
  the mutex in \<open>startRequest\<close> and in the record functions, not during the wrapped call, so
  a request is two steps (\<open>startRequest\<close>, \<open>finishRequest\<close>) between which others may run:
  \<open>CircuitBreaker_Allow\<close> is one request alone, \<open>cb_step\<close> is the interleaving of many.
  Each step reads the clock at a time given as argument.
\<close>

section \<open>Definitions\<close>

record CircuitBreakerConfig =
  FailureThreshold :: int
  OpenTimeout :: duration
  DecisionTimeout :: duration

datatype circuitState = circuitClosed | circuitOpen | circuitHalfOpen

record CircuitBreakerLimiter =
  cb_config :: CircuitBreakerConfig
  cb_state :: circuitState
  failures :: int
  openedAt :: go_time
  probeRunning :: bool

datatype breaker_config_error =
  ErrLimiterRequired | ErrFailureThreshold | ErrOpenTimeout | ErrDecisionTimeout

definition NewCircuitBreakerLimiter ::
  "bool \<Rightarrow> CircuitBreakerConfig \<Rightarrow> (breaker_config_error, CircuitBreakerLimiter) result" where
  "NewCircuitBreakerLimiter has_limiter cfg =
     (if \<not> has_limiter then Err ErrLimiterRequired
      else if FailureThreshold cfg \<le> 0 then Err ErrFailureThreshold
      else if OpenTimeout cfg \<le> 0 then Err ErrOpenTimeout
      else if DecisionTimeout cfg \<le> 0 then Err ErrDecisionTimeout
      else Ok \<lparr>cb_config = cfg, cb_state = circuitClosed, failures = 0, openedAt = 0, probeRunning = False\<rparr>)"

definition Ready :: "CircuitBreakerLimiter \<Rightarrow> go_time \<Rightarrow> bool" where
  "Ready l now \<longleftrightarrow> cb_state l \<noteq> circuitOpen \<or> time_Sub now (openedAt l) \<ge> OpenTimeout (cb_config l)"

definition startRequest :: "CircuitBreakerLimiter \<Rightarrow> go_time \<Rightarrow> CircuitBreakerLimiter \<times> bool" where
  "startRequest l now =
     (if cb_state l = circuitClosed then (l, True)
      else if cb_state l = circuitOpen \<and> time_Sub now (openedAt l) < OpenTimeout (cb_config l) then (l, False)
      else
        let l1 = (if cb_state l = circuitOpen then l\<lparr>cb_state := circuitHalfOpen\<rparr> else l)
        in if probeRunning l1 then (l1, False) else (l1\<lparr>probeRunning := True\<rparr>, True))"

definition recordSuccess :: "CircuitBreakerLimiter \<Rightarrow> CircuitBreakerLimiter" where
  "recordSuccess l = l\<lparr>cb_state := circuitClosed, failures := 0, probeRunning := False\<rparr>"

definition breaker_open :: "CircuitBreakerLimiter \<Rightarrow> go_time \<Rightarrow> CircuitBreakerLimiter" where
  "breaker_open l now = l\<lparr>cb_state := circuitOpen, openedAt := now\<rparr>"

definition recordFailure :: "CircuitBreakerLimiter \<Rightarrow> go_time \<Rightarrow> CircuitBreakerLimiter" where
  "recordFailure l now =
     (let l1 = l\<lparr>probeRunning := False\<rparr>
      in if cb_state l1 = circuitHalfOpen then breaker_open l1 now
         else let l2 = l1\<lparr>failures := add64 (failures l1) 1\<rparr>
              in if failures l2 \<ge> FailureThreshold (cb_config l2) then breaker_open l2 now else l2)"

definition cancelProbe :: "CircuitBreakerLimiter \<Rightarrow> CircuitBreakerLimiter" where
  "cancelProbe l =
     (let l1 = (if cb_state l = circuitHalfOpen then l\<lparr>cb_state := circuitOpen\<rparr> else l)
      in l1\<lparr>probeRunning := False\<rparr>)"

definition isRequestError :: "limiter_error \<Rightarrow> bool" where
  "isRequestError err \<longleftrightarrow>
     errors_Is err ErrInvalidCost \<or> errors_Is err ErrCostExceedsLimit \<or>
     errors_Is err ErrNoPolicy \<or> errors_Is err ErrEventBacklogFull"

text \<open>
  The part of \<open>Allow\<close> after the wrapped call: \<open>late\<close> is the caller's \<open>ctx.Err()\<close> by then and
  \<open>now\<close> the time at which the outcome is recorded.
\<close>

definition finishRequest ::
  "CircuitBreakerLimiter \<Rightarrow> (limiter_error, Decision) result \<Rightarrow> ctx_error option \<Rightarrow> go_time \<Rightarrow>
   CircuitBreakerLimiter \<times> (limiter_error, Decision) result" where
  "finishRequest l r late now =
     (case r of
        Inr decision \<Rightarrow> (recordSuccess l, Ok decision)
      | Inl err \<Rightarrow>
          if isRequestError err \<or> late \<noteq> None then (cancelProbe l, Err err)
          else (recordFailure l now, Err (ErrUnavailable (Some err))))"

text \<open>
  One request with nothing else running. The decision context has the caller's deadline and
  \<open>DecisionTimeout\<close>; what the wrapped limiter does with it is the limiter's.
\<close>

definition CircuitBreaker_Allow ::
  "'st allow_fun \<Rightarrow> ctx_error option \<Rightarrow> go_time \<Rightarrow> (CircuitBreakerLimiter \<times> 'st) allow_fun" where
  "CircuitBreaker_Allow allow late finished st ctx now key cost =
     (let (l1, started) = startRequest (fst st) now
      in if \<not> started then ((l1, snd st), Err (ErrUnavailable None))
         else let (inner, r) = allow (snd st) ctx now key cost;
                  (l2, r') = finishRequest l1 r late finished
              in ((l2, inner), r'))"

section \<open>Many requests at once\<close>

text \<open>
  The requests in flight, each with the time it was admitted and whether it was admitted as
  the probe of a circuit that is not closed. A step is one critical section of the mutex: a
  request is admitted or refused by \<open>startRequest\<close>, or one in flight ends with the outcome \<open>r\<close> of
  its wrapped call and the caller's context error, and is answered \<open>r'\<close>. The clock is read inside the
  critical section and does not go back.
\<close>

record flight =
  admitted :: go_time
  probe :: bool

record breaker_system =
  breaker :: CircuitBreakerLimiter
  flights :: "flight list"
  clock :: go_time

datatype cb_event =
    Admit
  | Refuse
  | Finish "(limiter_error, Decision) result" "ctx_error option" "(limiter_error, Decision) result"

inductive cb_step :: "breaker_system \<Rightarrow> cb_event \<Rightarrow> breaker_system \<Rightarrow> bool" where
  admit: "\<lbrakk>clock s \<le> t; startRequest (breaker s) t = (l, True)\<rbrakk> \<Longrightarrow>
    cb_step s Admit \<lparr>breaker = l,
      flights = flights s @ [\<lparr>admitted = t, probe = (cb_state (breaker s) \<noteq> circuitClosed)\<rparr>], clock = t\<rparr>"
| refuse: "\<lbrakk>clock s \<le> t; startRequest (breaker s) t = (l, False)\<rbrakk> \<Longrightarrow>
    cb_step s Refuse \<lparr>breaker = l, flights = flights s, clock = t\<rparr>"
| finish: "\<lbrakk>clock s \<le> t; flights s = fs @ f # gs; finishRequest (breaker s) r late t = (l, r')\<rbrakk> \<Longrightarrow>
    cb_step s (Finish r late r') \<lparr>breaker = l, flights = fs @ gs, clock = t\<rparr>"

inductive_cases cb_stepE: "cb_step s e s'"

text \<open>A run with its events in order.\<close>

inductive cb_run :: "breaker_system \<Rightarrow> cb_event list \<Rightarrow> breaker_system \<Rightarrow> bool" where
  cb_run_Nil: "cb_run s [] s"
| cb_run_Cons: "cb_step s e s' \<Longrightarrow> cb_run s' es s'' \<Longrightarrow> cb_run s (e # es) s''"

inductive_cases cb_run_ConsE: "cb_run s (e # es) s'"

text \<open>
  The runs of \<open>n\<close> steps in which every wrapped call ends at most \<open>limit\<close> after its admission: no
  step happens later than that while the request is still in flight. The code asks for this with
  the deadline of the call's context; it does not enforce it.
\<close>

definition in_time :: "duration \<Rightarrow> flight list \<Rightarrow> go_time \<Rightarrow> bool" where
  "in_time limit fs t \<longleftrightarrow> (\<forall>f \<in> set fs. t \<le> admitted f + limit)"

inductive cb_reach :: "duration \<Rightarrow> breaker_system \<Rightarrow> nat \<Rightarrow> breaker_system \<Rightarrow> bool" for limit s where
  start: "cb_reach limit s 0 s"
| more: "cb_reach limit s n s' \<Longrightarrow> cb_step s' e s'' \<Longrightarrow> in_time limit (flights s') (clock s'') \<Longrightarrow>
    cb_reach limit s (Suc n) s''"

section \<open>The state machine\<close>

text \<open>
  The invariant of every step: a probe runs exactly in the half-open state, and the circuit
  is closed exactly while fewer failures than the threshold are counted.
\<close>

definition breaker_ok :: "CircuitBreakerLimiter \<Rightarrow> bool" where
  "breaker_ok l \<longleftrightarrow>
     0 < FailureThreshold (cb_config l) \<and> 0 < OpenTimeout (cb_config l) \<and> in64 (OpenTimeout (cb_config l)) \<and>
     0 \<le> failures l \<and> (probeRunning l \<longleftrightarrow> cb_state l = circuitHalfOpen) \<and>
     (cb_state l = circuitClosed \<longleftrightarrow> failures l < FailureThreshold (cb_config l))"

lemmas breaker_defs =
  startRequest_def finishRequest_def recordSuccess_def recordFailure_def cancelProbe_def breaker_open_def

lemma time_Sub_less: "0 < d \<Longrightarrow> in64 d \<Longrightarrow> time_Sub a b < d \<longleftrightarrow> a - b < d"
  by (auto simp: time_Sub_def saturate64_def in64_def min_int64_def max_int64_def)

lemma startRequest_config [simp]: "cb_config (fst (startRequest l t)) = cb_config l"
  by (simp add: startRequest_def Let_def)

lemma finishRequest_config [simp]: "cb_config (fst (finishRequest l r late t)) = cb_config l"
  by (simp add: breaker_defs Let_def split: sum.split)

lemma startRequest_failures [simp]:
  "failures (fst (startRequest l t)) = failures l" "openedAt (fst (startRequest l t)) = openedAt l"
  by (simp_all add: startRequest_def Let_def)

lemma startRequest_ok: "breaker_ok l \<Longrightarrow> breaker_ok (fst (startRequest l t))"
  by (cases "cb_state l") (auto simp: startRequest_def breaker_ok_def Let_def)

lemma finishRequest_ok:
  "breaker_ok l \<Longrightarrow> failures l < max_int64 \<Longrightarrow> breaker_ok (fst (finishRequest l r late t))"
  by (cases "cb_state l") (auto simp: breaker_defs breaker_ok_def Let_def add64_id in64_def min_int64_def split: sum.splits)

lemma finishRequest_failures:
  "0 \<le> failures l \<Longrightarrow> failures l < max_int64 \<Longrightarrow> failures (fst (finishRequest l r late t)) \<le> failures l + 1"
  by (auto simp: breaker_defs Let_def add64_id in64_def min_int64_def split: sum.splits)


lemma New_breaker_ok:
  assumes "NewCircuitBreakerLimiter b cfg = Ok l" "in64 (OpenTimeout cfg)"
  shows "breaker_ok l" and "cb_config l = cfg" and "cb_state l = circuitClosed" and "failures l = 0"
  using assms by (auto simp: NewCircuitBreakerLimiter_def breaker_ok_def split: if_splits)

lemma startRequest_closed: "cb_state l = circuitClosed \<Longrightarrow> startRequest l t = (l, True)"
  by (simp add: startRequest_def)

lemma startRequest_open:
  assumes "breaker_ok l" "cb_state l = circuitOpen"
  shows "startRequest l t =
    (if t - openedAt l < OpenTimeout (cb_config l) then (l, False)
     else (l\<lparr>cb_state := circuitHalfOpen, probeRunning := True\<rparr>, True))"
  using assms by (simp add: startRequest_def breaker_ok_def time_Sub_less)

lemma startRequest_half_open:
  assumes "breaker_ok l" "cb_state l = circuitHalfOpen"
  shows "startRequest l t = (l, False)"
  using assms by (simp add: startRequest_def breaker_ok_def)

lemmas startRequest_cases = startRequest_closed startRequest_open startRequest_half_open

text \<open>
  Admission. In every state the breaker reaches, \<open>startRequest\<close> admits a request exactly
  when \<open>Ready\<close> holds and no probe is running; a refused request changes nothing, and \<open>Allow\<close>
  then answers \<open>ErrUnavailable\<close> at once, without a call of the wrapped limiter.
\<close>

theorem cb_admission:
  assumes "breaker_ok l"
  shows "(snd (startRequest l now) \<longleftrightarrow> Ready l now \<and> cb_state l \<noteq> circuitHalfOpen) \<and>
    (\<not> snd (startRequest l now) \<longrightarrow>
      CircuitBreaker_Allow allow late finished (l, st) ctx now key cost = ((l, st), Err (ErrUnavailable None)))"
  using assms
  by (cases "cb_state l")
    (auto simp: startRequest_cases Ready_def CircuitBreaker_Allow_def breaker_ok_def time_Sub_less
      simp flip: not_less)

definition ex_decision :: "go_time \<Rightarrow> Decision" where
  "ex_decision t = \<lparr>Allowed = True, DLimit = 3, Remaining = 1, ResetAt = t, RetryAfterMS = 0\<rparr>"

definition ex_breaker :: "duration \<Rightarrow> CircuitBreakerLimiter" where
  "ex_breaker d =
     \<lparr>cb_config = \<lparr>FailureThreshold = 1, OpenTimeout = 5 * Second, DecisionTimeout = d\<rparr>,
      cb_state = circuitClosed, failures = 0, openedAt = 0, probeRunning = False\<rparr>"

lemma ex_breaker_new:
  "0 < d \<Longrightarrow> NewCircuitBreakerLimiter True
     \<lparr>FailureThreshold = 1, OpenTimeout = 5 * Second, DecisionTimeout = d\<rparr> = Ok (ex_breaker d)"
  by (simp add: NewCircuitBreakerLimiter_def ex_breaker_def Second_def)

lemma ex_breaker_ok: "breaker_ok (ex_breaker d)"
  by (simp add: breaker_ok_def ex_breaker_def Second_def in64_def min_int64_def max_int64_def)

theorem cb_admission_witness:
  "snd (startRequest (breaker_open (ex_breaker 1\<lparr>failures := 1\<rparr>) 0) (4 * Second)) = False \<and>
   CircuitBreaker_Allow (\<lambda>st c t k n. (Suc st, Err (ErrRedis ''down''))) None (4 * Second)
     (breaker_open (ex_breaker 1\<lparr>failures := 1\<rparr>) 0, 0) None (4 * Second) ex_key 1 =
     ((breaker_open (ex_breaker 1\<lparr>failures := 1\<rparr>) 0, 0), Err (ErrUnavailable None))"
proof -
  let ?l = "breaker_open (ex_breaker 1\<lparr>failures := 1\<rparr>) 0"
  have ok: "breaker_ok ?l" using ex_breaker_ok [of 1]
    by (simp add: breaker_ok_def breaker_open_def ex_breaker_def)
  have "\<not> Ready ?l (4 * Second)"
    by (simp add: Ready_def breaker_open_def ex_breaker_def Second_def time_Sub_def saturate64_def
        min_int64_def max_int64_def)
  then show ?thesis
    using cb_admission [OF ok, of "4 * Second" "\<lambda>st c t k n. (Suc st, Err (ErrRedis ''down''))" None
        "4 * Second" 0 None ex_key 1] by simp
qed

section \<open>The recovery probe\<close>

lemma cb_step_ok:
  assumes step: "cb_step s e s'" and ok: "breaker_ok (breaker s)" "failures (breaker s) < max_int64"
  shows "breaker_ok (breaker s') \<and> failures (breaker s') \<le> failures (breaker s) + 1 \<and>
    cb_config (breaker s') = cb_config (breaker s)"
  using step
proof cases
  case (admit t l)
  then show ?thesis
    using startRequest_ok [OF ok(1), of t] startRequest_failures(1) [of "breaker s" t] startRequest_config [of "breaker s" t] by simp
next
  case (refuse t l)
  then show ?thesis
    using startRequest_ok [OF ok(1), of t] startRequest_failures(1) [of "breaker s" t] startRequest_config [of "breaker s" t] by simp
next
  case (finish t fs f gs r late l r')
  have "0 \<le> failures (breaker s)" using ok by (simp add: breaker_ok_def)
  then show ?thesis
    using finish finishRequest_ok [OF ok, of r late t] finishRequest_failures [OF _ ok(2), of r late t]
      finishRequest_config [of "breaker s" r late t] by simp
qed

lemma cb_reach_ok:
  assumes "cb_reach limit s n s'" "breaker_ok (breaker s)" "failures (breaker s) + int n < max_int64"
  shows "breaker_ok (breaker s') \<and> failures (breaker s') \<le> failures (breaker s) + int n \<and>
    cb_config (breaker s') = cb_config (breaker s)"
  using assms
proof (induction rule: cb_reach.induct)
  case (more n s' e s'')
  then show ?case using cb_step_ok [OF more.hyps(2)] by simp
qed simp

text \<open>
  With a deadline for requests shorter than the open timeout, the requests admitted before
  the circuit opened have left when the probe starts.
\<close>

definition flights_ok :: "breaker_system \<Rightarrow> bool" where
  "flights_ok s \<longleftrightarrow>
     (\<forall>f \<in> set (flights s). admitted f \<le> clock s) \<and>
     (case cb_state (breaker s) of
        circuitClosed \<Rightarrow> (\<forall>f \<in> set (flights s). \<not> probe f)
      | circuitOpen \<Rightarrow> openedAt (breaker s) \<le> clock s \<and>
          (\<forall>f \<in> set (flights s). \<not> probe f \<and> admitted f \<le> openedAt (breaker s))
      | circuitHalfOpen \<Rightarrow> openedAt (breaker s) \<le> clock s \<and> (\<exists>f. flights s = [f] \<and> probe f))"

lemma finishRequest_states:
  assumes "breaker_ok l" "failures l < max_int64" "finishRequest l r late t = (l', r')"
  shows "cb_state l' = circuitClosed \<or>
    cb_state l' = circuitOpen \<and> (openedAt l' = t \<or> openedAt l' = openedAt l \<and> cb_state l \<noteq> circuitClosed)"
  using assms by (cases "cb_state l") (auto simp: breaker_defs Let_def split: sum.splits if_splits)

lemma cb_step_flights:
  assumes step: "cb_step s e s'" and time: "in_time limit (flights s) (clock s')" and ok: "breaker_ok (breaker s)" "failures (breaker s) < max_int64"
    and lim: "limit < OpenTimeout (cb_config (breaker s))" and fl: "flights_ok s"
  shows "flights_ok s'"
  using step
proof cases
  case (admit t l)
  show ?thesis
  proof (cases "cb_state (breaker s)")
    case circuitClosed
    then show ?thesis using admit fl by (auto simp: flights_ok_def startRequest_closed)
  next
    case circuitOpen
    have late: "\<not> t - openedAt (breaker s) < OpenTimeout (cb_config (breaker s))"
      using admit circuitOpen ok by (auto simp: startRequest_open split: if_splits)
    have "flights s = []"
    proof (rule ccontr)
      assume "flights s \<noteq> []"
      then obtain f where f: "f \<in> set (flights s)" by (meson last_in_set)
      then have "t \<le> admitted f + limit" "admitted f \<le> openedAt (breaker s)"
        using admit time fl circuitOpen by (auto simp: in_time_def flights_ok_def)
      then show False using late lim by simp
    qed
    then show ?thesis using admit fl late circuitOpen ok
      by (auto simp: flights_ok_def startRequest_open)
  next
    case circuitHalfOpen
    then show ?thesis using admit ok by (simp add: startRequest_half_open)
  qed
next
  case (refuse t l)
  then have "l = breaker s"
    using ok by (cases "cb_state (breaker s)") (auto simp: startRequest_cases split: if_splits)
  then show ?thesis using refuse fl
    by (fastforce simp: flights_ok_def split: circuitState.splits)
next
  case (finish t fs f gs r late l' r')
  note l' = finish(5)
  have np: "\<not> probe g" if "g \<in> set (fs @ gs)" for g
    using that fl finish(4) by (cases "cb_state (breaker s)") (auto simp: flights_ok_def append_eq_Cons_conv)
  have open_le: "g \<in> set (fs @ gs) \<Longrightarrow> admitted g \<le> openedAt (breaker s)" "openedAt (breaker s) \<le> t"
    if "cb_state (breaker s) \<noteq> circuitClosed" for g
    using that fl finish by (cases "cb_state (breaker s)"; force simp: flights_ok_def append_eq_Cons_conv)+
  have le: "\<forall>g \<in> set (fs @ gs). admitted g \<le> t" using fl finish by (force simp: flights_ok_def)
  show ?thesis
    using finishRequest_states [OF ok l'] np le open_le by (auto simp: finish flights_ok_def l')
qed

text \<open>
  C7. One recovery probe. When the decision timeout is shorter than the open timeout (the
  defaults are 300 ms and 5 s) and every wrapped call ends within the decision timeout, then
  in every interleaving of requests a half-open circuit has exactly one request in flight,
  the probe, and in the other states no probe is in flight. The failure counter has not
  wrapped for fewer than \<open>2^63\<close> steps.
\<close>

theorem cb_single_probe:
  assumes "NewCircuitBreakerLimiter True cfg = Ok l" and "in64 (OpenTimeout cfg)"
    and "DecisionTimeout cfg < OpenTimeout cfg"
    and "cb_reach (DecisionTimeout cfg) \<lparr>breaker = l, flights = [], clock = t\<rparr> n s" and "int n < max_int64"
  shows "if cb_state (breaker s) = circuitHalfOpen then \<exists>f. flights s = [f] \<and> probe f
    else filter probe (flights s) = []"
proof -
  note new = New_breaker_ok [OF assms(1,2)]
  have "flights_ok s" using assms(4,5)
  proof (induction rule: cb_reach.induct)
    case start
    then show ?case using new by (simp add: flights_ok_def)
  next
    case (more n s' e s'')
    have "breaker_ok (breaker s') \<and> failures (breaker s') \<le> int n \<and> cb_config (breaker s') = cfg"
      using cb_reach_ok [OF more.hyps(1)] new more.prems by simp
    then show ?case using cb_step_flights [OF more.hyps(2,3)] more assms(3) by simp
  qed
  then show ?thesis
    by (cases "cb_state (breaker s)") (auto simp: flights_ok_def filter_empty_conv)
qed

text \<open>The steps of example runs, with the resulting state given.\<close>

lemma reach_admit:
  assumes "cb_reach limit s0 n s" "clock s \<le> t" "in_time limit (flights s) t"
    "startRequest (breaker s) t = (l, True)"
    "fs = flights s @ [\<lparr>admitted = t, probe = (cb_state (breaker s) \<noteq> circuitClosed)\<rparr>]"
  shows "cb_reach limit s0 (Suc n) \<lparr>breaker = l, flights = fs, clock = t\<rparr>"
  using cb_reach.more [OF assms(1) cb_step.admit [OF assms(2,4)]] assms(3) by (simp add: assms(5))

lemma reach_finish:
  assumes "cb_reach limit s0 n s" "clock s \<le> t" "in_time limit (flights s) t"
    "flights s = fs @ f # gs" "finishRequest (breaker s) r late t = (l, r')" "hs = fs @ gs"
  shows "cb_reach limit s0 (Suc n) \<lparr>breaker = l, flights = hs, clock = t\<rparr>"
  using cb_reach.more [OF assms(1) cb_step.finish [OF assms(2,4,5)]] assms(3) by (simp add: assms(6))

lemmas ex_breaker_simps = ex_breaker_def breaker_defs in_time_def Second_def Millisecond_def isRequestError_def
  errors_Is_def time_Sub_def saturate64_def min_int64_def max_int64_def

abbreviation ex_open :: "duration \<Rightarrow> CircuitBreakerLimiter" where
  "ex_open d \<equiv> ex_breaker d\<lparr>cb_state := circuitOpen, failures := 1\<rparr>"

abbreviation ex_half_open :: "duration \<Rightarrow> CircuitBreakerLimiter" where
  "ex_half_open d \<equiv> ex_breaker d\<lparr>cb_state := circuitHalfOpen, failures := 1, probeRunning := True\<rparr>"

lemma ex_finish:
  "finishRequest (ex_breaker d) (Err (ErrRedis m)) None 0 = (ex_open d, Err (ErrUnavailable (Some (ErrRedis m))))"
  "finishRequest (ex_half_open d) (Err (ErrRedis m)) (Some c) t = (ex_open d, Err (ErrRedis m))"
  by (simp_all add: ex_breaker_simps add64_id in64_def)

lemma ex_start:
  "startRequest (ex_breaker d) t = (ex_breaker d, True)"
  "startRequest (ex_open d) (5 * Second) = (ex_half_open d, True)"
  by (simp_all add: ex_breaker_simps)

lemma ex_closed: "cb_state (ex_breaker d) = circuitClosed"
  by (simp add: ex_breaker_def)

lemma Second_pos: "0 < Second" "0 \<le> Second"
  by (simp_all add: Second_def)

lemmas ex_system_simps = ex_start ex_finish ex_closed Second_pos in_time_def

lemma ex_probe_reach:
  assumes "0 < d"
  shows "cb_reach d \<lparr>breaker = ex_breaker d, flights = [], clock = 0\<rparr> (Suc (Suc (Suc 0)))
    \<lparr>breaker = ex_half_open d, flights = [\<lparr>admitted = 5 * Second, probe = True\<rparr>], clock = 5 * Second\<rparr>"
proof -
  let ?r = "cb_reach d \<lparr>breaker = ex_breaker d, flights = [], clock = 0\<rparr>"
  have "?r (Suc 0) \<lparr>breaker = ex_breaker d, flights = [\<lparr>admitted = 0, probe = False\<rparr>], clock = 0\<rparr>"
    by (rule reach_admit [OF cb_reach.start]) (simp_all add: ex_system_simps)
  then have "?r (Suc (Suc 0)) \<lparr>breaker = ex_open d, flights = [], clock = 0\<rparr>"
    by (rule reach_finish [where fs = "[]" and gs = "[]" and r = "Err (ErrRedis ''down'')" and late = None])
      (use assms in \<open>simp_all add: ex_system_simps\<close>)
  then show ?thesis
    by (rule reach_admit) (simp_all add: ex_system_simps)
qed

theorem cb_single_probe_witness:
  "\<exists>s. cb_reach (300 * Millisecond) \<lparr>breaker = ex_breaker (300 * Millisecond), flights = [], clock = 0\<rparr> 3 s \<and>
     cb_state (breaker s) = circuitHalfOpen \<and> (\<exists>f. flights s = [f] \<and> probe f)"
proof -
  let ?d = "300 * Millisecond" and ?s = "\<lparr>breaker = ex_half_open (300 * Millisecond),
    flights = [\<lparr>admitted = 5 * Second, probe = True\<rparr>], clock = 5 * Second\<rparr>"
  let ?cfg = "\<lparr>FailureThreshold = 1, OpenTimeout = 5 * Second, DecisionTimeout = ?d\<rparr>"
  have d: "0 < ?d" by (simp add: Millisecond_def)
  have r: "cb_reach (DecisionTimeout ?cfg) \<lparr>breaker = ex_breaker ?d, flights = [], clock = 0\<rparr> 3 ?s"
    using ex_probe_reach [OF d] by (simp add: numeral_3_eq_3)
  have st: "cb_state (breaker ?s) = circuitHalfOpen" by simp
  have "if cb_state (breaker ?s) = circuitHalfOpen then \<exists>f. flights ?s = [f] \<and> probe f
    else filter probe (flights ?s) = []"
    by (rule cb_single_probe [OF ex_breaker_new [OF d] _ _ r])
      (simp_all add: Second_def Millisecond_def in64_def min_int64_def max_int64_def)
  then have "\<exists>f. flights ?s = [f] \<and> probe f" by (simp only: if_P [OF st])
  then show ?thesis using r by auto
qed

text \<open>
  Without that relation between the timeouts, which the constructor does not check, two
  probes can run at once: with an open timeout of 5 s and a decision timeout of 10 s, a
  request admitted before the circuit opened that ends after the first probe started clears
  \<open>probeRunning\<close>, and the next request is a second probe.
\<close>

theorem cb_two_probes:
  "\<exists>l n s. NewCircuitBreakerLimiter True
       \<lparr>FailureThreshold = 1, OpenTimeout = 5 * Second, DecisionTimeout = 10 * Second\<rparr> = Ok l \<and>
     cb_reach (10 * Second) \<lparr>breaker = l, flights = [], clock = 0\<rparr> n s \<and>
     length (filter probe (flights s)) = 2"
proof -
  let ?d = "10 * Second" and ?old = "\<lparr>admitted = 0, probe = False\<rparr>"
  let ?r = "cb_reach ?d \<lparr>breaker = ex_breaker ?d, flights = [], clock = 0\<rparr>"
  let ?p = "\<lparr>admitted = 5 * Second, probe = True\<rparr>"
  have "?r (Suc 0) \<lparr>breaker = ex_breaker ?d, flights = [?old], clock = 0\<rparr>"
    by (rule reach_admit [OF cb_reach.start]) (simp_all add: ex_system_simps)
  then have "?r (Suc (Suc 0)) \<lparr>breaker = ex_breaker ?d, flights = [?old, ?old], clock = 0\<rparr>"
    by (rule reach_admit) (simp_all add: ex_system_simps)
  then have "?r (Suc (Suc (Suc 0))) \<lparr>breaker = ex_open ?d, flights = [?old], clock = 0\<rparr>"
    by (rule reach_finish [where fs = "[?old]" and gs = "[]" and r = "Err (ErrRedis ''down'')" and late = None])
      (simp_all add: ex_system_simps)
  then have "?r (Suc (Suc (Suc (Suc 0)))) \<lparr>breaker = ex_half_open ?d, flights = [?old, ?p], clock = 5 * Second\<rparr>"
    by (rule reach_admit) (simp_all add: ex_system_simps)
  then have "?r (Suc (Suc (Suc (Suc (Suc 0))))) \<lparr>breaker = ex_open ?d, flights = [?p], clock = 5 * Second\<rparr>"
    by (rule reach_finish [where fs = "[]" and gs = "[?p]" and r = "Err (ErrRedis ''canceled'')" and late = "Some Canceled"])
      (simp_all add: ex_system_simps)
  then have "?r (Suc (Suc (Suc (Suc (Suc (Suc 0)))))) \<lparr>breaker = ex_half_open ?d, flights = [?p, ?p], clock = 5 * Second\<rparr>"
    by (rule reach_admit) (simp_all add: ex_system_simps)
  then show ?thesis using ex_breaker_new [of ?d] by (fastforce simp: Second_def)
qed

section \<open>Outages and recovery\<close>

text \<open>The most requests in flight at once in a run that starts with \<open>n\<close>.\<close>

fun peak :: "nat \<Rightarrow> cb_event list \<Rightarrow> nat" where
  "peak n [] = n"
| "peak n (Admit # es) = max n (peak (Suc n) es)"
| "peak n (Refuse # es) = peak n es"
| "peak n (Finish r late r' # es) = max n (peak (n - 1) es)"

lemma peak_ge: "n \<le> peak n es"
proof (induction es)
  case (Cons e es)
  then show ?case by (cases e) auto
qed simp

text \<open>The outcome of a call during an outage: an error of the dependency, with the caller still waiting.\<close>

fun failed_call :: "cb_event \<Rightarrow> bool" where
  "failed_call (Finish (Inl e) None r') \<longleftrightarrow> \<not> isRequestError e"
| "failed_call (Finish r late r') \<longleftrightarrow> False"
| "failed_call e \<longleftrightarrow> True"

lemma recordFailure_closed:
  assumes "breaker_ok l" "cb_state l = circuitClosed" "FailureThreshold (cb_config l) \<le> max_int64"
  shows "recordFailure l t =
    (if failures l + 1 \<ge> FailureThreshold (cb_config l)
     then l\<lparr>probeRunning := False, failures := failures l + 1, cb_state := circuitOpen, openedAt := t\<rparr>
     else l\<lparr>probeRunning := False, failures := failures l + 1\<rparr>)"
proof -
  have "add64 (failures l) 1 = failures l + 1"
    using assms by (intro add64_id) (auto simp: breaker_ok_def in64_def min_int64_def)
  then show ?thesis using assms(2) by (simp add: recordFailure_def breaker_open_def Let_def)
qed

lemma failed_call_Finish:
  assumes "failed_call (Finish r late r')" "finishRequest l r late t = (l', r')"
  shows "l' = recordFailure l t"
  using assms by (cases "(Finish r late r')" rule: failed_call.cases) (auto simp: finishRequest_def)

text \<open>The admissions still possible up to \<open>t1\<close> with at most \<open>c\<close> requests in flight.\<close>

definition admissions_left :: "nat \<Rightarrow> go_time \<Rightarrow> breaker_system \<Rightarrow> int" where
  "admissions_left c t1 s =
     (case cb_state (breaker s) of
        circuitClosed \<Rightarrow> FailureThreshold (cb_config (breaker s)) - 1 - failures (breaker s) +
          int c - int (length (flights s)) + (t1 - clock s) div OpenTimeout (cb_config (breaker s))
      | circuitOpen \<Rightarrow> (t1 - openedAt (breaker s)) div OpenTimeout (cb_config (breaker s))
      | circuitHalfOpen \<Rightarrow> (t1 - clock s) div OpenTimeout (cb_config (breaker s)))"

definition opened_before :: "breaker_system \<Rightarrow> bool" where
  "opened_before s \<longleftrightarrow> (cb_state (breaker s) = circuitOpen \<longrightarrow> openedAt (breaker s) \<le> clock s)"

lemma div_later: "0 < W \<Longrightarrow> a \<le> b \<Longrightarrow> (t1 - b) div W \<le> (t1 - a) div (W :: int)"
  by (intro zdiv_mono1) auto

lemma div_timeout:
  assumes "0 < (W :: int)" "W \<le> b - a"
  shows "(t1 - b) div W + 1 \<le> (t1 - a) div W"
proof -
  have "(t1 - b) div W + 1 = (t1 - b + W) div W" using assms(1) by simp
  also have "\<dots> \<le> (t1 - a) div W" using assms by (intro zdiv_mono1) auto
  finally show ?thesis .
qed

lemma outage_admit:
  assumes step: "cb_step s Admit s'" and ok: "breaker_ok (breaker s)"
  shows "1 + admissions_left c t1 s' \<le> admissions_left c t1 s \<and> opened_before s'"
  using step
proof cases
  case (admit t l)
  have W: "0 < OpenTimeout (cb_config (breaker s))" using ok by (simp add: breaker_ok_def)
  show ?thesis
  proof (cases "cb_state (breaker s)")
    case circuitClosed
    then show ?thesis
      using admit div_later [OF W admit(2), of t1] by (simp add: startRequest_closed admissions_left_def opened_before_def)
  next
    case circuitOpen
    then have "OpenTimeout (cb_config (breaker s)) \<le> t - openedAt (breaker s)"
      "l = breaker s\<lparr>cb_state := circuitHalfOpen, probeRunning := True\<rparr>"
      using admit(3) ok by (auto simp: startRequest_open split: if_splits)
    then show ?thesis
      using admit circuitOpen div_timeout [OF W, of t "openedAt (breaker s)" t1]
      by (simp add: admissions_left_def opened_before_def)
  next
    case circuitHalfOpen
    then show ?thesis using admit(3) ok by (simp add: startRequest_half_open)
  qed
qed

lemma outage_refuse:
  assumes step: "cb_step s Refuse s'" and ok: "breaker_ok (breaker s)" "opened_before s"
  shows "admissions_left c t1 s' \<le> admissions_left c t1 s \<and> opened_before s'"
  using step
proof cases
  case (refuse t l)
  have W: "0 < OpenTimeout (cb_config (breaker s))" using ok by (simp add: breaker_ok_def)
  have "l = breaker s" "cb_state (breaker s) \<noteq> circuitClosed"
    using refuse(3) ok(1) by (cases "cb_state (breaker s)"; auto simp: startRequest_cases split: if_splits)+
  then show ?thesis
    using refuse ok(2) div_later [OF W refuse(2), of t1]
    by (cases "cb_state (breaker s)") (simp_all add: admissions_left_def opened_before_def)
qed

lemma outage_finish:
  assumes step: "cb_step s (Finish r late r') s'" and ok: "breaker_ok (breaker s)" "opened_before s"
    and fail: "failed_call (Finish r late r')" and c: "length (flights s) \<le> c"
    and max: "FailureThreshold (cb_config (breaker s)) \<le> max_int64" "failures (breaker s) < max_int64"
  shows "admissions_left c t1 s' \<le> admissions_left c t1 s \<and> opened_before s'"
  using step
proof cases
  case (finish t fs f gs l)
  let ?l = "breaker s" and ?W = "OpenTimeout (cb_config (breaker s))"
  have W: "0 < ?W" using ok by (simp add: breaker_ok_def)
  have l: "l = recordFailure ?l t" using fail finish(4) by (rule failed_call_Finish)
  note later = div_later [OF W finish(2), of t1]
  have f: "add64 (failures ?l) 1 = failures ?l + 1" "0 \<le> failures ?l"
    using ok max by (auto simp: breaker_ok_def in64_def min_int64_def intro!: add64_id)
  show ?thesis
  proof (cases "cb_state ?l")
    case circuitClosed
    then show ?thesis
      using finish l later c ok(1) recordFailure_closed [OF ok(1) circuitClosed max(1), of t]
      by (auto simp: admissions_left_def opened_before_def breaker_ok_def)
  next
    case circuitOpen
    then have "openedAt ?l \<le> t" "FailureThreshold (cb_config ?l) \<le> failures ?l + 1"
      using ok finish(2) by (auto simp: opened_before_def breaker_ok_def)
    then show ?thesis
      using finish l circuitOpen f div_later [OF W, of "openedAt ?l" t t1]
      by (simp add: recordFailure_def breaker_open_def Let_def admissions_left_def opened_before_def)
  next
    case circuitHalfOpen
    then show ?thesis
      using finish l later by (simp add: recordFailure_def breaker_open_def Let_def admissions_left_def opened_before_def)
  qed
qed

lemma cb_step_length:
  "cb_step s e s' \<Longrightarrow> length (flights s') =
     (case e of Admit \<Rightarrow> Suc (length (flights s)) | Refuse \<Rightarrow> length (flights s) | Finish r late r' \<Rightarrow> length (flights s) - 1)"
  by (erule cb_stepE) simp_all

lemma outage_step:
  assumes step: "cb_step s e s'" and ok: "breaker_ok (breaker s)" "opened_before s"
    and fail: "failed_call e" and c: "length (flights s) \<le> c"
    and max: "FailureThreshold (cb_config (breaker s)) \<le> max_int64" "failures (breaker s) < max_int64"
  shows "(if e = Admit then 1 else 0) + admissions_left c t1 s' \<le> admissions_left c t1 s \<and> opened_before s'"
proof (cases e)
  case Admit
  then show ?thesis using step outage_admit [OF _ ok(1)] by simp
next
  case Refuse
  then show ?thesis using step outage_refuse [OF _ ok] by simp
next
  case (Finish r late r')
  then show ?thesis using step fail outage_finish [OF _ ok _ c max] by simp
qed

lemma outage_calls:
  assumes "cb_run s es s'" "breaker_ok (breaker s)" "opened_before s" "\<forall>e \<in> set es. failed_call e"
    and "peak (length (flights s)) es \<le> c" "FailureThreshold (cb_config (breaker s)) \<le> max_int64"
    and "failures (breaker s) + int (length es) < max_int64"
  shows "int (length (filter (\<lambda>e. e = Admit) es)) \<le> admissions_left c (clock s') s"
  using assms
proof (induction rule: cb_run.induct)
  case (cb_run_Nil s)
  then have "failures (breaker s) \<le> FailureThreshold (cb_config (breaker s)) - 1" if "cb_state (breaker s) = circuitClosed"
    using that by (simp add: breaker_ok_def)
  then show ?case
    using cb_run_Nil by (auto simp: admissions_left_def opened_before_def breaker_ok_def pos_imp_zdiv_nonneg_iff split: circuitState.split)
next
  case (cb_run_Cons s e s' es s'')
  have lt: "failures (breaker s) < max_int64" using cb_run_Cons.prems(6) by simp
  have c: "length (flights s) \<le> c" using cb_run_Cons.prems(4) peak_ge [of "length (flights s)" "e # es"] by simp
  have "failed_call e" using cb_run_Cons.prems(3) by simp
  note st = outage_step [OF cb_run_Cons.hyps(1) cb_run_Cons.prems(1,2) this c cb_run_Cons.prems(5) lt]
  have "peak (length (flights s')) es \<le> peak (length (flights s)) (e # es)"
    using cb_step_length [OF cb_run_Cons.hyps(1)] by (cases e) auto
  then have "int (length (filter (\<lambda>e. e = Admit) es)) \<le> admissions_left c (clock s'') s'"
    using cb_run_Cons.prems st [THEN conjunct2] cb_step_ok [OF cb_run_Cons.hyps(1) cb_run_Cons.prems(1) lt]
    by (intro cb_run_Cons.IH) auto
  then show ?case using st [of "clock s''"] by auto
qed

text \<open>
  C14. An outage is bounded. In every interleaving of requests on a fresh breaker in which at most
  \<open>c\<close> requests are in flight at once and every wrapped call that ends does so with an error of the
  dependency while its caller still waits (a cancelled caller is not counted as a failure), the
  breaker lets at most \<open>FailureThreshold - 1 + c\<close> requests through to the limiter, and one more for each
  full open timeout that has passed; every other request is refused without a call. With
  one request at a time that is \<open>FailureThreshold\<close>. For fewer than \<open>2^63\<close> steps.
\<close>

theorem cb_outage_calls:
  assumes "NewCircuitBreakerLimiter True cfg = Ok l" and "in64 (OpenTimeout cfg)" "in64 (FailureThreshold cfg)"
    and "cb_run \<lparr>breaker = l, flights = [], clock = t0\<rparr> es s" and "\<forall>e \<in> set es. failed_call e"
    and "peak 0 es \<le> c" and "int (length es) < max_int64"
  shows "int (length (filter (\<lambda>e. e = Admit) es)) \<le>
    FailureThreshold cfg - 1 + int c + (clock s - t0) div OpenTimeout cfg"
  using outage_calls [OF assms(4)] New_breaker_ok [OF assms(1,2)] assms(3,5-7)
  by (simp add: admissions_left_def opened_before_def in64_def)

lemma run_admit:
  assumes "cb_run \<lparr>breaker = l', flights = fs @ [\<lparr>admitted = t, probe = (cb_state l \<noteq> circuitClosed)\<rparr>], clock = t\<rparr> es s"
    "clock0 \<le> t" "startRequest l t = (l', True)"
  shows "cb_run \<lparr>breaker = l, flights = fs, clock = clock0\<rparr> (Admit # es) s"
  using cb_run_Cons [OF cb_step.admit [of "\<lparr>breaker = l, flights = fs, clock = clock0\<rparr>" t l']] assms by simp

lemma run_finish:
  assumes "cb_run \<lparr>breaker = l', flights = fs @ gs, clock = t\<rparr> es s"
    "clock0 \<le> t" "finishRequest l r late t = (l', r')"
  shows "cb_run \<lparr>breaker = l, flights = fs @ f # gs, clock = clock0\<rparr> (Finish r late r' # es) s"
  using cb_run_Cons [OF cb_step.finish [of "\<lparr>breaker = l, flights = fs @ f # gs, clock = clock0\<rparr>" t fs f gs r late l' r']] assms by simp

text \<open>Two requests at once, of which the first to end opens the circuit, and a probe five seconds later.\<close>

theorem cb_outage_calls_witness:
  "\<exists>s. cb_run \<lparr>breaker = ex_breaker 1, flights = [], clock = 0\<rparr>
     [Admit, Admit, Finish (Err (ErrRedis ''down'')) None (Err (ErrUnavailable (Some (ErrRedis ''down'')))), Admit] s \<and>
     int (length (filter (\<lambda>e. e = Admit)
       [Admit, Admit, Finish (Err (ErrRedis ''down'')) None (Err (ErrUnavailable (Some (ErrRedis ''down'')))), Admit])) \<le> 3"
proof -
  let ?cfg = "\<lparr>FailureThreshold = 1, OpenTimeout = 5 * Second, DecisionTimeout = 1\<rparr>"
  let ?fin = "Finish (Err (ErrRedis ''down'')) None (Err (ErrUnavailable (Some (ErrRedis ''down''))))"
  let ?f = "\<lparr>admitted = 0, probe = False\<rparr>" and ?p = "\<lparr>admitted = 5 * Second, probe = True\<rparr>"
  let ?s = "\<lparr>breaker = ex_half_open 1, flights = [?f, ?p], clock = 5 * Second\<rparr>"
  have "cb_run \<lparr>breaker = ex_open 1, flights = [?f], clock = 0\<rparr> [Admit] ?s"
    by (rule run_admit [of "ex_half_open 1" "[?f]" "5 * Second"]) (simp_all add: ex_system_simps cb_run_Nil)
  then have "cb_run \<lparr>breaker = ex_breaker 1, flights = [?f, ?f], clock = 0\<rparr> [?fin, Admit] ?s"
    using run_finish [of "ex_open 1" "[?f]" "[]" 0 "[Admit]" ?s 0 "ex_breaker 1" "Err (ErrRedis ''down'')" None
        "Err (ErrUnavailable (Some (ErrRedis ''down'')))" ?f] by (simp add: ex_system_simps)
  then have "cb_run \<lparr>breaker = ex_breaker 1, flights = [?f], clock = 0\<rparr> [Admit, ?fin, Admit] ?s"
    using run_admit [of "ex_breaker 1" "[?f]" 0 "ex_breaker 1" "[?fin, Admit]" ?s 0] by (simp add: ex_system_simps)
  then have run: "cb_run \<lparr>breaker = ex_breaker 1, flights = [], clock = 0\<rparr> [Admit, Admit, ?fin, Admit] ?s"
    using run_admit [of "ex_breaker 1" "[]" 0 "ex_breaker 1" "[Admit, ?fin, Admit]" ?s 0] by (simp add: ex_system_simps)
  have "int (length (filter (\<lambda>e. e = Admit) [Admit, Admit, ?fin, Admit])) \<le>
      FailureThreshold ?cfg - 1 + int 2 + (clock ?s - 0) div OpenTimeout ?cfg"
    by (rule cb_outage_calls [OF ex_breaker_new _ _ run])
      (simp_all add: in64_def min_int64_def max_int64_def isRequestError_def errors_Is_def Second_def)
  then show ?thesis using run by auto
qed

text \<open>
  A call whose outcome is none of the dependency's: a decision, a request error, or an error
  after the caller has gone.
\<close>

fun healthy_call :: "cb_event \<Rightarrow> bool" where
  "healthy_call (Finish (Inl e) late r') \<longleftrightarrow> isRequestError e \<or> late \<noteq> None"
| "healthy_call e \<longleftrightarrow> True"

fun own_answer :: "cb_event \<Rightarrow> bool" where
  "own_answer (Finish r late r') \<longleftrightarrow> r' = r"
| "own_answer e \<longleftrightarrow> True"

lemma healthy_step:
  assumes "cb_step s e s'" "healthy_call e"
  shows "own_answer e" and "cb_state (breaker s) = circuitClosed \<Longrightarrow> e \<noteq> Refuse \<and> cb_state (breaker s') = circuitClosed"
    and "e = Finish (Inr d) late r' \<Longrightarrow> cb_state (breaker s') = circuitClosed"
  using assms
  by (cases; auto simp: startRequest_closed finishRequest_def recordSuccess_def cancelProbe_def split: sum.splits if_splits)+

lemma healthy_run:
  assumes "cb_run s es s'" "\<forall>e \<in> set es. healthy_call e"
  shows "(\<forall>e \<in> set es. own_answer e) \<and>
    (cb_state (breaker s) = circuitClosed \<longrightarrow> Refuse \<notin> set es \<and> cb_state (breaker s') = circuitClosed)"
  using assms
proof (induction rule: cb_run.induct)
  case (cb_run_Cons s e s' es s'')
  then have h: "healthy_call e" by simp
  note st = healthy_step [OF cb_run_Cons.hyps(1) h]
  show ?case using cb_run_Cons.IH cb_run_Cons.prems st(1,2) by auto
qed simp

lemma cb_run_append: "cb_run s (es @ es') s'' \<Longrightarrow> \<exists>s'. cb_run s es s' \<and> cb_run s' es' s''"
proof (induction es arbitrary: s)
  case (Cons e es)
  then obtain s1 where "cb_step s e s1" "cb_run s1 (es @ es') s''" by (auto elim: cb_run_ConsE)
  then show ?case using Cons.IH by (blast intro: cb_run.intros)
qed (auto intro: cb_run.intros)

text \<open>
  C32. Transparency and recovery. In every interleaving of requests, from any state of the breaker,
  in which no wrapped call ends with an error of the dependency while its caller waits: every
  admitted request gets exactly the wrapped limiter's result; when the circuit is closed at
  first, no request is refused and it stays closed, so denials, request errors and cancelled
  callers never open it; and once one call has succeeded, whatever the state before (a
  half-open circuit refuses while its probe runs), no request is refused any more.
\<close>

theorem cb_transparent:
  assumes run: "cb_run s es s'" and healthy: "\<forall>e \<in> set es. healthy_call e"
  shows "(\<forall>e \<in> set es. own_answer e) \<and>
    (cb_state (breaker s) = circuitClosed \<longrightarrow> Refuse \<notin> set es \<and> cb_state (breaker s') = circuitClosed) \<and>
    (\<forall>es1 d late r' es2. es = es1 @ Finish (Ok d) late r' # es2 \<longrightarrow>
      Refuse \<notin> set es2 \<and> cb_state (breaker s') = circuitClosed)"
proof -
  have "Refuse \<notin> set es2 \<and> cb_state (breaker s') = circuitClosed" if es: "es = es1 @ Finish (Ok d) late r' # es2"
    for es1 d late r' es2
  proof -
    obtain s1 s2 where s: "cb_step s1 (Finish (Ok d) late r') s2" "cb_run s2 es2 s'"
      using cb_run_append [of s es1 "Finish (Ok d) late r' # es2" s'] run unfolding es by (auto elim: cb_run_ConsE)
    have "cb_state (breaker s2) = circuitClosed" using healthy_step(3) [OF s(1)] by simp
    then show ?thesis using healthy_run [OF s(2)] healthy es by simp
  qed
  then show ?thesis using healthy_run [OF run healthy] by blast
qed

text \<open>A probe of an open circuit succeeds; the request that came meanwhile was refused, the next is not.\<close>

theorem cb_transparent_witness:
  "\<exists>s. cb_run \<lparr>breaker = ex_open 1, flights = [], clock = 0\<rparr>
     [Admit, Refuse, Finish (Ok (ex_decision 0)) None (Ok (ex_decision 0)), Admit] s \<and> cb_state (breaker s) = circuitClosed"
proof -
  let ?d = "ex_decision 0" and ?p = "\<lparr>admitted = 5 * Second, probe = True\<rparr>"
  let ?fin = "Finish (Ok (ex_decision 0)) None (Ok (ex_decision 0))"
  let ?es = "[Admit, Refuse, ?fin, Admit]"
  let ?l = "ex_breaker 1\<lparr>cb_state := circuitClosed, failures := 0, probeRunning := False\<rparr>"
  let ?s = "\<lparr>breaker = ?l, flights = [\<lparr>admitted = 6 * Second, probe = False\<rparr>], clock = 6 * Second\<rparr>"
  let ?h = "\<lparr>breaker = ex_half_open 1, flights = [?p], clock = 5 * Second\<rparr>"
  have "cb_run \<lparr>breaker = ?l, flights = [], clock = 5 * Second\<rparr> [Admit] ?s"
    by (rule run_admit [of ?l "[]" "6 * Second"]) (simp_all add: cb_run_Nil startRequest_closed Second_def)
  then have "cb_run ?h [?fin, Admit] ?s"
    using run_finish [of ?l "[]" "[]" "5 * Second" "[Admit]" ?s "5 * Second" "ex_half_open 1" "Ok ?d" None "Ok ?d" ?p]
    by (simp add: finishRequest_def recordSuccess_def)
  moreover have "cb_step ?h Refuse ?h"
    using cb_step.refuse [of ?h "5 * Second" "ex_half_open 1"] by (simp add: startRequest_def)
  ultimately have "cb_run ?h [Refuse, ?fin, Admit] ?s" by (rule cb_run_Cons [rotated])
  then have run: "cb_run \<lparr>breaker = ex_open 1, flights = [], clock = 0\<rparr> ?es ?s"
    using run_admit [of "ex_half_open 1" "[]" "5 * Second" "ex_open 1" "[Refuse, ?fin, Admit]" ?s 0] by (simp add: ex_system_simps)
  have "\<forall>e \<in> set ?es. healthy_call e" by simp
  from cb_transparent [OF run this] have "?es = [Admit, Refuse] @ ?fin # [Admit] \<longrightarrow>
      Refuse \<notin> set [Admit] \<and> cb_state (breaker ?s) = circuitClosed" by blast
  then show ?thesis using run by auto
qed

section \<open>One request after the other\<close>

text \<open>
  A run of requests that do not overlap. Each comes with the caller's context error and the
  time when its wrapped call has returned.
\<close>

type_synonym timed_request = "request \<times> ctx_error option \<times> go_time"

fun run_breaker ::
  "'st allow_fun \<Rightarrow> CircuitBreakerLimiter \<times> 'st \<Rightarrow> timed_request list \<Rightarrow>
   (CircuitBreakerLimiter \<times> 'st) \<times> (limiter_error, Decision) result list" where
  "run_breaker allow st [] = (st, [])"
| "run_breaker allow st ((q, late, finished) # qs) =
     (let a = CircuitBreaker_Allow allow late finished st (q_ctx q) (q_now q) (q_key q) (q_cost q);
          b = run_breaker allow (fst a) qs
      in (fst b, snd a # snd b))"

text \<open>
  When the breaker would admit a request, it stays so while the wrapped limiter answers or
  refuses requests for reasons of their own.
\<close>

definition admits_from :: "CircuitBreakerLimiter \<Rightarrow> go_time \<Rightarrow> bool" where
  "admits_from l t \<longleftrightarrow> cb_state l = circuitClosed \<or>
     cb_state l = circuitOpen \<and> OpenTimeout (cb_config l) \<le> t - openedAt l"

lemma transparent_step:
  assumes "breaker_ok l" "admits_from l t" "t \<le> now"
    and "\<And>e. snd (allow st c now k n) = Err e \<Longrightarrow> isRequestError e"
  shows "\<exists>l'. CircuitBreaker_Allow allow late fin (l, st) c now k n = ((l', fst (allow st c now k n)), snd (allow st c now k n)) \<and>
    breaker_ok l' \<and> admits_from l' t \<and> cb_config l' = cb_config l"
proof -
  obtain l1 where l1: "startRequest l now = (l1, True)" "breaker_ok l1" "cb_config l1 = cb_config l"
    "openedAt l1 = openedAt l" "cb_state l1 = circuitClosed \<or> OpenTimeout (cb_config l) \<le> t - openedAt l"
    using assms(1-3) startRequest_ok [OF assms(1), of now]
    by (auto simp: admits_from_def startRequest_closed startRequest_open)
  show ?thesis
  proof (cases "snd (allow st c now k n)")
    case (Inl e)
    then have "isRequestError e" by (rule assms(4))
    then have "CircuitBreaker_Allow allow late fin (l, st) c now k n = ((cancelProbe l1, fst (allow st c now k n)), Err e)"
      using Inl by (simp add: CircuitBreaker_Allow_def l1 finishRequest_def split_def Let_def)
    moreover have "breaker_ok (cancelProbe l1) \<and> admits_from (cancelProbe l1) t \<and> cb_config (cancelProbe l1) = cb_config l"
      using l1 by (cases "cb_state l1") (auto simp: cancelProbe_def breaker_ok_def admits_from_def)
    ultimately show ?thesis using Inl by auto
  next
    case (Inr d)
    then have "CircuitBreaker_Allow allow late fin (l, st) c now k n = ((recordSuccess l1, fst (allow st c now k n)), Ok d)"
      by (simp add: CircuitBreaker_Allow_def l1 finishRequest_def split_def Let_def)
    moreover have "breaker_ok (recordSuccess l1) \<and> admits_from (recordSuccess l1) t"
      using l1 by (auto simp: recordSuccess_def breaker_ok_def admits_from_def)
    ultimately show ?thesis using Inr l1(3) by (auto simp: recordSuccess_def)
  qed
qed

lemma transparent_run:
  assumes "breaker_ok l" "admits_from l t" "\<forall>(q, late, fin) \<in> set qs. t \<le> q_now q"
    and "\<forall>e. Err e \<in> set (snd (run_limiter allow st (map fst qs))) \<longrightarrow> isRequestError e"
  shows "snd (run_breaker allow (l, st) qs) = snd (run_limiter allow st (map fst qs))"
  using assms
proof (induction qs arbitrary: l st)
  case Nil
  then show ?case by simp
next
  case (Cons x qs)
  obtain q late fin where x: "x = (q, late, fin)" by (metis prod.exhaust)
  let ?a = "allow st (q_ctx q) (q_now q) (q_key q) (q_cost q)"
  have t: "t \<le> q_now q" using Cons.prems(3) by (simp add: x)
  have req: "snd ?a = Err e \<Longrightarrow> isRequestError e" for e
    using Cons.prems(4) by (auto simp: x run_limiter_Cons Let_def)
  obtain l' where l': "CircuitBreaker_Allow allow late fin (l, st) (q_ctx q) (q_now q) (q_key q) (q_cost q) = ((l', fst ?a), snd ?a)"
    "breaker_ok l'" "admits_from l' t"
    using transparent_step [OF Cons.prems(1,2) t, of allow st "q_ctx q" "q_key q" "q_cost q" late fin] req by blast
  have "snd (run_breaker allow (l', fst ?a) qs) = snd (run_limiter allow (fst ?a) (map fst qs))"
    using l' Cons.prems(3,4) by (intro Cons.IH) (auto simp: x run_limiter_Cons Let_def)
  then show ?case using l' by (simp add: x run_limiter_Cons Let_def)
qed

text \<open>
  Requests served one after the other. From every reachable breaker state in which no probe runs,
  once the open timeout is over (or at once when the circuit is closed), a run of requests that do
  not overlap, against a wrapped limiter whose only errors are request errors returns exactly the wrapped
  limiter's results: denials and refused requests never open the circuit.
\<close>

theorem cb_sequential_transparent:
  assumes "breaker_ok l" and "cb_state l \<noteq> circuitHalfOpen" and "Ready l t"
    and "\<forall>(q, late, fin) \<in> set qs. t \<le> q_now q"
    and "\<forall>e. Err e \<in> set (snd (run_limiter allow st (map fst qs))) \<longrightarrow> isRequestError e"
  shows "snd (run_breaker allow (l, st) qs) = snd (run_limiter allow st (map fst qs))"
proof (rule transparent_run [OF assms(1) _ assms(4,5)])
  have "\<not> t - openedAt l < OpenTimeout (cb_config l)" if "cb_state l = circuitOpen"
    using assms(1,3) that time_Sub_less [of "OpenTimeout (cb_config l)" t "openedAt l"]
    by (auto simp: Ready_def breaker_ok_def)
  then show "admits_from l t" using assms(2) by (cases "cb_state l") (auto simp: admits_from_def)
qed

theorem cb_sequential_transparent_witness:
  "snd (run_breaker (\<lambda>st c t k n. (Suc st, if n = 1 then Err ErrInvalidCost else Ok (ex_decision t))) (ex_open 1, 0)
     [(ex_req (5 * Second) 1, None, 5 * Second), (ex_req (6 * Second) 2, None, 6 * Second)]) =
   [Err ErrInvalidCost, Ok (ex_decision (6 * Second))]"
proof -
  let ?qs = "[(ex_req (5 * Second) 1, None, 5 * Second), (ex_req (6 * Second) 2, None, 6 * Second)] :: timed_request list"
  let ?allow = "\<lambda>st c t k n. (Suc st, if n = 1 then Err ErrInvalidCost else Ok (ex_decision t))"
  have "snd (run_breaker ?allow (ex_open 1, 0) ?qs) = snd (run_limiter ?allow 0 (map fst ?qs))"
  proof (rule cb_sequential_transparent [of _ "5 * Second" ?qs ?allow 0])
    show "breaker_ok (ex_open 1)" "cb_state (ex_open 1) \<noteq> circuitHalfOpen"
      using ex_breaker_ok [of 1] by (simp_all add: breaker_ok_def ex_breaker_def)
    show "Ready (ex_open 1) (5 * Second)" by (simp add: Ready_def ex_breaker_simps)
  qed (auto simp: ex_req_def Second_def run_limiter_Cons isRequestError_def errors_Is_def)
  then show ?thesis by (simp add: run_limiter_Cons ex_req_def)
qed

section \<open>The breaker as a limiter\<close>

text \<open>
  Around a limiter the breaker keeps the contract: it never makes a decision of its own.
\<close>

lemma CircuitBreaker_Allow_inner:
  "snd (fst (CircuitBreaker_Allow allow late fin st c t k n)) \<in> {snd st, fst (allow (snd st) c t k n)}"
  by (auto simp: CircuitBreaker_Allow_def split_def Let_def)

lemma CircuitBreaker_Allow_decision:
  "snd (CircuitBreaker_Allow allow late fin st c t k n) = Ok d \<Longrightarrow> snd (allow (snd st) c t k n) = Ok d"
  by (auto simp: CircuitBreaker_Allow_def finishRequest_def split_def Let_def split: if_splits sum.splits)

context decision_source
begin

lemma breaker_source:
  "decision_source (CircuitBreaker_Allow allow late fin) (\<lambda>st. inv (snd st)) (\<lambda>st. pol (snd st))"
proof
  fix st :: "CircuitBreakerLimiter \<times> 'st" and c t k n
  let ?a = "CircuitBreaker_Allow allow late fin st c t k n"
  show "inv (snd st) \<Longrightarrow> inv (snd (fst ?a))" and "pol (snd (fst ?a)) = pol (snd st)"
    using CircuitBreaker_Allow_inner [of allow late fin st c t k n] allow_inv allow_pol by auto
  show "pol (snd st) k \<noteq> None" if "snd ?a = Ok d" for d
    using CircuitBreaker_Allow_decision [OF that] by (rule allow_policy)
  show "decision_ok p n d" if "inv (snd st)" "pol (snd st) k = Some p" "snd ?a = Ok d" for p d
    using that(1,2) CircuitBreaker_Allow_decision [OF that(3)] by (rule allow_decision)
qed

end

end
