(* ===== verification/Events.thy ===== *)
theory Events
  imports GoStrings
begin

text \<open>
  The approval events of \<open>internal/events\<close>: decoding (\<open>event.go\<close>), the batch that is
  persisted and then removed from the stream (\<open>persist.go\<close>), the consumer operations
  (\<open>processor.go\<close>) and the status (\<open>status.go\<close>). The table is that of the SQL statements in
  \<open>internal/database\<close>. The stream with its consumer group is a parameter with the laws of
  \<open>approval_stream\<close>; every call to PostgreSQL and Redis may fail, with or without effect.
\<close>

section \<open>Decoding\<close>

record XMessage =
  msg_ID :: string
  msg_Values :: "string \<rightharpoonup> string"

datatype event_error =
    ErrNoField string string
  | ErrInvalidField string string parse_error
  | ErrCostRange string
  | ErrRemainingRange string

record CreateApprovedRequestParams =
  par_StreamID :: string
  par_ClientID :: string
  par_Resource :: string
  par_Cost :: int
  par_ApprovedAt :: go_time
  par_Remaining :: int

definition max_int32 :: int where
  "max_int32 = 2 ^ 31 - 1"

definition stringField :: "XMessage \<Rightarrow> string \<Rightarrow> (event_error, string) result" where
  "stringField message field =
     (case msg_Values message field of
        None \<Rightarrow> Err (ErrNoField (msg_ID message) field)
      | Some value \<Rightarrow> if value = [] then Err (ErrNoField (msg_ID message) field) else Ok value)"

definition integerField :: "XMessage \<Rightarrow> string \<Rightarrow> (event_error, int) result" where
  "integerField message field =
     (case stringField message field of
        Inl err \<Rightarrow> Err err
      | Inr value \<Rightarrow>
          (case ParseInt value of
             Inl err \<Rightarrow> Err (ErrInvalidField (msg_ID message) field err)
           | Inr number \<Rightarrow> Ok number))"

definition approvalRequest :: "XMessage \<Rightarrow> (event_error, CreateApprovedRequestParams) result" where
  "approvalRequest message =
     (case integerField message ''cost'' of Inl err \<Rightarrow> Err err | Inr cost \<Rightarrow>
      case integerField message ''approved_at_ms'' of Inl err \<Rightarrow> Err err | Inr approvedAtMS \<Rightarrow>
      case integerField message ''remaining'' of Inl err \<Rightarrow> Err err | Inr remaining \<Rightarrow>
      case stringField message ''client_id'' of Inl err \<Rightarrow> Err err | Inr clientID \<Rightarrow>
      case stringField message ''resource'' of Inl err \<Rightarrow> Err err | Inr resource \<Rightarrow>
        if cost \<le> 0 \<or> cost > max_int32 then Err (ErrCostRange (msg_ID message))
        else if remaining < 0 \<or> remaining > max_int32 then Err (ErrRemainingRange (msg_ID message))
        else Ok \<lparr>par_StreamID = msg_ID message, par_ClientID = clientID, par_Resource = resource,
                 par_Cost = cost, par_ApprovedAt = time_UnixMilli approvedAtMS, par_Remaining = remaining\<rparr>)"

section \<open>The table\<close>

text \<open>The table \<open>approved_requests\<close>, by its primary key \<open>stream_id\<close>.\<close>

record ApprovedRequest =
  row_ClientID :: string
  row_Resource :: string
  row_Cost :: int
  row_ApprovedAt :: go_time
  row_Remaining :: int

type_synonym approvals = "string \<rightharpoonup> ApprovedRequest"

definition row_of :: "CreateApprovedRequestParams \<Rightarrow> ApprovedRequest" where
  "row_of arg = \<lparr>row_ClientID = par_ClientID arg, row_Resource = par_Resource arg, row_Cost = par_Cost arg,
     row_ApprovedAt = par_ApprovedAt arg, row_Remaining = par_Remaining arg\<rparr>"

text \<open>\<open>INSERT ... ON CONFLICT (stream_id) DO NOTHING\<close>.\<close>

definition CreateApprovedRequest :: "approvals \<Rightarrow> CreateApprovedRequestParams \<Rightarrow> approvals" where
  "CreateApprovedRequest t arg =
     (case t (par_StreamID arg) of Some row \<Rightarrow> t | None \<Rightarrow> t(par_StreamID arg \<mapsto> row_of arg))"

section \<open>One batch\<close>

text \<open>
  The outcome of a request to a server: done, not done and reported as an error, or done and
  reported as an error because the reply was lost. \<open>faults\<close> gives one for each call of a
  batch: the beginning of the transaction, the inserts (by index), the commit and the
  pipeline that acknowledges and deletes.
\<close>

datatype outcome = Done | Failed string | Lost string

record faults =
  f_begin :: "string option"
  f_insert :: "nat \<Rightarrow> string option"
  f_commit :: outcome
  f_remove :: outcome

definition no_faults :: faults where
  "no_faults = \<lparr>f_begin = None, f_insert = (\<lambda>_. None), f_commit = Done, f_remove = Done\<rparr>"

datatype persist_error =
    ErrEvent event_error
  | ErrBegin string
  | ErrPersist string string
  | ErrCommit string
  | ErrRemove string
  | ErrRead string
  | ErrClaim string

fun decode_all :: "XMessage list \<Rightarrow> (event_error, CreateApprovedRequestParams list) result" where
  "decode_all [] = Ok []"
| "decode_all (message # messages) =
     (case approvalRequest message of Inl err \<Rightarrow> Err err
      | Inr request \<Rightarrow> (case decode_all messages of Inl err \<Rightarrow> Err err | Inr requests \<Rightarrow> Ok (request # requests)))"

fun insert_all ::
  "(nat \<Rightarrow> string option) \<Rightarrow> nat \<Rightarrow> approvals \<Rightarrow> CreateApprovedRequestParams list \<Rightarrow> (persist_error, approvals) result" where
  "insert_all fault i t [] = Ok t"
| "insert_all fault i t (request # requests) =
     (case fault i of
        Some e \<Rightarrow> Err (ErrPersist (par_StreamID request) e)
      | None \<Rightarrow> insert_all fault (Suc i) (CreateApprovedRequest t request) requests)"

text \<open>
  The stream and its consumer group: \<open>g_read\<close> is \<open>XREADGROUP ... >\<close>, \<open>g_claim\<close> is \<open>XAUTOCLAIM\<close>
  from \<open>0-0\<close>, both at a time of the server's clock in milliseconds, \<open>g_remove\<close> is the transaction of \<open>XACK\<close> and \<open>XDEL\<close>, \<open>g_add\<close> is \<open>XADD\<close>,
  \<open>g_create\<close> is \<open>XGROUP CREATE ... 0 MKSTREAM\<close>, whose reply is no error, the nil reply or an
  error text, and \<open>g_entries\<close> is what the stream holds.
\<close>

datatype redis_error = RedisNil | RedisError string

record 'q group_ops =
  g_create :: "'q \<Rightarrow> 'q \<times> redis_error option"
  g_entries :: "'q \<Rightarrow> XMessage list"
  g_add :: "'q \<Rightarrow> XMessage \<Rightarrow> 'q"
  g_read :: "'q \<Rightarrow> int \<Rightarrow> int \<Rightarrow> 'q \<times> XMessage list"
  g_claim :: "'q \<Rightarrow> int \<Rightarrow> duration \<Rightarrow> int \<Rightarrow> 'q \<times> XMessage list"
  g_remove :: "'q \<Rightarrow> string list \<Rightarrow> 'q"

definition persistMessages ::
  "'q group_ops \<Rightarrow> faults \<Rightarrow> 'q \<times> approvals \<Rightarrow> XMessage list \<Rightarrow> ('q \<times> approvals) \<times> (persist_error, int) result" where
  "persistMessages G f s messages =
     (if messages = [] then (s, Ok 0)
      else case decode_all messages of
        Inl err \<Rightarrow> (s, Err (ErrEvent err))
      | Inr requests \<Rightarrow>
          (case f_begin f of
             Some e \<Rightarrow> (s, Err (ErrBegin e))
           | None \<Rightarrow>
               (case insert_all (f_insert f) 0 (snd s) requests of
                  Inl err \<Rightarrow> (s, Err err)
                | Inr t \<Rightarrow>
                    (case f_commit f of
                       Failed e \<Rightarrow> (s, Err (ErrCommit e))
                     | Lost e \<Rightarrow> ((fst s, t), Err (ErrCommit e))
                     | Done \<Rightarrow>
                         (let ids = map msg_ID messages
                          in case f_remove f of
                               Failed e \<Rightarrow> ((fst s, t), Err (ErrRemove e))
                             | Lost e \<Rightarrow> ((g_remove G (fst s) ids, t), Err (ErrRemove e))
                             | Done \<Rightarrow> ((g_remove G (fst s) ids, t), Ok (int (length messages))))))))"

section \<open>The processor\<close>

record Config =
  cfg_Stream :: string
  cfg_Group :: string
  cfg_Consumer :: string
  cfg_BatchSize :: int
  cfg_Block :: duration
  cfg_ClaimIdle :: duration

datatype processor_error = ErrRedisRequired | ErrPoolRequired | ErrNamesRequired | ErrPositiveRequired

definition NewProcessor :: "bool \<Rightarrow> bool \<Rightarrow> Config \<Rightarrow> (processor_error, Config) result" where
  "NewProcessor has_redis has_pool cfg =
     (if \<not> has_redis then Err ErrRedisRequired
      else if \<not> has_pool then Err ErrPoolRequired
      else if cfg_Stream cfg = [] \<or> cfg_Group cfg = [] \<or> cfg_Consumer cfg = [] then Err ErrNamesRequired
      else if cfg_BatchSize cfg \<le> 0 \<or> cfg_Block cfg \<le> 0 \<or> cfg_ClaimIdle cfg \<le> 0 then Err ErrPositiveRequired
      else Ok cfg)"

definition isBusyGroup :: "redis_error option \<Rightarrow> bool" where
  "isBusyGroup err = (case err of Some (RedisError s) \<Rightarrow> take 9 s = ''BUSYGROUP'' | _ \<Rightarrow> False)"

text \<open>
  What becomes of a call of the consumer group: its reply arrives, it never reached the
  server, or it was executed and the reply was lost.
\<close>

datatype fetch = Replied | NotSent string | ReplyDropped string

definition EnsureGroup :: "'q group_ops \<Rightarrow> fetch \<Rightarrow> 'q \<Rightarrow> 'q \<times> redis_error option" where
  "EnsureGroup G reply q =
     (let (q', err) = (case reply of
            NotSent e \<Rightarrow> (q, Some (RedisError e))
          | ReplyDropped e \<Rightarrow> (fst (g_create G q), Some (RedisError e))
          | Replied \<Rightarrow> g_create G q)
      in (q', if err \<noteq> None \<and> err \<noteq> Some RedisNil \<and> \<not> isBusyGroup err then err else None))"

text \<open>\<open>persistStreams\<close>: the streams of one \<open>XREADGROUP\<close> reply, each a batch.\<close>

fun persistStreams ::
  "'q group_ops \<Rightarrow> (nat \<Rightarrow> faults) \<Rightarrow> nat \<Rightarrow> int \<Rightarrow> 'q \<times> approvals \<Rightarrow> XMessage list list \<Rightarrow>
   ('q \<times> approvals) \<times> int \<times> persist_error option" where
  "persistStreams G f i processed s [] = (s, processed, None)"
| "persistStreams G f i processed s (stream # streams) =
     (case persistMessages G (f i) s stream of
        (s', Inl err) \<Rightarrow> (s', processed, Some err)
      | (s', Inr count) \<Rightarrow> persistStreams G f (Suc i) (processed + count) s' streams)"

definition ConsumeNew ::
  "'q group_ops \<Rightarrow> Config \<Rightarrow> int \<Rightarrow> fetch \<Rightarrow> faults \<Rightarrow> 'q \<times> approvals \<Rightarrow> ('q \<times> approvals) \<times> int \<times> persist_error option" where
  "ConsumeNew G cfg now reply f s =
     (let (q, messages) = g_read G (fst s) now (cfg_BatchSize cfg)
      in case reply of
           NotSent e \<Rightarrow> (s, 0, Some (ErrRead e))
         | ReplyDropped e \<Rightarrow> ((q, snd s), 0, Some (ErrRead e))
         | Replied \<Rightarrow>
             if messages = [] then ((q, snd s), 0, None)
             else persistStreams G (\<lambda>_. f) 0 0 (q, snd s) [messages])"

definition RecoverPending ::
  "'q group_ops \<Rightarrow> Config \<Rightarrow> int \<Rightarrow> fetch \<Rightarrow> faults \<Rightarrow> 'q \<times> approvals \<Rightarrow> ('q \<times> approvals) \<times> int \<times> persist_error option" where
  "RecoverPending G cfg now reply f s =
     (let (q, messages) = g_claim G (fst s) now (cfg_ClaimIdle cfg) (cfg_BatchSize cfg)
      in case reply of
           NotSent e \<Rightarrow> (s, 0, Some (ErrClaim e))
         | ReplyDropped e \<Rightarrow> ((q, snd s), 0, Some (ErrClaim e))
         | Replied \<Rightarrow>
             if messages = [] then ((q, snd s), 0, None)
             else case persistMessages G f (q, snd s) messages of
                    (s', Inl err) \<Rightarrow> (s', 0, Some err)
                  | (s', Inr count) \<Rightarrow> (s', count, None))"

section \<open>Status\<close>

record Status =
  StreamLength :: int
  PendingCount :: int
  OldestEvent :: go_time

text \<open>\<open>Ready\<close>: Redis is pinged first, PostgreSQL only when that succeeds.\<close>

datatype ready_error = ErrPingRedis string | ErrPingPostgreSQL string

definition Processor_Ready :: "string option \<Rightarrow> string option \<Rightarrow> ready_error option" where
  "Processor_Ready redis_ping pool_ping =
     (case redis_ping of
        Some e \<Rightarrow> Some (ErrPingRedis e)
      | None \<Rightarrow> map_option ErrPingPostgreSQL pool_ping)"

datatype status_error = ErrStatusRead string | ErrStreamID string "parse_error option"

text \<open>The replies of the pipeline: \<open>XLEN\<close>, the count of \<open>XPENDING\<close>, the ids of \<open>XRANGE - + COUNT 1\<close>.\<close>

definition Status_of :: "(string, int \<times> int \<times> string list) result \<Rightarrow> (status_error, Status) result" where
  "Status_of reply =
     (case reply of
        Inl e \<Rightarrow> Err (ErrStatusRead e)
      | Inr (len, pending, oldest) \<Rightarrow>
          let status = \<lparr>StreamLength = len, PendingCount = pending, OldestEvent = 0\<rparr>
          in case oldest of
               [] \<Rightarrow> Ok status
             | sid # _ \<Rightarrow>
                 let (milliseconds, rest, found) = Cut_dash sid
                 in if \<not> found then Err (ErrStreamID sid None)
                    else case ParseInt milliseconds of
                           Inl err \<Rightarrow> Err (ErrStreamID sid (Some err))
                         | Inr timestamp \<Rightarrow> Ok (status\<lparr>OldestEvent := time_UnixMilli timestamp\<rparr>))"

section \<open>Decoding what was written\<close>

text \<open>
  An event with the decimal numerals of a cost, a time and a remaining capacity decodes to
  exactly these values when cost and remaining fit the integer columns of the table.
\<close>

definition event_message :: "string \<Rightarrow> string \<Rightarrow> string \<Rightarrow> int \<Rightarrow> int \<Rightarrow> int \<Rightarrow> XMessage" where
  "event_message sid client resource cost at_ms remaining =
     \<lparr>msg_ID = sid, msg_Values =
        [''client_id'' \<mapsto> client, ''resource'' \<mapsto> resource, ''cost'' \<mapsto> nat_string (nat cost),
         ''approved_at_ms'' \<mapsto> nat_string (nat at_ms), ''remaining'' \<mapsto> nat_string (nat remaining)]\<rparr>"

lemma approvalRequest_event:
  assumes "client \<noteq> []" "resource \<noteq> []" "0 < cost" "0 \<le> at_ms" "0 \<le> remaining"
    "cost \<le> max_int64" "at_ms \<le> max_int64" "remaining \<le> max_int64"
  shows "approvalRequest (event_message sid client resource cost at_ms remaining) =
    (if cost > max_int32 then Err (ErrCostRange sid)
     else if remaining > max_int32 then Err (ErrRemainingRange sid)
     else Ok \<lparr>par_StreamID = sid, par_ClientID = client, par_Resource = resource, par_Cost = cost,
              par_ApprovedAt = time_UnixMilli at_ms, par_Remaining = remaining\<rparr>)"
  using assms
  by (simp add: approvalRequest_def integerField_def stringField_def event_message_def ParseInt_nat_string)

section \<open>Nothing is lost, nothing is stored twice\<close>

text \<open>The documented behaviour of the stream commands.\<close>

locale approval_stream =
  fixes G :: "'q group_ops"
  assumes create_entries: "g_entries G (fst (g_create G q)) = g_entries G q"
    and create_reply: "snd (g_create G q) = None \<or> isBusyGroup (snd (g_create G q))"
    and add_entries: "g_entries G (g_add G q m) = g_entries G q @ [m]"
    and read_entries: "g_entries G (fst (g_read G q now n)) = g_entries G q"
    and read_messages: "set (snd (g_read G q now n)) \<subseteq> set (g_entries G q)"
    and claim_entries: "g_entries G (fst (g_claim G q now d n)) = g_entries G q"
    and claim_messages: "set (snd (g_claim G q now d n)) \<subseteq> set (g_entries G q)"
    and remove_entries: "g_entries G (g_remove G q ids) = filter (\<lambda>m. msg_ID m \<notin> set ids) (g_entries G q)"

text \<open>A message is stored when the table has its row.\<close>

definition stored_row :: "approvals \<Rightarrow> XMessage \<Rightarrow> bool" where
  "stored_row t m \<longleftrightarrow> (\<exists>p. approvalRequest m = Ok p \<and> t (msg_ID m) = Some (row_of p))"

text \<open>The rows are those of the messages \<open>M\<close> with their ids.\<close>

definition faithful :: "XMessage set \<Rightarrow> approvals \<Rightarrow> bool" where
  "faithful M t \<longleftrightarrow> (\<forall>m \<in> M. t (msg_ID m) \<noteq> None \<longrightarrow> stored_row t m)"

lemma approvalRequest_id: "approvalRequest m = Ok p \<Longrightarrow> par_StreamID p = msg_ID m"
  by (auto simp: approvalRequest_def split: sum.splits if_splits)

lemma decode_all_Ok:
  "decode_all ms = Ok ps \<longleftrightarrow> list_all2 (\<lambda>m p. approvalRequest m = Ok p) ms ps"
proof (induction ms arbitrary: ps)
  case (Cons m ms)
  then show ?case using Cons.IH [symmetric] by (cases ps) (auto split: sum.splits)
qed auto

lemma decode_all_Err: "(\<exists>e. decode_all ms = Err e) \<longleftrightarrow> (\<exists>m \<in> set ms. \<exists>e. approvalRequest m = Err e)"
  by (induction ms) (auto split: sum.splits)

lemma CreateApprovedRequest_keeps: "t i = Some row \<Longrightarrow> CreateApprovedRequest t p i = Some row"
  by (auto simp: CreateApprovedRequest_def split: option.splits)

lemma insert_all_keeps: "insert_all f i t ps = Ok t' \<Longrightarrow> t k = Some row \<Longrightarrow> t' k = Some row"
  by (induction f i t ps rule: insert_all.induct) (auto simp: CreateApprovedRequest_keeps split: option.splits)

lemma insert_all_dom: "insert_all f i t ps = Ok t' \<Longrightarrow> dom t' = dom t \<union> par_StreamID ` set ps"
proof (induction f i t ps rule: insert_all.induct)
  case (2 fault i t request requests)
  then show ?case by (auto simp: CreateApprovedRequest_def split: option.splits)
qed simp

lemma insert_all_no_fault: "(\<And>i. f i = None) \<Longrightarrow> \<exists>t'. insert_all f i t ps = Ok t'"
  by (induction ps arbitrary: i t) auto

text \<open>Inserting a batch keeps the table faithful, and the batch is stored then.\<close>

lemma insert_all_faithful:
  assumes "faithful M t" "inj_on msg_ID M" "set ms \<subseteq> M"
    and "list_all2 (\<lambda>m p. approvalRequest m = Ok p) ms ps" "insert_all f i t ps = Ok t'"
  shows "faithful M t'"
  using assms
proof (induction ps arbitrary: i t ms)
  case (Cons p ps)
  then obtain m ms' where ms: "ms = m # ms'" "approvalRequest m = Ok p"
    "list_all2 (\<lambda>m p. approvalRequest m = Ok p) ms' ps" by (cases ms) auto
  have "faithful M (CreateApprovedRequest t p)"
    unfolding faithful_def
  proof (intro ballI impI)
    fix x assume x: "x \<in> M" "CreateApprovedRequest t p (msg_ID x) \<noteq> None"
    show "stored_row (CreateApprovedRequest t p) x"
    proof (cases "t (msg_ID x)")
      case (Some row)
      then have "stored_row t x" using Cons.prems(1) x(1) by (auto simp: faithful_def)
      then show ?thesis using CreateApprovedRequest_keeps by (fastforce simp: stored_row_def)
    next
      case None
      then have id: "msg_ID x = par_StreamID p" "t (par_StreamID p) = None"
        using x(2) by (auto simp: CreateApprovedRequest_def split: option.splits if_splits)
      then have "x = m"
        using Cons.prems(2,3) x(1) ms approvalRequest_id [OF ms(2)] by (auto dest: inj_onD)
      then show ?thesis using id ms(2) by (auto simp: stored_row_def CreateApprovedRequest_def)
    qed
  qed
  then show ?case
    using Cons.IH [of _ ms' "Suc i"] Cons.prems ms by (auto split: option.splits)
qed simp

text \<open>
  The steps of the system: an approval adds a message, a worker starts and ensures the group,
  consumes new messages or recovers pending ones, at a time of the server's clock.
\<close>

datatype tick = Produce XMessage | Ensure fetch | Consume int fetch faults | Recover int fetch faults

definition worker_step :: "'q group_ops \<Rightarrow> Config \<Rightarrow> 'q \<times> approvals \<Rightarrow> tick \<Rightarrow> 'q \<times> approvals" where
  "worker_step G cfg s tick =
     (case tick of
        Produce m \<Rightarrow> (g_add G (fst s) m, snd s)
      | Ensure reply \<Rightarrow> (fst (EnsureGroup G reply (fst s)), snd s)
      | Consume now reply f \<Rightarrow> fst (ConsumeNew G cfg now reply f s)
      | Recover now reply f \<Rightarrow> fst (RecoverPending G cfg now reply f s))"

definition run_worker :: "'q group_ops \<Rightarrow> Config \<Rightarrow> 'q \<times> approvals \<Rightarrow> tick list \<Rightarrow> 'q \<times> approvals" where
  "run_worker G cfg = foldl (worker_step G cfg)"

fun produced :: "tick list \<Rightarrow> XMessage list" where
  "produced [] = []"
| "produced (Produce m # ticks) = m # produced ticks"
| "produced (_ # ticks) = produced ticks"

lemma produced_append: "produced (xs @ ys) = produced xs @ produced ys"
  by (induction xs rule: produced.induct) simp_all

text \<open>Fault-free recoveries and reads at the given times.\<close>

definition recover_ticks :: "int list \<Rightarrow> tick list" where
  "recover_ticks = map (\<lambda>now. Recover now Replied no_faults)"

definition consume_ticks :: "int list \<Rightarrow> tick list" where
  "consume_ticks = map (\<lambda>now. Consume now Replied no_faults)"

lemma produced_ticks [simp]: "produced (recover_ticks nows) = []" "produced (consume_ticks nows) = []"
  by (induction nows) (simp_all add: recover_ticks_def consume_ticks_def)

text \<open>The messages \<open>S\<close> are each in the stream or stored; the stream has only messages of \<open>M\<close>.\<close>

definition safe :: "'q group_ops \<Rightarrow> XMessage set \<Rightarrow> XMessage set \<Rightarrow> 'q \<times> approvals \<Rightarrow> bool" where
  "safe G M S s \<longleftrightarrow> faithful M (snd s) \<and> set (g_entries G (fst s)) \<subseteq> M \<and>
     (\<forall>m \<in> S. m \<in> set (g_entries G (fst s)) \<or> stored_row (snd s) m)"

lemma stored_row_keeps: "stored_row t m \<Longrightarrow> (\<And>k row. t k = Some row \<Longrightarrow> t' k = Some row) \<Longrightarrow> stored_row t' m"
  by (auto simp: stored_row_def)

lemma filter_drop_take_ids:
  assumes "distinct (map msg_ID ms)"
  shows "filter (\<lambda>m. msg_ID m \<notin> msg_ID ` set (take n ms)) ms = drop n ms"
    and "filter (\<lambda>m. msg_ID m \<notin> msg_ID ` set (take n ms)) (drop n ms) = drop n ms"
proof -
  let ?P = "\<lambda>m. msg_ID m \<notin> msg_ID ` set (take n ms)"
  have "distinct (map msg_ID (take n ms) @ map msg_ID (drop n ms))"
    using assms by (simp only: map_append [symmetric] append_take_drop_id)
  then have d: "\<forall>m \<in> set (drop n ms). ?P m" by auto
  then show k: "filter ?P (drop n ms) = drop n ms" by (simp only: filter_id_conv)
  have "filter ?P ms = filter ?P (take n ms) @ filter ?P (drop n ms)"
    by (simp only: filter_append [symmetric] append_take_drop_id)
  moreover have "filter ?P (take n ms) = []" by (auto simp: filter_empty_conv)
  ultimately show "filter ?P ms = drop n ms" using k by simp
qed

context approval_stream
begin

lemma persist_safe:
  assumes safe: "safe G M S s" and inj: "inj_on msg_ID M" and ms: "set ms \<subseteq> set (g_entries G (fst s))"
  shows "safe G M S (fst (persistMessages G f s ms))"
proof (cases "\<exists>ps t. ms \<noteq> [] \<and> decode_all ms = Ok ps \<and> f_begin f = None \<and>
    insert_all (f_insert f) 0 (snd s) ps = Ok t \<and> (\<nexists>e. f_commit f = Failed e)")
  case False
  then have "fst (persistMessages G f s ms) = s"
    by (auto simp: persistMessages_def split: sum.splits option.splits outcome.splits)
  then show ?thesis using safe by simp
next
  case True
  then obtain ps t where dec: "decode_all ms = Ok ps" and ins: "insert_all (f_insert f) 0 (snd s) ps = Ok t"
    and go: "ms \<noteq> []" "f_begin f = None" "\<nexists>e. f_commit f = Failed e" by auto
  have l2: "list_all2 (\<lambda>m p. approvalRequest m = Ok p) ms ps" using dec decode_all_Ok by blast
  have M: "set ms \<subseteq> M" using ms safe by (auto simp: safe_def)
  have t: "faithful M t" using insert_all_faithful [OF _ inj M l2 ins] safe by (simp add: safe_def)
  have keep: "stored_row t m" if "stored_row (snd s) m" for m
    using stored_row_keeps [OF that] insert_all_keeps [OF ins] by blast
  have st: "stored_row t m" if "m \<in> set ms" for m
  proof -
    obtain i where i: "i < length ms" "ms ! i = m" using \<open>m \<in> set ms\<close> by (auto simp: in_set_conv_nth)
    then have p: "i < length ps" "approvalRequest m = Ok (ps ! i)"
      using l2 list_all2_lengthD [OF l2] list_all2_nthD [OF l2 i(1)] by auto
    have "msg_ID m = par_StreamID (ps ! i)" using approvalRequest_id [OF p(2)] by simp
    then have "msg_ID m \<in> dom t" unfolding insert_all_dom [OF ins] using p(1) by auto
    then show ?thesis using t that M by (auto simp: faithful_def)
  qed
  have same: "m \<in> set ms" if e: "m \<in> set (g_entries G (fst s))" and i: "msg_ID m \<in> msg_ID ` set ms" for m
  proof -
    obtain m' where "m' \<in> set ms" "msg_ID m = msg_ID m'" using i by blast
    moreover have "m \<in> M" using e safe by (auto simp: safe_def)
    ultimately show ?thesis using inj_onD [OF inj, of m m'] M by blast
  qed
  let ?q = "g_remove G (fst s) (map msg_ID ms)"
  have "safe G M S (fst s, t)" "safe G M S (?q, t)"
    using safe t keep st same by (auto simp: safe_def remove_entries)
  then show ?thesis
    using dec ins go by (auto simp: persistMessages_def Let_def split: outcome.splits)
qed

lemma fetched_safe:
  assumes "safe G M S s" "g_entries G q = g_entries G (fst s)"
  shows "safe G M S (q, snd s)"
  using assms by (simp add: safe_def)

lemma step_safe:
  assumes safe: "safe G M S s" and inj: "inj_on msg_ID M" and p: "set (produced [tick]) \<subseteq> M"
  shows "safe G M (S \<union> set (produced [tick])) (worker_step G cfg s tick)"
proof (cases tick)
  case (Produce m)
  then show ?thesis using safe p by (auto simp: worker_step_def safe_def add_entries)
next
  case (Ensure reply)
  then show ?thesis
    using safe by (auto simp: worker_step_def safe_def EnsureGroup_def create_entries split_def Let_def split: fetch.splits)
next
  case (Consume now reply f)
  let ?q = "fst (g_read G (fst s) now (cfg_BatchSize cfg))" and ?ms = "snd (g_read G (fst s) now (cfg_BatchSize cfg))"
  have q: "safe G M S (?q, snd s)" using safe read_entries by (rule fetched_safe)
  have ms: "set ?ms \<subseteq> set (g_entries G (fst (?q, snd s)))" using read_messages read_entries by simp
  show ?thesis
    using safe q persist_safe [OF q inj ms, of f] Consume
    by (auto simp: worker_step_def ConsumeNew_def split_def Let_def split: fetch.splits sum.splits)
next
  case (Recover now reply f)
  let ?c = "g_claim G (fst s) now (cfg_ClaimIdle cfg) (cfg_BatchSize cfg)"
  have q: "safe G M S (fst ?c, snd s)" using safe claim_entries by (rule fetched_safe)
  have ms: "set (snd ?c) \<subseteq> set (g_entries G (fst (fst ?c, snd s)))" using claim_messages claim_entries by simp
  show ?thesis
    using safe q persist_safe [OF q inj ms, of f] Recover
    by (auto simp: worker_step_def RecoverPending_def split_def Let_def split: fetch.splits sum.splits)
qed

lemma run_safe:
  assumes "safe G M S s" "inj_on msg_ID M" "set (produced ticks) \<subseteq> M"
  shows "safe G M (S \<union> set (produced ticks)) (run_worker G cfg s ticks)"
  using assms
proof (induction ticks arbitrary: S s)
  case (Cons tick ticks)
  have eq: "set (produced (tick # ticks)) = set (produced [tick]) \<union> set (produced ticks)"
    by (cases tick) auto
  have "safe G M (S \<union> set (produced [tick])) (worker_step G cfg s tick)"
    using Cons.prems eq by (intro step_safe) auto
  from Cons.IH [OF this Cons.prems(2)] show ?case
    using Cons.prems(3) eq by (simp add: run_worker_def Un_assoc)
qed (simp add: run_worker_def)

end

text \<open>
  What new deliveries promise: \<open>fresh q\<close> are the entries not yet delivered to the group, the
  last ones of the stream; a read delivers the first of them.
\<close>

locale draining_stream = approval_stream G for G :: "'q group_ops" +
  fixes fresh :: "'q \<Rightarrow> XMessage list"
  assumes fresh_suffix: "\<exists>ms. g_entries G q = ms @ fresh q"
    and read_fresh: "snd (g_read G q now n) = take (nat n) (fresh q)"
    and fresh_read: "fresh (fst (g_read G q now n)) = drop (nat n) (fresh q)"
    and fresh_remove: "fresh (g_remove G q ids) = filter (\<lambda>m. msg_ID m \<notin> set ids) (fresh q)"
begin

lemma persist_no_faults:
  assumes "\<forall>m \<in> set ms. \<exists>p. approvalRequest m = Ok p"
  shows "\<exists>t'. persistMessages G no_faults (q, t) ms =
    ((if ms = [] then q else g_remove G q (map msg_ID ms), t'), Ok (int (length ms)))"
proof -
  obtain ps where "decode_all ms = Ok ps" using assms decode_all_Err [of ms] by (cases "decode_all ms") auto
  moreover obtain t' where "insert_all (\<lambda>_. None) 0 t ps = Ok t'"
    using insert_all_no_fault [of "\<lambda>_. None" 0 t ps] by auto
  ultimately show ?thesis by (cases "ms = []") (simp_all add: persistMessages_def no_faults_def Let_def)
qed

text \<open>One fault-free \<open>ConsumeNew\<close> on a stream of undelivered messages removes the next batch.\<close>

lemma consume_drains:
  assumes all: "fresh q = g_entries G q" and dist: "distinct (map msg_ID (fresh q))"
    and dec: "\<forall>m \<in> set (fresh q). \<exists>p. approvalRequest m = Ok p"
  shows "\<exists>q' t'. worker_step G cfg (q, t) (Consume now Replied no_faults) = (q', t') \<and>
    g_entries G q' = drop (nat (cfg_BatchSize cfg)) (fresh q) \<and> fresh q' = g_entries G q'"
proof -
  let ?n = "nat (cfg_BatchSize cfg)"
  let ?ms = "take ?n (fresh q)"
  obtain q1 where r: "g_read G q now (cfg_BatchSize cfg) = (q1, ?ms)"
    using read_fresh [of q now "cfg_BatchSize cfg"] by (metis prod.collapse)
  have q1: "g_entries G q1 = fresh q" "fresh q1 = drop ?n (fresh q)"
    using r all read_entries [of q now "cfg_BatchSize cfg"] fresh_read [of q now "cfg_BatchSize cfg"] by simp_all
  have "\<forall>m \<in> set ?ms. \<exists>p. approvalRequest m = Ok p" using dec by (auto dest: in_set_takeD)
  then obtain t' where t': "persistMessages G no_faults (q1, t) ?ms =
      ((if ?ms = [] then q1 else g_remove G q1 (map msg_ID ?ms), t'), Ok (int (length ?ms)))"
    using persist_no_faults by blast
  show ?thesis
  proof (cases "?ms = []")
    case True
    then have "drop ?n (fresh q) = fresh q" by (metis append_Nil append_take_drop_id)
    then show ?thesis using True r q1 by (simp add: worker_step_def ConsumeNew_def)
  next
    case False
    let ?q' = "g_remove G q1 (map msg_ID ?ms)"
    have "g_entries G ?q' = drop ?n (fresh q)" "fresh ?q' = drop ?n (fresh q)"
      using q1 dist by (simp_all add: remove_entries fresh_remove filter_drop_take_ids)
    then show ?thesis using False r t' by (simp add: worker_step_def ConsumeNew_def)
  qed
qed

lemma consumes_drain:
  assumes "fresh q = g_entries G q" "distinct (map msg_ID (fresh q))"
    "\<forall>m \<in> set (fresh q). \<exists>p. approvalRequest m = Ok p" "0 < cfg_BatchSize cfg"
    "length (fresh q) \<le> length nows * nat (cfg_BatchSize cfg)"
  shows "g_entries G (fst (run_worker G cfg (q, t) (consume_ticks nows))) = []"
  using assms
proof (induction nows arbitrary: q t)
  case (Cons now nows)
  let ?b = "nat (cfg_BatchSize cfg)"
  obtain q' t' where s: "worker_step G cfg (q, t) (Consume now Replied no_faults) = (q', t')"
    "g_entries G q' = drop ?b (fresh q)" "fresh q' = g_entries G q'"
    using consume_drains [OF Cons.prems(1-3), of cfg t now] by blast
  have "g_entries G (fst (run_worker G cfg (q', t') (consume_ticks nows))) = []"
    using Cons.prems s(2,3)
    by (intro Cons.IH) (auto simp: drop_map [symmetric] dest: in_set_dropD)
  then show ?case by (simp add: run_worker_def consume_ticks_def s(1))
qed (simp add: run_worker_def consume_ticks_def)

end

section \<open>A stream in memory\<close>

text \<open>
  Whether the group exists, the entries that are pending (delivered, not acknowledged) with
  the time of their last delivery in milliseconds, and the entries not yet delivered, both in
  stream order. A claim scans the first \<open>10 * n\<close> pending entries, takes up to \<open>n\<close> that have been idle
  long enough and sets their delivery time.
\<close>

record mem_group =
  mg_group :: bool
  mg_pending :: "(XMessage \<times> int) list"
  mg_fresh :: "XMessage list"

definition mem_entries :: "mem_group \<Rightarrow> XMessage list" where
  "mem_entries q = map fst (mg_pending q) @ mg_fresh q"

definition mem_read :: "mem_group \<Rightarrow> int \<Rightarrow> int \<Rightarrow> mem_group \<times> XMessage list" where
  "mem_read q now n =
     (let ms = take (nat n) (mg_fresh q)
      in (q\<lparr>mg_pending := mg_pending q @ map (\<lambda>m. (m, now)) ms, mg_fresh := drop (nat n) (mg_fresh q)\<rparr>, ms))"

definition mem_claimable :: "duration \<Rightarrow> int \<Rightarrow> bool" where
  "mem_claimable min_idle idle \<longleftrightarrow> min_idle \<le> idle * Millisecond"

definition mem_claim :: "mem_group \<Rightarrow> int \<Rightarrow> duration \<Rightarrow> int \<Rightarrow> mem_group \<times> XMessage list" where
  "mem_claim q now min_idle n =
     (let ms = map fst (take (nat n) (filter (\<lambda>p. mem_claimable min_idle (now - snd p)) (take (10 * nat n) (mg_pending q))))
      in (q\<lparr>mg_pending := map (\<lambda>p. if fst p \<in> set ms then (fst p, now) else p) (mg_pending q)\<rparr>, ms))"

definition mem_remove :: "mem_group \<Rightarrow> string list \<Rightarrow> mem_group" where
  "mem_remove q ids = q\<lparr>
     mg_pending := filter (\<lambda>p. msg_ID (fst p) \<notin> set ids) (mg_pending q),
     mg_fresh := filter (\<lambda>m. msg_ID m \<notin> set ids) (mg_fresh q)\<rparr>"

definition mem_create :: "mem_group \<Rightarrow> mem_group \<times> redis_error option" where
  "mem_create q = (if mg_group q then (q, Some (RedisError ''BUSYGROUP Consumer Group name already exists''))
     else (q\<lparr>mg_group := True\<rparr>, None))"

definition mem_group_ops :: "mem_group group_ops" where
  "mem_group_ops = \<lparr>
     g_create = mem_create,
     g_entries = mem_entries,
     g_add = \<lambda>q m. q\<lparr>mg_fresh := mg_fresh q @ [m]\<rparr>,
     g_read = mem_read,
     g_claim = mem_claim,
     g_remove = mem_remove\<rparr>"

lemmas mem_group_defs = mem_group_ops_def mem_create_def mem_entries_def mem_read_def mem_claim_def mem_remove_def

lemma map_fst_update [simp]: "map fst (map (\<lambda>p. if P p then (fst p, y) else p) ps) = map fst ps"
  by simp

interpretation mem_group: draining_stream mem_group_ops mg_fresh
proof
  fix q ids and now d n :: int
  show "g_entries mem_group_ops (g_remove mem_group_ops q ids) =
      filter (\<lambda>m. msg_ID m \<notin> set ids) (g_entries mem_group_ops q)"
    by (simp add: mem_group_defs filter_map o_def)
  show "set (snd (g_claim mem_group_ops q now d n)) \<subseteq> set (g_entries mem_group_ops q)"
    by (auto simp: mem_group_defs Let_def dest!: in_set_takeD)
  show "\<exists>ms. g_entries mem_group_ops q = ms @ mg_fresh q" by (simp add: mem_group_defs)
qed (auto simp: mem_group_defs isBusyGroup_def Let_def o_def dest: in_set_takeD)

lemma worker_no_loss_aux:
  assumes "approval_stream G" and "run_worker G cfg (q, t) ticks = (q', t')"
    and "M = set (g_entries G q) \<union> set (produced ticks)" and "inj_on msg_ID M" and "faithful M t"
  shows "\<forall>m \<in> M. (m \<in> set (g_entries G q') \<or> stored_row t' m) \<and> (t' (msg_ID m) \<noteq> None \<longrightarrow> stored_row t' m)"
proof -
  have "safe G M (set (g_entries G q)) (q, t)" using assms(3,5) by (simp add: safe_def)
  from approval_stream.run_safe [OF assms(1) this assms(4), of ticks cfg] show ?thesis
    using assms(2,3) by (auto simp: safe_def faithful_def)
qed

text \<open>
  C5. No approval is lost. On every stream with the documented commands, whatever approvals
  arrive and whatever the worker does, with any failure of any call to PostgreSQL or Redis
  (also failures after the effect), every message that was ever in the stream is still there
  or has its row in the table; and a row is always that of its message, however often the
  message was delivered.
\<close>

theorem worker_no_loss:
  assumes "approval_stream G" and "run_worker G cfg (q, t) ticks = (q', t')"
    and "M = set (g_entries G q) \<union> set (produced ticks)" and "inj_on msg_ID M" and "faithful M t"
  shows "\<forall>m \<in> M. (m \<in> set (g_entries G q') \<or> stored_row t' m) \<and> (t' (msg_ID m) \<noteq> None \<longrightarrow> stored_row t' m)"
  using assms by (rule worker_no_loss_aux)

definition ex_message :: "string \<Rightarrow> XMessage" where
  "ex_message sid = event_message sid ''client-a'' ''openai'' 2 1000 8"

lemma ex_message_facts: "msg_ID (ex_message sid) = sid" "\<exists>p. approvalRequest (ex_message sid) = Ok p"
  by (simp add: ex_message_def event_message_def)
    (simp add: ex_message_def approvalRequest_event max_int32_def max_int64_def)

definition ex_config :: Config where
  "ex_config = \<lparr>cfg_Stream = ''s'', cfg_Group = ''g'', cfg_Consumer = ''c'', cfg_BatchSize = 10,
     cfg_Block = Second, cfg_ClaimIdle = Second\<rparr>"

definition ex_group :: mem_group where
  "ex_group = \<lparr>mg_group = True, mg_pending = [], mg_fresh = []\<rparr>"

theorem worker_no_loss_witness:
  "\<exists>q' t'. run_worker mem_group_ops ex_config (ex_group, Map.empty)
       [Produce (ex_message ''1-0''), Consume 1000 Replied (no_faults\<lparr>f_remove := Failed ''timeout''\<rparr>),
        Recover 2000 Replied no_faults] = (q', t') \<and>
     (ex_message ''1-0'' \<in> set (mem_entries q') \<or> stored_row t' (ex_message ''1-0''))"
proof -
  let ?ticks = "[Produce (ex_message ''1-0''), Consume 1000 Replied (no_faults\<lparr>f_remove := Failed ''timeout''\<rparr>),
        Recover 2000 Replied no_faults]"
  obtain q' t' where r: "run_worker mem_group_ops ex_config (ex_group, Map.empty) ?ticks = (q', t')" by force
  have "\<forall>m \<in> {ex_message ''1-0''}. (m \<in> set (g_entries mem_group_ops q') \<or> stored_row t' m) \<and>
      (t' (msg_ID m) \<noteq> None \<longrightarrow> stored_row t' m)"
    by (rule worker_no_loss [OF mem_group.approval_stream_axioms r])
      (simp_all add: mem_group_ops_def mem_entries_def ex_group_def faithful_def)
  then show ?thesis using r by (simp add: mem_group_ops_def)
qed

lemma insert_all_present:
  "insert_all f i t ps = Ok t' \<Longrightarrow> (\<And>p. p \<in> set ps \<Longrightarrow> t (par_StreamID p) \<noteq> None) \<Longrightarrow> t' = t"
proof (induction f i t ps rule: insert_all.induct)
  case (2 fault i t request requests)
  from 2(3) [of request] have "CreateApprovedRequest t request = t"
    by (auto simp: CreateApprovedRequest_def)
  then show ?case using 2 by (auto split: option.splits)
qed simp

lemma decode_all_ids: "decode_all ms = Ok ps \<Longrightarrow> map par_StreamID ps = map msg_ID ms"
  by (induction ms arbitrary: ps) (auto simp: approvalRequest_id split: sum.splits)

text \<open>What a batch does: nothing, or its rows are inserted and then perhaps its messages removed.\<close>

lemma persist_cases:
  assumes "persistMessages G f (q, t) ms = ((q', t'), res)"
  obtains (nothing) err where "q' = q" "t' = t" "res = Err err" "\<forall>e. decode_all ms = Err e \<longrightarrow> err = ErrEvent e"
    | (empty) "ms = []" "q' = q" "t' = t" "res = Ok 0"
    | (stored) ps err where "decode_all ms = Ok ps" "insert_all (f_insert f) 0 t ps = Ok t'" "res = Err err"
    | (removed) ps where "decode_all ms = Ok ps" "insert_all (f_insert f) 0 t ps = Ok t'"
        "q' = g_remove G q (map msg_ID ms)" "res = Ok (int (length ms))"
  using assms
  by (auto simp: persistMessages_def Let_def split: if_splits sum.splits option.splits outcome.splits)

lemma insert_batch_dom:
  assumes "decode_all ms = Ok ps" "insert_all f 0 t ps = Ok t'" "m \<in> set ms"
  shows "t' (msg_ID m) \<noteq> None"
proof -
  have "par_StreamID ` set ps = msg_ID ` set ms"
    using decode_all_ids [OF assms(1)] by (metis set_map)
  then have "msg_ID m \<in> dom t'" using insert_all_dom [OF assms(2)] assms(3) by auto
  then show ?thesis by auto
qed

text \<open>
  C16. A batch is all or nothing. If the batch is answered with a count, the count is its
  length, every message has a row and is gone from the stream. If it is answered with an
  error, the table is unchanged or has a row for every message of the batch. A message that
  cannot be decoded, anywhere in the batch, leaves table and stream as they were. A batch
  whose messages all have rows already, delivered again, does not change the table.
\<close>

theorem persist_outcome:
  assumes "approval_stream G" and "persistMessages G f (q, t) ms = ((q', t'), res)"
  shows "(\<forall>n. res = Ok n \<longrightarrow> n = int (length ms) \<and> (\<forall>m \<in> set ms. t' (msg_ID m) \<noteq> None \<and> m \<notin> set (g_entries G q'))) \<and>
    (t' = t \<or> (\<forall>m \<in> set ms. t' (msg_ID m) \<noteq> None)) \<and>
    ((\<exists>m \<in> set ms. \<exists>e. approvalRequest m = Err e) \<longrightarrow> q' = q \<and> t' = t \<and> (\<exists>e. res = Err (ErrEvent e))) \<and>
    ((\<forall>m \<in> set ms. t (msg_ID m) \<noteq> None) \<longrightarrow> t' = t)"
proof -
  have bad: "(\<exists>m \<in> set ms. \<exists>e. approvalRequest m = Err e) \<longleftrightarrow> (\<exists>e. decode_all ms = Err e)"
    by (simp only: decode_all_Err)
  have same: "t2 = t" if "decode_all ms = Ok ps" "insert_all f 0 t ps = Ok t2" "\<forall>m \<in> set ms. t (msg_ID m) \<noteq> None"
    for ps f t2
  proof (rule insert_all_present [OF that(2)])
    have "par_StreamID ` set ps = msg_ID ` set ms" using decode_all_ids [OF that(1)] by (metis set_map)
    then show "t (par_StreamID p) \<noteq> None" if "p \<in> set ps" for p using that \<open>\<forall>m \<in> set ms. t (msg_ID m) \<noteq> None\<close> by (metis image_eqI image_iff)
  qed
  from assms(2) show ?thesis
  proof (cases rule: persist_cases)
    case (removed ps)
    have "m \<notin> set (g_entries G q')" if "m \<in> set ms" for m
      using that removed(3) approval_stream.remove_entries [OF assms(1)] by auto
    then show ?thesis
      unfolding bad using removed insert_batch_dom [OF removed(1,2)] same [OF removed(1,2)] by auto
  next
    case (stored ps err)
    then show ?thesis
      unfolding bad using insert_batch_dom [OF stored(1,2)] same [OF stored(1,2)] by auto
  qed (auto simp: bad)
qed

theorem persist_outcome_witness:
  "\<exists>q' t' res. persistMessages mem_group_ops no_faults (ex_group, Map.empty) [ex_message ''1-0''] = ((q', t'), res) \<and>
     (\<forall>n. res = Ok n \<longrightarrow> n = 1 \<and> t' ''1-0'' \<noteq> None)"
proof -
  obtain q' t' res where a: "persistMessages mem_group_ops no_faults (ex_group, Map.empty) [ex_message ''1-0''] = ((q', t'), res)"
    by (metis prod.exhaust)
  show ?thesis
    using persist_outcome [OF mem_group.approval_stream_axioms a] a ex_message_facts(1) [of "''1-0''"] by auto
qed

text \<open>A batch with a message that cannot be decoded fails as a whole.\<close>

lemma poison_batch:
  assumes "m \<in> set ms" "approvalRequest m = Err e"
  shows "\<exists>e'. persistMessages G f s ms = (s, Err (ErrEvent e'))"
proof -
  obtain e' where "decode_all ms = Err e'" using assms decode_all_Err by blast
  moreover have "ms \<noteq> []" using assms(1) by auto
  ultimately show ?thesis by (simp add: persistMessages_def)
qed

context approval_stream
begin

lemma poison_recover:
  assumes c: "m \<in> set (snd (g_claim G q now (cfg_ClaimIdle cfg) (cfg_BatchSize cfg)))" and m: "approvalRequest m = Err e"
  shows "\<exists>e'. RecoverPending G cfg now Replied f (q, t) =
    ((fst (g_claim G q now (cfg_ClaimIdle cfg) (cfg_BatchSize cfg)), t), 0, Some (ErrEvent e'))"
proof -
  let ?c = "g_claim G q now (cfg_ClaimIdle cfg) (cfg_BatchSize cfg)"
  obtain e' where "persistMessages G f (fst ?c, t) (snd ?c) = ((fst ?c, t), Err (ErrEvent e'))"
    using poison_batch [OF c m] by blast
  moreover have "snd ?c \<noteq> []" using c by auto
  ultimately show ?thesis by (simp add: RecoverPending_def split_def Let_def)
qed

lemma poison_consume:
  assumes c: "m \<in> set (snd (g_read G q now (cfg_BatchSize cfg)))" and m: "approvalRequest m = Err e"
  shows "\<exists>e'. ConsumeNew G cfg now Replied f (q, t) =
    ((fst (g_read G q now (cfg_BatchSize cfg)), t), 0, Some (ErrEvent e'))"
proof -
  let ?r = "g_read G q now (cfg_BatchSize cfg)"
  obtain e' where "persistMessages G f (fst ?r, t) (snd ?r) = ((fst ?r, t), Err (ErrEvent e'))"
    using poison_batch [OF c m] by blast
  moreover have "snd ?r \<noteq> []" using c by auto
  ultimately show ?thesis by (simp add: ConsumeNew_def split_def Let_def)
qed

end

text \<open>
  C39. A message that cannot be decoded stays for ever and takes its batch with it. On every
  stream with the documented commands, after any approvals, reads and recoveries with any
  failures of any calls, such a message is still in the stream and has no row; and every later
  recovery or read that gets it fails with an event error, stores and removes nothing,
  although the batch may hold messages that could be stored.
\<close>

theorem poison_blocks_recovery:
  assumes G: "approval_stream G" and run: "run_worker G cfg (q, t) ticks = (q', t')"
    and M: "M = set (g_entries G q) \<union> set (produced ticks)" "inj_on msg_ID M"
    and t: "faithful M t" and m: "m \<in> M" "approvalRequest m = Err e"
  shows "m \<in> set (g_entries G q') \<and> t' (msg_ID m) = None \<and>
    (\<forall>now f. m \<in> set (snd (g_claim G q' now (cfg_ClaimIdle cfg) (cfg_BatchSize cfg))) \<longrightarrow>
      (\<exists>q'' e'. RecoverPending G cfg now Replied f (q', t') = ((q'', t'), 0, Some (ErrEvent e')) \<and>
        g_entries G q'' = g_entries G q')) \<and>
    (\<forall>now f. m \<in> set (snd (g_read G q' now (cfg_BatchSize cfg))) \<longrightarrow>
      (\<exists>q'' e'. ConsumeNew G cfg now Replied f (q', t') = ((q'', t'), 0, Some (ErrEvent e')) \<and>
        g_entries G q'' = g_entries G q'))"
proof -
  have "\<not> stored_row t' m" using m(2) by (simp add: stored_row_def)
  then have "m \<in> set (g_entries G q')" "t' (msg_ID m) = None"
    using worker_no_loss_aux [OF G run M t] m(1) by blast+
  then show ?thesis
    using approval_stream.poison_recover [OF G _ m(2), of q' _ cfg] approval_stream.poison_consume [OF G _ m(2), of q' _ cfg]
      approval_stream.claim_entries [OF G] approval_stream.read_entries [OF G] by blast
qed

text \<open>A cost beyond the table's integer column.\<close>

definition ex_poison :: XMessage where
  "ex_poison = event_message ''1-0'' ''client-a'' ''openai'' (2 ^ 31) 1000 8"

lemma ex_poison_facts: "msg_ID ex_poison = ''1-0''" "approvalRequest ex_poison = Err (ErrCostRange ''1-0'')"
  by (simp add: ex_poison_def event_message_def)
    (simp add: ex_poison_def approvalRequest_event max_int32_def max_int64_def)

text \<open>Delivered with a companion at 1 s; the recovery at 2 s gets both, and neither is stored.\<close>

theorem poison_blocks_recovery_witness:
  "\<exists>q' t' q'' e. run_worker mem_group_ops ex_config (ex_group, Map.empty)
       [Produce ex_poison, Produce (ex_message ''2-0''), Consume 1000 Replied no_faults] = (q', t') \<and>
     ex_message ''2-0'' \<in> set (snd (g_claim mem_group_ops q' 2000 (cfg_ClaimIdle ex_config) (cfg_BatchSize ex_config))) \<and>
     RecoverPending mem_group_ops ex_config 2000 Replied no_faults (q', t') = ((q'', t'), 0, Some (ErrEvent e)) \<and>
     ex_poison \<in> set (mem_entries q') \<and> t' ''1-0'' = None"
proof -
  let ?ticks = "[Produce ex_poison, Produce (ex_message ''2-0''), Consume 1000 Replied no_faults]"
  let ?q = "\<lparr>mg_group = True, mg_pending = [(ex_poison, 1000), (ex_message ''2-0'', 1000)], mg_fresh = []\<rparr>"
  have run: "run_worker mem_group_ops ex_config (ex_group, Map.empty) ?ticks = (?q, Map.empty)"
    by (simp add: run_worker_def worker_step_def ConsumeNew_def mem_group_defs ex_group_def ex_config_def
        persistMessages_def ex_poison_facts)
  have c: "snd (g_claim mem_group_ops ?q 2000 (cfg_ClaimIdle ex_config) (cfg_BatchSize ex_config)) = [ex_poison, ex_message ''2-0'']"
    by (simp add: mem_group_defs mem_claimable_def ex_config_def Second_def Millisecond_def)
  let ?M = "{ex_poison, ex_message ''2-0''}"
  have M: "?M = set (g_entries mem_group_ops ex_group) \<union> set (produced ?ticks)" "inj_on msg_ID ?M" "faithful ?M Map.empty"
    by (auto simp: faithful_def ex_poison_facts ex_message_facts mem_group_ops_def mem_entries_def ex_group_def)
  have "ex_poison \<in> ?M" by simp
  from poison_blocks_recovery [OF mem_group.approval_stream_axioms run M this ex_poison_facts(2)]
  have p: "ex_poison \<in> set (g_entries mem_group_ops ?q)" "(Map.empty :: approvals) (msg_ID ex_poison) = None"
    and rec: "ex_poison \<in> set (snd (g_claim mem_group_ops ?q 2000 (cfg_ClaimIdle ex_config) (cfg_BatchSize ex_config))) \<longrightarrow>
      (\<exists>q'' e'. RecoverPending mem_group_ops ex_config 2000 Replied no_faults (?q, Map.empty) =
        ((q'', Map.empty), 0, Some (ErrEvent e')) \<and> g_entries mem_group_ops q'' = g_entries mem_group_ops ?q)"
    by blast+
  obtain q'' e' where "RecoverPending mem_group_ops ex_config 2000 Replied no_faults (?q, Map.empty) =
        ((q'', Map.empty), 0, Some (ErrEvent e'))" using rec unfolding c by auto
  then show ?thesis using run c p by (intro exI conjI) (simp_all add: mem_group_ops_def)
qed

end
