(* ===== verification/Http.thy ===== *)
theory Http
  imports GoStrings
begin

text \<open>
  The response side of an HTTP handler: \<open>http.ResponseWriter\<close>, \<open>writeJSON\<close> and \<open>writeErrorJSON\<close>
  of \<open>cmd/api/json.go\<close> and \<open>writeJSON\<close> of \<open>cmd/worker/json.go\<close>. The header map can be changed
  until the first \<open>WriteHeader\<close>, which sends it with the status; later status codes are
  ignored. Bodies are the values given to the JSON encoder.
\<close>

record 'b writer =
  w_header :: "string \<rightharpoonup> string"
  w_sent :: "(int \<times> (string \<rightharpoonup> string)) option"
  w_body :: "'b list"

definition new_writer :: "'b writer" where
  "new_writer = \<lparr>w_header = Map.empty, w_sent = None, w_body = []\<rparr>"

definition header_Set :: "string \<Rightarrow> string \<Rightarrow> 'b writer \<Rightarrow> 'b writer" where
  "header_Set key val w = w\<lparr>w_header := (w_header w)(key \<mapsto> val)\<rparr>"

definition WriteHeader :: "int \<Rightarrow> 'b writer \<Rightarrow> 'b writer" where
  "WriteHeader code w = (case w_sent w of None \<Rightarrow> w\<lparr>w_sent := Some (code, w_header w)\<rparr> | Some _ \<Rightarrow> w)"

text \<open>\<open>fault\<close> is the error of encoding and writing the body, when there is one.\<close>

definition writeJSON :: "string option \<Rightarrow> 'b writer \<Rightarrow> int \<Rightarrow> 'b \<Rightarrow> 'b writer \<times> string option" where
  "writeJSON fault w status dat =
     (let w1 = WriteHeader status (header_Set ''Content-Type'' ''application/json'' w)
      in case fault of
           Some e \<Rightarrow> (w1, Some e)
         | None \<Rightarrow> (w1\<lparr>w_body := w_body w1 @ [dat]\<rparr>, None))"

definition worker_writeJSON :: "string option \<Rightarrow> 'b writer \<Rightarrow> int \<Rightarrow> 'b \<Rightarrow> 'b writer" where
  "worker_writeJSON fault w status dat =
     (let w1 = WriteHeader status (header_Set ''Content-Type'' ''application/json'' w)
      in case fault of Some e \<Rightarrow> w1 | None \<Rightarrow> w1\<lparr>w_body := w_body w1 @ [dat]\<rparr>)"

text \<open>What the client sees: the status, one header, the body.\<close>

definition sent_status :: "'b writer \<Rightarrow> int option" where
  "sent_status w = map_option fst (w_sent w)"

definition sent_header :: "'b writer \<Rightarrow> string \<Rightarrow> string option" where
  "sent_header w key = Option.bind (w_sent w) (\<lambda>(code, h). h key)"

lemmas writer_defs =
  new_writer_def header_Set_def WriteHeader_def writeJSON_def worker_writeJSON_def sent_status_def sent_header_def

end
