(* ===== verification/GoDate.thy ===== *)
theory GoDate
  imports GoStrings
begin

text \<open>
  Dates and \<open>time.Time.Format\<close> for the two layouts the API uses: \<open>2006-01-02T15:04:05.000Z\<close> in
  \<open>cmd/api/check.go\<close> and \<open>2006-01-02\<close> (\<open>time.DateOnly\<close>) in \<open>cmd/api/analytics.go\<close>, always in UTC.
  A date is computed from the number of days since January 1 of year 1 the way the \<open>time\<close>
  package does, by cutting off cycles of 400, 100, 4 and 1 years.
\<close>

section \<open>Civil dates\<close>

definition isLeap :: "int \<Rightarrow> bool" where
  "isLeap year \<longleftrightarrow> year mod 4 = 0 \<and> (year mod 100 \<noteq> 0 \<or> year mod 400 = 0)"

definition daysBefore :: "int list" where
  "daysBefore = [0, 31, 59, 90, 120, 151, 181, 212, 243, 273, 304, 334, 365]"

text \<open>Month (1 to 12) and day of the month of a day of the year (from 0).\<close>

definition month_day :: "bool \<Rightarrow> int \<Rightarrow> int \<times> int" where
  "month_day leap yday =
     (if leap \<and> yday = 59 then (2, 29)
      else let day = (if leap \<and> yday > 59 then yday - 1 else yday);
               month = day div 31;
               finish = daysBefore ! nat (month + 1)
           in if day \<ge> finish then (month + 2, day - finish + 1)
              else (month + 1, day - daysBefore ! nat month + 1))"

text \<open>Year and day of the year.\<close>

definition year_yday :: "int \<Rightarrow> int \<times> int" where
  "year_yday d0 =
     (let n400 = d0 div 146097; d1 = d0 - 146097 * n400;
          m100 = d1 div 36524; n100 = m100 - m100 div 4; d2 = d1 - 36524 * n100;
          n4 = d2 div 1461; d3 = d2 - 1461 * n4;
          m1 = d3 div 365; n1 = m1 - m1 div 4; d4 = d3 - 365 * n1
      in (400 * n400 + 100 * n100 + 4 * n4 + n1 + 1, d4))"

definition civil_of_days :: "int \<Rightarrow> int \<times> int \<times> int" where
  "civil_of_days d = (let (year, yday) = year_yday d in (year, month_day (isLeap year) yday))"

text \<open>The number of the first day of a year, and of a date.\<close>

definition days_before_year :: "int \<Rightarrow> int" where
  "days_before_year year = (let y = year - 1 in 365 * y + y div 4 - y div 100 + y div 400)"

definition days_of_civil :: "int \<times> int \<times> int \<Rightarrow> int" where
  "days_of_civil date =
     (case date of (year, month, day) \<Rightarrow>
        days_before_year year + daysBefore ! nat (month - 1) + (if isLeap year \<and> month > 2 then 1 else 0) + day - 1)"

text \<open>Four periods of length \<open>q\<close>, the last one day longer.\<close>

lemma cycle_cut:
  fixes x q :: int
  assumes "0 \<le> x" "x \<le> 4 * q" "0 < q" and n: "n = x div q - x div q div 4"
  shows "0 \<le> n" "n \<le> 3" "0 \<le> x - q * n" "x - q * n \<le> q" "n < 3 \<Longrightarrow> x - q * n < q"
proof -
  have m: "0 \<le> x div q" "x div q \<le> 4"
    using assms zdiv_mono1 [of x "4 * q" q] by (simp_all add: pos_imp_zdiv_nonneg_iff)
  have x: "q * (x div q) \<le> x" "x < q * (x div q) + q"
    using assms(3) pos_mod_bound [of q x] pos_mod_sign [of q x] mult_div_mod_eq [of q x] by linarith+
  consider "x div q = 4" | "x div q \<le> 3" using m by linarith
  then have "0 \<le> n \<and> n \<le> 3 \<and> 0 \<le> x - q * n \<and> x - q * n \<le> q \<and> (n < 3 \<longrightarrow> x - q * n < q)"
  proof cases
    case 1
    then have "n = 3" "x = 4 * q" using n x assms(2) by auto
    then show ?thesis using assms(3) by simp
  next
    case 2
    then have "n = x div q" using n m by simp
    then show ?thesis using 2 m x by simp
  qed
  then show "0 \<le> n" "n \<le> 3" "0 \<le> x - q * n" "x - q * n \<le> q" "n < 3 \<Longrightarrow> x - q * n < q" by auto
qed

text \<open>The last year of a cycle of four is a leap year, unless it ends a century that is not the fourth.\<close>

lemma leap_cycle_end:
  assumes y: "year = 400 * a + 100 * b + 4 * (c + 1)" and c: "0 \<le> c" "c \<le> 24" and b: "c = 24 \<Longrightarrow> b = 3"
  shows "isLeap year"
proof -
  have "year = 4 * (100 * a + 25 * b + c + 1)" using y by simp
  then have "year mod 4 = 0" by (simp only: mod_mult_self1_is_0)
  moreover have "year mod 400 = 0" if "c = 24"
  proof -
    have "year = 400 * (a + 1)" using y b [OF that] that by simp
    then show ?thesis by (simp only: mod_mult_self1_is_0)
  qed
  moreover have "year mod 100 \<noteq> 0" if "c \<noteq> 24"
  proof -
    have "year = 4 * (c + 1) + 100 * (4 * a + b)" using y by simp
    then have "year mod 100 = 4 * (c + 1) mod 100" by (simp only: mod_mult_self2)
    moreover have "4 * (c + 1) mod 100 = 4 * (c + 1)" using c that by (intro mod_pos_pos_trivial) auto
    ultimately have "year mod 100 = 4 * (c + 1)" by (rule trans)
    then show ?thesis using c by auto
  qed
  ultimately show ?thesis unfolding isLeap_def by metis
qed

lemma year_yday_correct:
  assumes "year_yday d = (year, yday)"
  shows "days_before_year year + yday = d" and "0 \<le> yday" and "yday < (if isLeap year then 366 else 365)"
proof -
  define a d1 where "a = d div 146097" and "d1 = d - 146097 * a"
  define b d2 where "b = d1 div 36524 - d1 div 36524 div 4" and "d2 = d1 - 36524 * b"
  define c d3 where "c = d2 div 1461" and "d3 = d2 - 1461 * c"
  define e where "e = d3 div 365 - d3 div 365 div 4"
  have eq: "year = 400 * a + 100 * b + 4 * c + e + 1" "yday = d3 - 365 * e"
    using assms
    by (simp_all only: year_yday_def Let_def prod.inject a_def [symmetric] d1_def [symmetric] b_def [symmetric]
        d2_def [symmetric] c_def [symmetric] d3_def [symmetric] e_def [symmetric])
  have d1: "0 \<le> d1" "d1 < 146097" by (simp_all add: d1_def a_def minus_mult_div_eq_mod)
  have "d1 \<le> 4 * 36524" using d1 by linarith
  note cb = cycle_cut [OF d1(1) this _ b_def, folded d2_def]
  have b: "0 \<le> b" "b \<le> 3" "0 \<le> d2" "d2 \<le> 36524" "b < 3 \<Longrightarrow> d2 < 36524" using cb by simp_all
  have d3: "0 \<le> d3" "d3 < 1461" by (simp_all add: d3_def c_def minus_mult_div_eq_mod)
  have c: "0 \<le> c" "c \<le> 24"
    using b(3,4) zdiv_mono1 [of d2 36524 1461] by (simp_all add: c_def pos_imp_zdiv_nonneg_iff)
  have "d3 \<le> 4 * 365" using d3 by linarith
  note ce = cycle_cut [OF d3(1) this _ e_def, folded eq(2)]
  have e: "0 \<le> e" "e \<le> 3" "0 \<le> yday" "yday \<le> 365" "e < 3 \<Longrightarrow> yday < 365" using ce by simp_all
  have d: "d = 146097 * a + 36524 * b + 1461 * c + 365 * e + yday" by (simp add: eq(2) d3_def d2_def d1_def)
  have "(400 * a + 100 * b + 4 * c + e) div 4 = 100 * a + 25 * b + c"
    "(400 * a + 100 * b + 4 * c + e) div 100 = 4 * a + b" "(400 * a + 100 * b + 4 * c + e) div 400 = a"
    using b(1,2) c e(1,2) by linarith+
  then show "days_before_year year + yday = d" unfolding days_before_year_def Let_def eq(1) d by simp
  show "0 \<le> yday" using e(3) .
  have "isLeap year" if "yday = 365"
  proof -
    have e3: "e = 3" using that e(2,5) by (cases "e < 3") auto
    then have "d3 = 1460" using that eq(2) by simp
    then have "c = 24 \<Longrightarrow> b = 3" using b(2,5) by (cases "b < 3") (auto simp: d3_def)
    then show ?thesis using eq(1) e3 c by (intro leap_cycle_end [of year a b c]) simp_all
  qed
  then show "yday < (if isLeap year then 366 else 365)" using e(4) by (cases "yday = 365") auto
qed

text \<open>The days of one year, checked one by one.\<close>

definition month_day_ok :: "bool \<Rightarrow> int \<Rightarrow> bool" where
  "month_day_ok leap yday =
     (case month_day leap yday of (month, day) \<Rightarrow>
        1 \<le> month \<and> month \<le> 12 \<and> 1 \<le> day \<and> day \<le> 31 \<and>
        daysBefore ! nat (month - 1) + (if leap \<and> month > 2 then 1 else 0) + day - 1 = yday)"

lemma month_days_ok: "list_all (month_day_ok False) [0..364] \<and> list_all (month_day_ok True) [0..365]"
  by code_simp

lemma month_day_correct:
  assumes "0 \<le> yday" "yday < (if leap then 366 else 365)"
  shows "month_day_ok leap yday"
  using month_days_ok assms by (cases leap) (auto simp: list_all_iff)

lemma days_of_civil_of_days: "days_of_civil (civil_of_days d) = d"
proof -
  obtain year yday where y: "year_yday d = (year, yday)" by force
  note c = year_yday_correct [OF y]
  have "month_day_ok (isLeap year) yday" using c(2,3) by (rule month_day_correct)
  then show ?thesis
    using c(1) by (auto simp: civil_of_days_def y days_of_civil_def month_day_ok_def split: prod.splits)
qed

section \<open>Layouts\<close>

text \<open>A number padded with zeros to a width (\<open>appendInt\<close>).\<close>

definition pad :: "nat \<Rightarrow> int \<Rightarrow> string" where
  "pad w n = (let ds = nat_string (nat n) in replicate (w - length ds) (CHR ''0'') @ ds)"

definition Format_DateOnly :: "int \<Rightarrow> string" where
  "Format_DateOnly d = (case civil_of_days d of (year, month, day) \<Rightarrow> pad 4 year @ ''-'' @ pad 2 month @ ''-'' @ pad 2 day)"

text \<open>\<open>ResetAt.UTC().Format("2006-01-02T15:04:05.000Z")\<close>; the fraction is cut, not rounded.\<close>

definition Format_ms :: "go_time \<Rightarrow> string" where
  "Format_ms t =
     (let ms = t div Millisecond; s = ms div 1000
      in Format_DateOnly (s div 86400) @ ''T'' @ pad 2 (s mod 86400 div 3600) @ '':'' @ pad 2 (s mod 3600 div 60) @ '':'' @
         pad 2 (s mod 60) @ ''.'' @ pad 3 (ms mod 1000) @ ''Z'')"

text \<open>Reading the fixed positions back.\<close>

definition field :: "nat \<Rightarrow> nat \<Rightarrow> string \<Rightarrow> int" where
  "field i w s = int (digits_val (take w (drop i s)))"

definition parse_DateOnly :: "string \<Rightarrow> int" where
  "parse_DateOnly s = days_of_civil (field 0 4 s, field 5 2 s, field 8 2 s)"

definition parse_ms :: "string \<Rightarrow> go_time" where
  "parse_ms s =
     ((((parse_DateOnly s * 24 + field 11 2 s) * 60 + field 14 2 s) * 60 + field 17 2 s) * 1000 + field 20 3 s) * Millisecond"

lemma digits_val_zeros_append: "digits_val (replicate k (CHR ''0'') @ ds) = digits_val ds"
  by (simp add: digits_val_append)

lemma pad_value: "0 \<le> n \<Longrightarrow> digits_val (pad w n) = nat n"
  by (simp add: pad_def Let_def digits_val_zeros_append)

lemma pad_length: "0 \<le> n \<Longrightarrow> n < 10 ^ w \<Longrightarrow> 0 < w \<Longrightarrow> length (pad w n) = w"
proof -
  assume n: "0 \<le> n" "n < 10 ^ w" "0 < w"
  have "length (nat_string (nat n)) \<le> w"
  proof (cases "n = 0")
    case True
    then show ?thesis using n(3) by (simp add: nat_string.simps)
  next
    case False
    then have "10 ^ (length (nat_string (nat n)) - 1) \<le> nat n" using n(1) by (intro nat_string_length_bounds(2)) simp
    also have "nat n < 10 ^ w" using n(1,2) by (simp add: nat_less_iff)
    finally have "length (nat_string (nat n)) - 1 < w" by (simp add: power_strict_increasing_iff)
    then show ?thesis by simp
  qed
  then show ?thesis by (simp add: pad_def Let_def)
qed

lemma field_here: "length a = i \<Longrightarrow> length b = w \<Longrightarrow> field i w (a @ b @ c) = int (digits_val b)"
  by (simp add: field_def)

lemma field_pad:
  assumes "s = a @ pad w n @ c" "length a = i" "0 \<le> n" "n < 10 ^ w" "0 < w"
  shows "field i w s = n"
  using assms field_here [of a i "pad w n" w c] by (simp add: pad_length pad_value)

lemma civil_ranges:
  assumes "civil_of_days d = (year, month, day)"
  shows "1 \<le> month" "month \<le> 12" "1 \<le> day" "day \<le> 31"
proof -
  obtain y yday where y: "year_yday d = (y, yday)" by force
  note c = year_yday_correct [OF y]
  have "month_day_ok (isLeap y) yday" using c(2,3) by (rule month_day_correct)
  then have "1 \<le> month \<and> month \<le> 12 \<and> 1 \<le> day \<and> day \<le> 31"
    using assms y by (auto simp: civil_of_days_def month_day_ok_def split: prod.splits)
  then show "1 \<le> month" "month \<le> 12" "1 \<le> day" "day \<le> 31" by auto
qed

text \<open>The years whose number has four digits.\<close>

definition four_digit_day :: "int \<Rightarrow> bool" where
  "four_digit_day d \<longleftrightarrow> 1 \<le> fst (civil_of_days d) \<and> fst (civil_of_days d) \<le> 9999"

lemma Format_DateOnly_parts:
  assumes "four_digit_day d"
  obtains y m dd where "Format_DateOnly d = y @ ''-'' @ m @ ''-'' @ dd" "length y = 4" "length m = 2" "length dd = 2"
    "days_of_civil (int (digits_val y), int (digits_val m), int (digits_val dd)) = d"
proof -
  obtain year month day where c: "civil_of_days d = (year, month, day)" by (metis prod.exhaust)
  note r = civil_ranges [OF c]
  have y: "1 \<le> year" "year \<le> 9999" using assms c by (simp_all add: four_digit_day_def)
  show ?thesis
    using that [of "pad 4 year" "pad 2 month" "pad 2 day"] r y c days_of_civil_of_days [of d]
    by (simp add: Format_DateOnly_def pad_length pad_value)
qed

lemma parse_Format_DateOnly:
  assumes "four_digit_day d"
  shows "parse_DateOnly (Format_DateOnly d @ rest) = d" "length (Format_DateOnly d) = 10"
proof -
  obtain y m dd where f: "Format_DateOnly d = y @ ''-'' @ m @ ''-'' @ dd" "length y = 4" "length m = 2" "length dd = 2"
    "days_of_civil (int (digits_val y), int (digits_val m), int (digits_val dd)) = d"
    using Format_DateOnly_parts [OF assms] by blast
  have "field 0 4 (Format_DateOnly d @ rest) = int (digits_val y)"
    "field 5 2 (Format_DateOnly d @ rest) = int (digits_val m)"
    "field 8 2 (Format_DateOnly d @ rest) = int (digits_val dd)"
    using f(2-4) field_here [of "[]" 0 y 4] field_here [of "y @ ''-''" 5 m 2] field_here [of "y @ ''-'' @ m @ ''-''" 8 dd 2]
    by (simp_all add: f(1))
  then show "parse_DateOnly (Format_DateOnly d @ rest) = d" using f(5) by (simp add: parse_DateOnly_def)
  show "length (Format_DateOnly d) = 10" using f(1-4) by simp
qed

lemma mod_mult_div: "0 < b \<Longrightarrow> 0 \<le> c \<Longrightarrow> a mod (b * c) div b = a div b mod c" for a b c :: int
  by (simp add: zmod_zmult2_eq)

lemma parse_Format_ms:
  assumes "four_digit_day (t div (86400 * Second))"
  shows "parse_ms (Format_ms t) = t div Millisecond * Millisecond"
proof -
  define ms s where "ms = t div Millisecond" and "s = ms div 1000"
  let ?d = "Format_DateOnly (s div 86400)"
  let ?h = "pad 2 (s mod 86400 div 3600)" and ?m = "pad 2 (s mod 3600 div 60)" and ?s = "pad 2 (s mod 60)"
    and ?f = "pad 3 (ms mod 1000)"
  have "t div (86400 * Second) = s div 86400"
    by (simp add: s_def ms_def Second_def Millisecond_def zdiv_zmult2_eq [symmetric])
  then have d: "four_digit_day (s div 86400)" using assms by simp
  have F: "Format_ms t = ?d @ ''T'' @ ?h @ '':'' @ ?m @ '':'' @ ?s @ ''.'' @ ?f @ ''Z''"
    by (simp add: Format_ms_def Let_def ms_def s_def)
  have r: "0 \<le> s mod 86400 div 3600" "s mod 86400 div 3600 < 100" "0 \<le> s mod 3600 div 60" "s mod 3600 div 60 < 100"
    "0 \<le> s mod 60" "s mod 60 < 100" "0 \<le> ms mod 1000" "ms mod 1000 < 1000"
    using pos_mod_bound [of 86400 s] pos_mod_bound [of 3600 s] pos_mod_bound [of 60 s] pos_mod_bound [of 1000 ms]
    by (auto simp: pos_imp_zdiv_nonneg_iff)
  have len: "length ?d = 10" "length ?h = 2" "length ?m = 2" "length ?s = 2"
    by (rule parse_Format_DateOnly(2) [OF d]) (rule pad_length; simp add: r)+
  have "field 11 2 (Format_ms t) = s mod 86400 div 3600"
    by (rule field_pad [of _ "?d @ ''T''"]) (simp_all add: F len r)
  moreover have "field 14 2 (Format_ms t) = s mod 3600 div 60"
    by (rule field_pad [of _ "?d @ ''T'' @ ?h @ '':''"]) (simp_all add: F len r)
  moreover have "field 17 2 (Format_ms t) = s mod 60"
    by (rule field_pad [of _ "?d @ ''T'' @ ?h @ '':'' @ ?m @ '':''"]) (simp_all add: F len r)
  moreover have "field 20 3 (Format_ms t) = ms mod 1000"
    by (rule field_pad [of _ "?d @ ''T'' @ ?h @ '':'' @ ?m @ '':'' @ ?s @ ''.''"]) (simp_all add: F len r)
  moreover have "parse_DateOnly (Format_ms t) = s div 86400" unfolding F by (rule parse_Format_DateOnly(1) [OF d])
  ultimately have fields: "parse_DateOnly (Format_ms t) = s div 86400"
    "field 11 2 (Format_ms t) = s mod 86400 div 3600" "field 14 2 (Format_ms t) = s mod 3600 div 60"
    "field 17 2 (Format_ms t) = s mod 60" "field 20 3 (Format_ms t) = ms mod 1000" by blast+
  have hms: "((s div 86400 * 24 + s mod 86400 div 3600) * 60 + s mod 3600 div 60) * 60 + s mod 60 = s"
  proof -
    define m h where "m = s div 60" and "h = m div 60"
    have n: "(3600::int) * 24 = 86400" "(60::int) * 60 = 3600" by simp_all
    have dv: "s div 3600 = h" unfolding h_def m_def n(2) [symmetric] by (rule zdiv_zmult2_eq) simp
    have "s div 86400 = h div 24" unfolding dv [symmetric] n(1) [symmetric] by (rule zdiv_zmult2_eq) simp
    moreover have "s mod 86400 div 3600 = h mod 24"
      unfolding dv [symmetric] n(1) [symmetric] by (rule mod_mult_div) simp_all
    moreover have "s mod 3600 div 60 = m mod 60" unfolding m_def n(2) [symmetric] by (rule mod_mult_div) simp_all
    moreover have "m div 60 = h" "s = m * 60 + s mod 60" by (simp_all add: h_def m_def)
    ultimately show ?thesis by (metis div_mult_mod_eq)
  qed
  have "parse_ms (Format_ms t) = (s * 1000 + ms mod 1000) * Millisecond" by (simp only: parse_ms_def fields hms)
  also have "s * 1000 + ms mod 1000 = ms" by (simp add: s_def)
  finally show ?thesis by (simp add: ms_def)
qed

end
