(* ===== verification/Api.thy ===== *)
theory Api
  imports Environment Http GoDate
begin

text \<open>
  The decision endpoint of \<open>cmd/api\<close>: reading the request (\<open>json.go\<close>), the handler (\<open>check.go\<close>),
  the error responses (\<open>errors.go\<close>), the metrics (\<open>metrics.go\<close>), health and readiness
  (\<open>health.go\<close>, \<open>redis.go\<close>). The limiter behind the handler, the validator package and the
  metrics library are arguments.
\<close>

section \<open>Reading the request\<close>

text \<open>
  A JSON value as the scanner of \<open>encoding/json\<close> delivers it, numbers by their literal. A body
  is the first value, or the scanner's error (no value, bad syntax, or too long), and
  whether nothing but white space follows.
\<close>

datatype json = JNull | JBool bool | JNumber string | JString string | JArray "json list" | JObject "(string \<times> json) list"

record request_body =
  rb_first :: "(string, json) result"
  rb_eof :: bool

record checkRateLimitPayload =
  pl_ClientID :: string
  pl_Resource :: string
  pl_Cost :: int

datatype decode_error = ErrUnknownField string | ErrFieldType string | ErrTopLevel

text \<open>
  Field names match without regard to case, also for the two non-ASCII letters that fold
  to ASCII ones (the long s and the Kelvin sign).
\<close>

fun fold_name :: "nat list \<Rightarrow> nat list" where
  "fold_name [] = []"
| "fold_name (c # rest) =
     (if c = 0xC5 \<and> take 1 rest = [0xBF] then 0x53 # fold_name (drop 1 rest)
      else if c = 0xE2 \<and> take 2 rest = [0x84, 0xAA] then 0x4B # fold_name (drop 2 rest)
      else (if 97 \<le> c \<and> c \<le> 122 then c - 32 else c) # fold_name rest)"

definition same_name :: "string \<Rightarrow> string \<Rightarrow> bool" where
  "same_name a b \<longleftrightarrow> fold_name (map of_char a) = fold_name (map of_char b)"

text \<open>One member of the object; null leaves a field as it is.\<close>

definition set_field :: "checkRateLimitPayload \<Rightarrow> string \<Rightarrow> json \<Rightarrow> checkRateLimitPayload \<times> decode_error option" where
  "set_field p key val =
     (if same_name key ''client_id''
      then (case val of JString s \<Rightarrow> (p\<lparr>pl_ClientID := s\<rparr>, None) | JNull \<Rightarrow> (p, None) | _ \<Rightarrow> (p, Some (ErrFieldType key)))
      else if same_name key ''resource''
      then (case val of JString s \<Rightarrow> (p\<lparr>pl_Resource := s\<rparr>, None) | JNull \<Rightarrow> (p, None) | _ \<Rightarrow> (p, Some (ErrFieldType key)))
      else if same_name key ''cost''
      then (case val of
              JNumber n \<Rightarrow> (case ParseInt n of Inl err \<Rightarrow> (p, Some (ErrFieldType key)) | Inr c \<Rightarrow> (p\<lparr>pl_Cost := c\<rparr>, None))
            | JNull \<Rightarrow> (p, None)
            | _ \<Rightarrow> (p, Some (ErrFieldType key)))
      else (p, Some (ErrUnknownField key)))"

text \<open>The first error is kept and the other members are still read.\<close>

fun set_fields :: "checkRateLimitPayload \<Rightarrow> decode_error option \<Rightarrow> (string \<times> json) list \<Rightarrow> (decode_error, checkRateLimitPayload) result" where
  "set_fields p err [] = (case err of Some e \<Rightarrow> Err e | None \<Rightarrow> Ok p)"
| "set_fields p err ((key, val) # rest) =
     (let (p', e) = set_field p key val
      in set_fields p' (case err of Some e0 \<Rightarrow> Some e0 | None \<Rightarrow> e) rest)"

definition decode_payload :: "json \<Rightarrow> (decode_error, checkRateLimitPayload) result" where
  "decode_payload v =
     (let zero = \<lparr>pl_ClientID = [], pl_Resource = [], pl_Cost = 0\<rparr>
      in case v of JNull \<Rightarrow> Ok zero | JObject members \<Rightarrow> set_fields zero None members | _ \<Rightarrow> Err ErrTopLevel)"

datatype read_error = ErrScan string | ErrDecode decode_error | ErrOneObject

definition readJSON :: "request_body \<Rightarrow> (read_error, checkRateLimitPayload) result" where
  "readJSON body =
     (case rb_first body of
        Inl e \<Rightarrow> Err (ErrScan e)
      | Inr v \<Rightarrow>
          (case decode_payload v of
             Inl e \<Rightarrow> Err (ErrDecode e)
           | Inr payload \<Rightarrow> if \<not> rb_eof body then Err ErrOneObject else Ok payload))"

section \<open>Responses\<close>

record checkRateLimitResponse =
  cr_Allowed :: bool
  cr_Limit :: int
  cr_Remaining :: int
  cr_ResetAt :: string
  cr_RetryAfterMS :: int

datatype api_error =
    ErrRead read_error
  | ErrValidation string
  | ErrLimiter limiter_error
  | ErrAnalyticsPeriod
  | ErrDatabase string
  | ErrWrite string

text \<open>The message of an error body: a fixed text, or the text of the error.\<close>

datatype message = Text string | ErrorText api_error

text \<open>\<open>'r\<close> are the bodies of the reports.\<close>

datatype 'r api_body =
    DecisionBody checkRateLimitResponse
  | ErrorBody message
  | StatusMap string string string
  | ReportBody 'r

definition writeErrorJSON :: "string option \<Rightarrow> 'r api_body writer \<Rightarrow> int \<Rightarrow> message \<Rightarrow> 'r api_body writer" where
  "writeErrorJSON fault w status msg = fst (writeJSON fault w status (ErrorBody msg))"

definition internalServerError :: "string option \<Rightarrow> 'r api_body writer \<Rightarrow> 'r api_body writer" where
  "internalServerError fault w = writeErrorJSON fault w 500 (Text ''rate-limit check failed'')"

definition retryAfterSeconds :: "duration \<Rightarrow> string" where
  "retryAfterSeconds d = int_string (quot64 (sub64 (add64 d Second) 1) Second)"

definition serviceUnavailableError :: "api_config \<Rightarrow> string option \<Rightarrow> 'r api_body writer \<Rightarrow> 'r api_body writer" where
  "serviceUnavailableError cfg fault w =
     writeErrorJSON fault
       (header_Set ''Retry-After'' (retryAfterSeconds (OpenTimeout (api_circuitBreakerCfg cfg))) w)
       503 (Text ''rate-limit service temporarily unavailable'')"

definition analyticsUnavailableError :: "string option \<Rightarrow> 'r api_body writer \<Rightarrow> 'r api_body writer" where
  "analyticsUnavailableError fault w =
     writeErrorJSON fault (header_Set ''Retry-After'' ''1'' w) 503 (Text ''analytics temporarily unavailable'')"

definition badRequestError :: "string option \<Rightarrow> 'r api_body writer \<Rightarrow> api_error \<Rightarrow> 'r api_body writer" where
  "badRequestError fault w err = writeErrorJSON fault w 400 (ErrorText err)"

definition notFoundError :: "string option \<Rightarrow> 'r api_body writer \<Rightarrow> api_error \<Rightarrow> 'r api_body writer" where
  "notFoundError fault w err = writeErrorJSON fault w 404 (ErrorText err)"

section \<open>Metrics\<close>

definition unknownMetricResource :: string where "unknownMetricResource = ''unknown''"
definition metricOutcomeAllowed :: string where "metricOutcomeAllowed = ''allowed''"
definition metricOutcomeQuotaRejected :: string where "metricOutcomeQuotaRejected = ''quota_rejected''"
definition metricOutcomeInvalidRequest :: string where "metricOutcomeInvalidRequest = ''invalid_request''"
definition metricOutcomeUnknownPolicy :: string where "metricOutcomeUnknownPolicy = ''unknown_policy''"
definition metricOutcomeBacklogFull :: string where "metricOutcomeBacklogFull = ''backlog_full''"
definition metricOutcomeDependencyUnavailable :: string where
  "metricOutcomeDependencyUnavailable = ''dependency_unavailable''"
definition metricOutcomeInternalError :: string where "metricOutcomeInternalError = ''internal_error''"

definition metricOutcomes :: "string list" where
  "metricOutcomes = [metricOutcomeAllowed, metricOutcomeQuotaRejected, metricOutcomeInvalidRequest,
     metricOutcomeUnknownPolicy, metricOutcomeBacklogFull, metricOutcomeDependencyUnavailable, metricOutcomeInternalError]"

lemmas outcome_defs =
  metricOutcomeAllowed_def metricOutcomeQuotaRejected_def metricOutcomeInvalidRequest_def
  metricOutcomeUnknownPolicy_def metricOutcomeBacklogFull_def metricOutcomeDependencyUnavailable_def
  metricOutcomeInternalError_def

text \<open>
  The operations of the metrics library: create a series of the decision counter and the
  duration histogram, count and observe a decision, change the gauge; and what they show.
\<close>

record 'm metric_ops =
  m_series :: "'m \<Rightarrow> string \<times> string \<Rightarrow> 'm"
  m_inc :: "'m \<Rightarrow> string \<times> string \<Rightarrow> 'm"
  m_observe :: "'m \<Rightarrow> string \<times> string \<Rightarrow> duration \<Rightarrow> 'm"
  m_gauge_add :: "'m \<Rightarrow> int \<Rightarrow> 'm"
  m_count :: "'m \<Rightarrow> string \<times> string \<Rightarrow> int option"
  m_gauge :: "'m \<Rightarrow> int"

record 'm apiMetrics =
  store :: 'm
  knownResources :: "string list"

definition newAPIMetrics :: "'m metric_ops \<Rightarrow> 'm \<Rightarrow> policies \<Rightarrow> 'm apiMetrics" where
  "newAPIMetrics M registry ps =
     (let known = remdups (unknownMetricResource # map (\<lambda>(key, policy). Resource key) ps)
      in \<lparr>store = foldl (m_series M) registry
            (concat (map (\<lambda>resource. map (\<lambda>outcome. (outcome, resource)) metricOutcomes) known)),
          knownResources = known\<rparr>)"

definition resourceLabel :: "'m apiMetrics \<Rightarrow> string \<Rightarrow> string" where
  "resourceLabel m resource = (if resource \<in> set (knownResources m) then resource else unknownMetricResource)"

definition observe :: "'m metric_ops \<Rightarrow> 'm apiMetrics \<Rightarrow> string \<Rightarrow> string \<Rightarrow> duration \<Rightarrow> 'm apiMetrics" where
  "observe M m resource outcome elapsed =
     (let label = (outcome, resourceLabel m resource)
      in m\<lparr>store := m_observe M (m_inc M (store m) label) label elapsed\<rparr>)"

section \<open>The handler\<close>

text \<open>
  The body of \<open>checkRateLimitHandler\<close> up to its deferred function: the limiter's state, the
  resource and the outcome that are recorded, and the response. \<open>wfault\<close> gives the fault of the
  first and of a second write.
\<close>

definition check_request ::
  "(checkRateLimitPayload \<Rightarrow> string option) \<Rightarrow> 'st allow_fun \<Rightarrow> api_config \<Rightarrow> (nat \<Rightarrow> string option) \<Rightarrow>
   'st \<Rightarrow> ctx_error option \<Rightarrow> go_time \<Rightarrow> request_body \<Rightarrow> 'st \<times> string \<times> string \<times> 'r api_body writer" where
  "check_request validate allow cfg wfault st ctx now body =
     (case readJSON body of
        Inl err \<Rightarrow> (st, unknownMetricResource, metricOutcomeInvalidRequest, badRequestError (wfault 0) new_writer (ErrRead err))
      | Inr payload \<Rightarrow>
        (case validate payload of
           Some err \<Rightarrow> (st, pl_Resource payload, metricOutcomeInvalidRequest,
                        badRequestError (wfault 0) new_writer (ErrValidation err))
         | None \<Rightarrow>
           let resource = pl_Resource payload;
               (st', r) = allow st ctx now \<lparr>ClientID = pl_ClientID payload, Resource = pl_Resource payload\<rparr> (pl_Cost payload)
           in case r of
                Inl err \<Rightarrow>
                  (let (outcome, w) =
                     (if errors_Is err (ErrUnavailable None)
                      then (metricOutcomeDependencyUnavailable, serviceUnavailableError cfg (wfault 0) new_writer)
                      else if errors_Is err ErrEventBacklogFull
                      then (metricOutcomeBacklogFull, serviceUnavailableError cfg (wfault 0) new_writer)
                      else if errors_Is err ErrNoPolicy
                      then (metricOutcomeUnknownPolicy, notFoundError (wfault 0) new_writer (ErrLimiter err))
                      else if errors_Is err ErrInvalidCost \<or> errors_Is err ErrCostExceedsLimit
                      then (metricOutcomeInvalidRequest, badRequestError (wfault 0) new_writer (ErrLimiter err))
                      else (metricOutcomeInternalError, internalServerError (wfault 0) new_writer))
                   in (st', resource, outcome, w))
              | Inr decision \<Rightarrow>
                  (let response = \<lparr>cr_Allowed = Allowed decision, cr_Limit = DLimit decision,
                         cr_Remaining = Remaining decision, cr_ResetAt = Format_ms (ResetAt decision),
                         cr_RetryAfterMS = RetryAfterMS decision\<rparr>;
                       (outcome, status, w0) =
                         (if \<not> Allowed decision
                          then (metricOutcomeQuotaRejected, 429,
                                header_Set ''Retry-After'' (int_string (RetryAfterMS decision)) new_writer)
                          else (metricOutcomeAllowed, 200, new_writer));
                       (w1, err) = writeJSON (wfault 0) w0 status (DecisionBody response)
                   in case err of
                        Some e \<Rightarrow> (st', resource, metricOutcomeInternalError, internalServerError (wfault 1) w1)
                      | None \<Rightarrow> (st', resource, outcome, w1))))"

definition checkRateLimitHandler ::
  "(checkRateLimitPayload \<Rightarrow> string option) \<Rightarrow> 'm metric_ops \<Rightarrow> 'st allow_fun \<Rightarrow> api_config \<Rightarrow> (nat \<Rightarrow> string option) \<Rightarrow>
   duration \<Rightarrow> 'st \<times> 'm apiMetrics \<Rightarrow> ctx_error option \<Rightarrow> go_time \<Rightarrow> request_body \<Rightarrow>
   ('st \<times> 'm apiMetrics) \<times> 'r api_body writer" where
  "checkRateLimitHandler validate M allow cfg wfault elapsed s ctx now body =
     (let m1 = (snd s)\<lparr>store := m_gauge_add M (store (snd s)) 1\<rparr>;
          (st', resource, outcome, w) = check_request validate allow cfg wfault (fst s) ctx now body;
          m2 = m1\<lparr>store := m_gauge_add M (store m1) (- 1)\<rparr>
      in ((st', observe M m2 resource outcome elapsed), w))"

section \<open>Health and readiness\<close>

definition version :: string where "version = ''0.1.0''"

definition api_healthCheckHandler :: "api_config \<Rightarrow> (nat \<Rightarrow> string option) \<Rightarrow> 'r api_body writer" where
  "api_healthCheckHandler cfg wfault =
     (let (w, err) = writeJSON (wfault 0) new_writer 200 (StatusMap ''ok'' (api_env cfg) version)
      in case err of Some e \<Rightarrow> internalServerError (wfault 1) w | None \<Rightarrow> w)"

text \<open>\<open>newRedisReadinessCheck\<close>: the breaker is asked first; \<open>ping\<close> is the error of the ping.\<close>

definition redisReadinessCheck :: "CircuitBreakerLimiter \<Rightarrow> go_time \<Rightarrow> limiter_error option \<Rightarrow> limiter_error option" where
  "redisReadinessCheck l now ping = (if \<not> Ready l now then Some (ErrUnavailable None) else ping)"

definition api_readinessCheckHandler ::
  "api_config \<Rightarrow> (nat \<Rightarrow> string option) \<Rightarrow> limiter_error option \<Rightarrow> 'r api_body writer" where
  "api_readinessCheckHandler cfg wfault check =
     (let (status, text) = (case check of Some err \<Rightarrow> (503, ''not ready'') | None \<Rightarrow> (200, ''ready''));
          (w, err) = writeJSON (wfault 0) new_writer status (StatusMap text (api_env cfg) version)
      in case err of Some e \<Rightarrow> internalServerError (wfault 1) w | None \<Rightarrow> w)"

section \<open>What the handler relies on\<close>

text \<open>The validator applies the tags \<open>required\<close> and \<open>gt=0\<close> of the payload.\<close>

locale payload_validator =
  fixes validate :: "checkRateLimitPayload \<Rightarrow> string option"
  assumes validate_None: "validate p = None \<longleftrightarrow> pl_ClientID p \<noteq> [] \<and> pl_Resource p \<noteq> [] \<and> 0 < pl_Cost p"

definition tags_validate :: "checkRateLimitPayload \<Rightarrow> string option" where
  "tags_validate p =
     (if pl_ClientID p = [] then Some ''ClientID: required''
      else if pl_Resource p = [] then Some ''Resource: required''
      else if pl_Cost p = 0 then Some ''Cost: required''
      else if \<not> 0 < pl_Cost p then Some ''Cost: gt''
      else None)"

interpretation tags: payload_validator tags_validate
  by unfold_locales (auto simp: tags_validate_def)

text \<open>The metrics library: a counter per label, created at zero on first use, and a gauge.\<close>

locale metrics_library =
  fixes M :: "'m metric_ops"
  assumes count_series: "m_count M (m_series M s l) = (m_count M s)(l \<mapsto> (case m_count M s l of None \<Rightarrow> 0 | Some n \<Rightarrow> n))"
    and count_inc: "m_count M (m_inc M s l) = (m_count M s)(l \<mapsto> (case m_count M s l of None \<Rightarrow> 1 | Some n \<Rightarrow> n + 1))"
    and count_observe: "m_count M (m_observe M s l d) = m_count M s"
    and count_gauge: "m_count M (m_gauge_add M s i) = m_count M s"
    and gauge_series: "m_gauge M (m_series M s l) = m_gauge M s"
    and gauge_inc: "m_gauge M (m_inc M s l) = m_gauge M s"
    and gauge_observe: "m_gauge M (m_observe M s l d) = m_gauge M s"
    and gauge_add: "m_gauge M (m_gauge_add M s i) = m_gauge M s + i"

record mem_metrics =
  mm_count :: "string \<times> string \<Rightarrow> int option"
  mm_durations :: "(string \<times> string) \<Rightarrow> duration list"
  mm_gauge :: int

definition mem_metric_ops :: "mem_metrics metric_ops" where
  "mem_metric_ops = \<lparr>
     m_series = \<lambda>s l. s\<lparr>mm_count := (mm_count s)(l \<mapsto> (case mm_count s l of None \<Rightarrow> 0 | Some n \<Rightarrow> n))\<rparr>,
     m_inc = \<lambda>s l. s\<lparr>mm_count := (mm_count s)(l \<mapsto> (case mm_count s l of None \<Rightarrow> 1 | Some n \<Rightarrow> n + 1))\<rparr>,
     m_observe = \<lambda>s l d. s\<lparr>mm_durations := (mm_durations s)(l := mm_durations s l @ [d])\<rparr>,
     m_gauge_add = \<lambda>s i. s\<lparr>mm_gauge := mm_gauge s + i\<rparr>,
     m_count = mm_count, m_gauge = mm_gauge\<rparr>"

interpretation mem_metrics: metrics_library mem_metric_ops
  by unfold_locales (simp_all add: mem_metric_ops_def)

definition ex_metrics :: mem_metrics where
  "ex_metrics = \<lparr>mm_count = Map.empty, mm_durations = (\<lambda>_. []), mm_gauge = 0\<rparr>"

section \<open>Answers\<close>

text \<open>The status of the answer to a limiter's result.\<close>

fun decision_status :: "(limiter_error, Decision) result \<Rightarrow> int" where
  "decision_status (Inr d) = (if Allowed d then 200 else 429)"
| "decision_status (Inl (ErrUnavailable e)) = 503"
| "decision_status (Inl ErrEventBacklogFull) = 503"
| "decision_status (Inl ErrNoPolicy) = 404"
| "decision_status (Inl ErrInvalidCost) = 400"
| "decision_status (Inl ErrCostExceedsLimit) = 400"
| "decision_status (Inl (ErrCtx e)) = 500"
| "decision_status (Inl (ErrRedis e)) = 500"
| "decision_status (Inl (ErrResultLength n)) = 500"

lemmas reply_defs =
  writer_defs writeErrorJSON_def internalServerError_def serviceUnavailableError_def badRequestError_def notFoundError_def
  analyticsUnavailableError_def

definition payload_key :: "checkRateLimitPayload \<Rightarrow> Key" where
  "payload_key p = \<lparr>ClientID = pl_ClientID p, Resource = pl_Resource p\<rparr>"

text \<open>The body documented for each result of the limiter.\<close>

definition decision_body :: "(limiter_error, Decision) result \<Rightarrow> 'r api_body" where
  "decision_body r =
     (case r of
        Inr d \<Rightarrow> DecisionBody \<lparr>cr_Allowed = Allowed d, cr_Limit = DLimit d, cr_Remaining = Remaining d,
          cr_ResetAt = Format_ms (ResetAt d), cr_RetryAfterMS = RetryAfterMS d\<rparr>
      | Inl e \<Rightarrow> ErrorBody
          (if decision_status r = 503 then Text ''rate-limit service temporarily unavailable''
           else if decision_status r = 500 then Text ''rate-limit check failed''
           else ErrorText (ErrLimiter e)))"

lemma check_error_status:
  assumes "readJSON body = Ok p" "validate p = None" "allow st ctx now (payload_key p) (pl_Cost p) = (st2, Err e)"
    and "check_request validate allow cfg (\<lambda>_. None) st ctx now body = (st', res, outcome, w)"
  shows "st' = st2" "res = pl_Resource p" "sent_status w = Some (decision_status (Err e))" "w_body w = [decision_body (Err e)]"
    "sent_header w ''Retry-After'' =
      (if decision_status (Err e) = 503 then Some (retryAfterSeconds (OpenTimeout (api_circuitBreakerCfg cfg))) else None)"
  using assms
  by (cases e; auto simp: check_request_def payload_key_def errors_Is_def reply_defs decision_body_def Let_def split: if_splits)+

lemma check_decision_status:
  assumes "readJSON body = Ok p" "validate p = None" "allow st ctx now (payload_key p) (pl_Cost p) = (st2, Ok d)"
    and "check_request validate allow cfg (\<lambda>_. None) st ctx now body = (st', res, outcome, w)"
  shows "st' = st2" "res = pl_Resource p" "sent_status w = Some (decision_status (Ok d))"
    "w_body w = [DecisionBody \<lparr>cr_Allowed = Allowed d, cr_Limit = DLimit d, cr_Remaining = Remaining d,
       cr_ResetAt = Format_ms (ResetAt d), cr_RetryAfterMS = RetryAfterMS d\<rparr>]"
    "sent_header w ''Retry-After'' = (if Allowed d then None else Some (int_string (RetryAfterMS d)))"
  using assms by (auto simp: check_request_def payload_key_def reply_defs Let_def split: if_splits)

text \<open>
  C13. The answer on every branch, when writes succeed. A request that cannot be read, or that is
  not valid, gets 400 with the text of that error and does not reach the limiter. Every
  other request gets the status and the body of the limiter's result: 200 and 429 with the decision, 503 for
  an unavailable dependency or a full backlog and 500 for any other failure, each with a fixed
  text, 404 without policy and 400 for a cost that cannot be served, with the text of the error.
  It is the only body written. \<open>Retry-After\<close> is set for 503 to the open timeout in seconds and for
  429 to the delay in milliseconds, and for no other status.
\<close>

theorem check_answers:
  assumes "payload_validator validate"
    and "check_request validate allow cfg (\<lambda>_. None) st ctx now body = (st', res, outcome, w)"
  shows "case readJSON body of
      Inl err \<Rightarrow> st' = st \<and> sent_status w = Some 400 \<and> sent_header w ''Retry-After'' = None \<and>
        w_body w = [ErrorBody (ErrorText (ErrRead err))]
    | Inr p \<Rightarrow>
        if pl_ClientID p = [] \<or> pl_Resource p = [] \<or> pl_Cost p \<le> 0
        then st' = st \<and> sent_status w = Some 400 \<and> sent_header w ''Retry-After'' = None \<and>
          (\<exists>v. validate p = Some v \<and> w_body w = [ErrorBody (ErrorText (ErrValidation v))])
        else st' = fst (allow st ctx now (payload_key p) (pl_Cost p)) \<and>
          (let r = snd (allow st ctx now (payload_key p) (pl_Cost p))
           in sent_status w = Some (decision_status r) \<and> w_body w = [decision_body r] \<and>
              sent_header w ''Retry-After'' =
                (case r of
                   Inr d \<Rightarrow> if Allowed d then None else Some (int_string (RetryAfterMS d))
                 | Inl e \<Rightarrow> if decision_status r = 503 then Some (retryAfterSeconds (OpenTimeout (api_circuitBreakerCfg cfg)))
                            else None))"
proof (cases "readJSON body")
  case (Inl err)
  then show ?thesis using assms(2) by (auto simp: check_request_def reply_defs)
next
  case (Inr p)
  note V = payload_validator.validate_None [OF assms(1), of p]
  show ?thesis
  proof (cases "validate p")
    case (Some err)
    then have "pl_ClientID p = [] \<or> pl_Resource p = [] \<or> pl_Cost p \<le> 0" using V by auto
    then show ?thesis using Inr Some assms(2) by (auto simp: check_request_def reply_defs)
  next
    case None
    then have ok: "\<not> (pl_ClientID p = [] \<or> pl_Resource p = [] \<or> pl_Cost p \<le> 0)" using V by auto
    obtain st2 r where a: "allow st ctx now (payload_key p) (pl_Cost p) = (st2, r)" by force
    show ?thesis
    proof (cases r)
      case (Inl e)
      with a have a': "allow st ctx now (payload_key p) (pl_Cost p) = (st2, Err e)" by simp
      show ?thesis using check_error_status [OF Inr None a' assms(2)] Inr ok a' by simp
    next
      case (Inr d)
      with a have a': "allow st ctx now (payload_key p) (pl_Cost p) = (st2, Ok d)" by simp
      show ?thesis using check_decision_status [OF \<open>readJSON body = Ok p\<close> None a' assms(2)] \<open>readJSON body = Ok p\<close> ok a'
        by (simp add: decision_body_def)
    qed
  qed
qed

text \<open>The default configuration, and a request of the example client as JSON.\<close>

definition ex_api :: api_config where
  "ex_api = \<lparr>api_addr = '':8080'', api_env = ''development'', api_databaseURL = ''postgres://db'', api_analyticsTimeout = Second,
     api_redisCfg = \<lparr>rc_addr = ''localhost:6379'', rc_masterName = [], rc_sentinelAddrs = [], rc_password = [], rc_db = 0,
       rc_dialTimeout = 500 * Millisecond, rc_readTimeout = 200 * Millisecond, rc_writeTimeout = 200 * Millisecond\<rparr>,
     api_circuitBreakerCfg = \<lparr>FailureThreshold = 3, OpenTimeout = 5 * Second, DecisionTimeout = 300 * Millisecond\<rparr>,
     api_redisLimiterCfg = \<lparr>KeyPrefix = [], EventStream = ''rate_limit:approved_requests'', MaxEventBacklog = 100000\<rparr>,
     api_tokenBucketPolicies = configured_policies\<rparr>"

definition ex_body :: "string \<Rightarrow> request_body" where
  "ex_body n = \<lparr>rb_first = Ok (JObject [(''client_id'', JString ''client-a''), (''resource'', JString ''openai''), (''cost'', JNumber n)]),
     rb_eof = True\<rparr>"

lemma ex_body_read: "readJSON (ex_body ''1'') = Ok \<lparr>pl_ClientID = ''client-a'', pl_Resource = ''openai'', pl_Cost = 1\<rparr>"
proof -
  have "ParseInt ''1'' = Ok 1" using ParseInt_nat_string [of 1] by (simp add: nat_string_examples max_int64_def)
  then show ?thesis
    by (simp add: readJSON_def ex_body_def decode_payload_def set_field_def same_name_def)
qed

definition ex_denial :: Decision where
  "ex_denial = \<lparr>Allowed = False, DLimit = 100, Remaining = 0, ResetAt = unix_epoch + 60 * Second, RetryAfterMS = 600\<rparr>"

theorem check_answers_witness:
  "\<exists>st' res outcome (w :: unit api_body writer).
     check_request tags_validate (\<lambda>st ctx now key cost. (st, Ok ex_denial)) ex_api (\<lambda>_. None) () None unix_epoch (ex_body ''1'')
       = (st', res, outcome, w) \<and> sent_status w = Some 429 \<and> sent_header w ''Retry-After'' = Some (int_string 600) \<and>
     w_body w = [decision_body (Ok ex_denial)]"
proof -
  let ?allow = "\<lambda>st ctx now key cost. (st, Ok ex_denial)"
  obtain st' res outcome and w :: "unit api_body writer" where
    w: "check_request tags_validate ?allow ex_api (\<lambda>_. None) () None unix_epoch (ex_body ''1'') = (st', res, outcome, w)"
    by (metis prod.exhaust)
  show ?thesis
    using check_answers [OF tags.payload_validator_axioms w] w by (simp add: ex_body_read Let_def ex_denial_def)
qed

section \<open>The reset time\<close>

text \<open>
  C36. The answer carries the decision unchanged: limit, remaining capacity and delay are those
  of the limiter, and the text of \<open>reset_at\<close>, read back as a date, is the limiter's reset time
  to the millisecond, for every date up to the year 9999.
\<close>

theorem check_reset_at:
  assumes "readJSON body = Ok p" and "validate p = None"
    and "allow st ctx now (payload_key p) (pl_Cost p) = (st2, Ok d)"
    and "four_digit_day (ResetAt d div (86400 * Second))"
    and "check_request validate allow cfg (\<lambda>_. None) st ctx now body = (st', res, outcome, w)"
  shows "\<exists>b. w_body w = [DecisionBody b] \<and> parse_ms (cr_ResetAt b) = ResetAt d div Millisecond * Millisecond \<and>
    cr_Allowed b = Allowed d \<and> cr_Limit b = DLimit d \<and> cr_Remaining b = Remaining d \<and> cr_RetryAfterMS b = RetryAfterMS d"
  using check_decision_status(4) [OF assms(1-3,5)] parse_Format_ms [OF assms(4)] by simp

lemma ex_denial_day: "four_digit_day (ResetAt ex_denial div (86400 * Second))"
proof -
  have "ResetAt ex_denial div (86400 * Second) = 719162" by (simp add: ex_denial_def unix_epoch_def Second_def)
  moreover have "civil_of_days 719162 = (1970, 1, 1)" by code_simp
  ultimately show ?thesis by (simp add: four_digit_day_def)
qed

theorem check_reset_at_witness:
  "\<exists>st' res outcome (w :: unit api_body writer) b.
     check_request tags_validate (\<lambda>st ctx now key cost. (st, Ok ex_denial)) ex_api (\<lambda>_. None) () None unix_epoch (ex_body ''1'')
       = (st', res, outcome, w) \<and> w_body w = [DecisionBody b] \<and> parse_ms (cr_ResetAt b) = unix_epoch + 60 * Second"
proof -
  let ?allow = "\<lambda>st ctx now key cost. (st, Ok ex_denial)"
  obtain st' res outcome and w :: "unit api_body writer" where
    w: "check_request tags_validate ?allow ex_api (\<lambda>_. None) () None unix_epoch (ex_body ''1'') = (st', res, outcome, w)"
    by (metis prod.exhaust)
  have "ResetAt ex_denial div Millisecond * Millisecond = unix_epoch + 60 * Second"
    by (simp add: ex_denial_def unix_epoch_def Second_def Millisecond_def)
  then show ?thesis
    using check_reset_at [OF ex_body_read _ refl ex_denial_day w] w by (auto simp: tags_validate_def)
qed

section \<open>What is measured\<close>

record api_request =
  ar_ctx :: "ctx_error option"
  ar_now :: go_time
  ar_body :: request_body
  ar_wfault :: "nat \<Rightarrow> string option"
  ar_elapsed :: duration

fun serve ::
  "(checkRateLimitPayload \<Rightarrow> string option) \<Rightarrow> 'm metric_ops \<Rightarrow> 'st allow_fun \<Rightarrow> api_config \<Rightarrow> 'st \<times> 'm apiMetrics \<Rightarrow>
   api_request list \<Rightarrow> ('st \<times> 'm apiMetrics) \<times> 'r api_body writer list" where
  "serve validate M allow cfg s [] = (s, [])"
| "serve validate M allow cfg s (q # qs) =
     (let (s1, w) = checkRateLimitHandler validate M allow cfg (ar_wfault q) (ar_elapsed q) s (ar_ctx q) (ar_now q) (ar_body q);
          (s2, ws) = serve validate M allow cfg s1 qs
      in (s2, w # ws))"

lemma check_outcome_known:
  "check_request validate allow cfg wfault st ctx now body = (st', res, outcome, w) \<Longrightarrow> outcome \<in> set metricOutcomes"
  by (auto simp: check_request_def metricOutcomes_def Let_def split: sum.splits option.splits prod.splits if_splits)

text \<open>The series that exist are those created at the start.\<close>

definition labels :: "'m apiMetrics \<Rightarrow> (string \<times> string) set" where
  "labels m = set metricOutcomes \<times> set (knownResources m)"

definition metrics_ok :: "'m metric_ops \<Rightarrow> 'm apiMetrics \<Rightarrow> bool" where
  "metrics_ok M m \<longleftrightarrow> dom (m_count M (store m)) = labels m \<and> unknownMetricResource \<in> set (knownResources m)"

definition counted :: "'m metric_ops \<Rightarrow> 'm apiMetrics \<Rightarrow> int" where
  "counted M m = (\<Sum>l\<in>labels m. the (m_count M (store m) l))"

lemma sum_inc:
  fixes f :: "'a \<Rightarrow> int"
  assumes "finite A" "a \<in> A"
  shows "(\<Sum>x\<in>A. (f(a := f a + 1)) x) = (\<Sum>x\<in>A. f x) + 1"
proof -
  have "(\<Sum>x\<in>A. (f(a := f a + 1)) x) = (\<Sum>x\<in>A. f x + (if x = a then 1 else 0))" by (intro sum.cong) auto
  then show ?thesis using assms by (simp add: sum.distrib)
qed

context metrics_library
begin

lemma series_dom: "dom (m_count M (foldl (m_series M) s ls)) = dom (m_count M s) \<union> set ls"
  by (induction ls arbitrary: s) (auto simp: count_series)

lemma series_zero:
  "(\<forall>l n. m_count M s l = Some n \<longrightarrow> n = 0) \<Longrightarrow> \<forall>l n. m_count M (foldl (m_series M) s ls) l = Some n \<longrightarrow> n = 0"
proof (induction ls arbitrary: s)
  case (Cons l ls)
  have "\<forall>l' n. m_count M (m_series M s l) l' = Some n \<longrightarrow> n = 0"
    using Cons.prems by (auto simp: count_series split: option.splits if_splits)
  from Cons.IH [OF this] show ?case by simp
qed simp

lemma series_gauge: "m_gauge M (foldl (m_series M) s ls) = m_gauge M s"
  by (induction ls arbitrary: s) (auto simp: gauge_series)

lemma new_metrics:
  assumes "m_count M registry = Map.empty"
  shows "metrics_ok M (newAPIMetrics M registry ps)" "counted M (newAPIMetrics M registry ps) = 0"
    "m_gauge M (store (newAPIMetrics M registry ps)) = m_gauge M registry"
proof -
  let ?m = "newAPIMetrics M registry ps"
  let ?ls = "concat (map (\<lambda>resource. map (\<lambda>outcome. (outcome, resource)) metricOutcomes) (knownResources ?m))"
  have st: "store ?m = foldl (m_series M) registry ?ls" by (simp add: newAPIMetrics_def Let_def)
  have ls: "set ?ls = labels ?m" by (auto simp: labels_def)
  have d: "dom (m_count M (store ?m)) = labels ?m" unfolding st series_dom ls using assms by simp
  then show "metrics_ok M ?m" by (simp add: metrics_ok_def newAPIMetrics_def Let_def)
  have z: "\<forall>l n. m_count M (store ?m) l = Some n \<longrightarrow> n = 0" unfolding st by (rule series_zero) (simp add: assms)
  have "the (m_count M (store ?m) l) = 0" if "l \<in> labels ?m" for l
    using that d z by (metis domD option.sel)
  then show "counted M ?m = 0" by (simp add: counted_def)
  show "m_gauge M (store ?m) = m_gauge M registry" unfolding st by (rule series_gauge)
qed

lemma handler_metrics:
  fixes w :: "'r api_body writer"
  assumes ok: "metrics_ok M (snd s)"
    and h: "checkRateLimitHandler validate M allow cfg wfault elapsed s ctx now body = (s', w)"
  shows "metrics_ok M (snd s')" "knownResources (snd s') = knownResources (snd s)"
    "counted M (snd s') = counted M (snd s) + 1" "m_gauge M (store (snd s')) = m_gauge M (store (snd s))"
proof -
  obtain st' res outcome and w' :: "'r api_body writer" where c: "check_request validate allow cfg wfault (fst s) ctx now body = (st', res, outcome, w')"
    by (metis prod.exhaust)
  let ?l = "(outcome, resourceLabel (snd s) res)"
  have l: "?l \<in> labels (snd s)"
    using check_outcome_known [OF c] ok by (auto simp: labels_def resourceLabel_def metrics_ok_def)
  then obtain n where n: "m_count M (store (snd s)) ?l = Some n" using ok by (auto simp: metrics_ok_def)
  have k: "knownResources (snd s') = knownResources (snd s)"
    and cnt: "m_count M (store (snd s')) = (m_count M (store (snd s)))(?l \<mapsto> n + 1)"
    and g: "m_gauge M (store (snd s')) = m_gauge M (store (snd s))"
    using h c n
    by (auto simp: checkRateLimitHandler_def observe_def Let_def resourceLabel_def
        count_observe count_inc count_gauge gauge_observe gauge_inc gauge_add)
  show "knownResources (snd s') = knownResources (snd s)" "m_gauge M (store (snd s')) = m_gauge M (store (snd s))"
    by (rule k, rule g)
  have lab: "labels (snd s') = labels (snd s)" by (simp add: labels_def k)
  show "metrics_ok M (snd s')" using ok l by (auto simp: metrics_ok_def lab cnt k)
  let ?f = "\<lambda>x. the (m_count M (store (snd s)) x)"
  have "counted M (snd s') = (\<Sum>x\<in>labels (snd s). (?f(?l := ?f ?l + 1)) x)"
    unfolding counted_def lab by (intro sum.cong) (auto simp: cnt n)
  also have "\<dots> = counted M (snd s) + 1"
    unfolding counted_def using l by (intro sum_inc) (simp_all add: labels_def)
  finally show "counted M (snd s') = counted M (snd s) + 1" .
qed

lemma serve_metrics:
  fixes ws :: "'r api_body writer list"
  assumes "metrics_ok M (snd s)" "serve validate M allow cfg s qs = (s', ws)"
  shows "metrics_ok M (snd s') \<and> knownResources (snd s') = knownResources (snd s) \<and>
    counted M (snd s') = counted M (snd s) + int (length qs) \<and>
    m_gauge M (store (snd s')) = m_gauge M (store (snd s)) \<and> length ws = length qs"
  using assms
proof (induction qs arbitrary: s ws)
  case (Cons q qs)
  obtain s1 and w :: "'r api_body writer" where
    h: "checkRateLimitHandler validate M allow cfg (ar_wfault q) (ar_elapsed q) s (ar_ctx q) (ar_now q) (ar_body q) = (s1, w)"
    by (metis prod.exhaust)
  obtain ws1 where r: "serve validate M allow cfg s1 qs = (s', ws1)" and ws: "ws = w # ws1"
    using Cons.prems(2) h by (auto split: prod.splits)
  note H = handler_metrics [OF Cons.prems(1) h]
  show ?case using Cons.IH [OF H(1) r] H ws by simp
qed simp

end

text \<open>
  C19. The metrics are exact and bounded. From a new registry, whatever requests are served,
  with whatever results and write failures, the decision counters add up to the number of
  requests, the series are only the seven outcomes of the configured resources and
  \<open>unknown\<close>, so that no request can create another, and the gauge of requests in flight is
  back at its value.
\<close>

theorem metrics_exact:
  assumes "metrics_library M" and "m_count M registry = Map.empty"
    and "serve validate M allow cfg (st, newAPIMetrics M registry ps) qs = ((st', m), ws)"
  shows "counted M m = int (length qs) \<and> m_gauge M (store m) = m_gauge M registry \<and>
    dom (m_count M (store m)) = set metricOutcomes \<times> insert ''unknown'' ((\<lambda>(key, policy). Resource key) ` set ps)"
proof -
  note new = metrics_library.new_metrics [OF assms(1,2), of ps]
  have "metrics_ok M m \<and> knownResources m = knownResources (newAPIMetrics M registry ps) \<and>
      counted M m = int (length qs) \<and> m_gauge M (store m) = m_gauge M registry"
    using metrics_library.serve_metrics [OF assms(1) _ assms(3)] new by simp
  then show ?thesis by (auto simp: metrics_ok_def labels_def newAPIMetrics_def Let_def unknownMetricResource_def)
qed

theorem metrics_exact_witness:
  "\<exists>st' m (ws :: unit api_body writer list).
     serve tags_validate mem_metric_ops (\<lambda>st ctx now key cost. (st, Ok ex_denial)) ex_api
       ((), newAPIMetrics mem_metric_ops ex_metrics configured_policies)
       [\<lparr>ar_ctx = None, ar_now = unix_epoch, ar_body = ex_body ''1'', ar_wfault = (\<lambda>_. None), ar_elapsed = Millisecond\<rparr>]
       = ((st', m), ws) \<and> counted mem_metric_ops m = 1 \<and> m_gauge mem_metric_ops (store m) = 0"
proof -
  let ?qs = "[\<lparr>ar_ctx = None, ar_now = unix_epoch, ar_body = ex_body ''1'', ar_wfault = (\<lambda>_. None), ar_elapsed = Millisecond\<rparr>]"
  obtain st' m and ws :: "unit api_body writer list" where
    s: "serve tags_validate mem_metric_ops (\<lambda>st ctx now key cost. (st, Ok ex_denial)) ex_api
       ((), newAPIMetrics mem_metric_ops ex_metrics configured_policies) ?qs = ((st', m), ws)"
    by (metis prod.exhaust)
  have "m_count mem_metric_ops ex_metrics = Map.empty" "m_gauge mem_metric_ops ex_metrics = 0"
    by (simp_all add: mem_metric_ops_def ex_metrics_def)
  then show ?thesis using metrics_exact [OF mem_metrics.metrics_library_axioms _ s] s by simp
qed

end
