(* ===== verification/Reports.thy ===== *)
theory Reports
  imports Events "HOL-Library.Product_Lexorder" "HOL-Library.List_Lexorder"
begin

text \<open>
  The reporting queries of \<open>internal/database/approved_requests.sql.go\<close> over the table that the
  worker fills. A query reads the rows of the table as a list. What PostgreSQL decides is an
  argument: the sort key of a text under the database's collation and the instant a number
  of days before another.
\<close>

section \<open>Queries\<close>

record approval_params =
  pa_Days :: int
  pa_ClientID :: string
  pa_Resource :: string

record 'o postgres =
  collate :: "string \<Rightarrow> 'o"
  days_before :: "go_time \<Rightarrow> int \<Rightarrow> go_time"

text \<open>The common \<open>WHERE\<close> clause; \<open>now\<close> is the transaction's \<open>NOW()\<close>.\<close>

definition selected :: "'o postgres \<Rightarrow> go_time \<Rightarrow> approval_params \<Rightarrow> ApprovedRequest \<Rightarrow> bool" where
  "selected db now arg row \<longleftrightarrow>
     days_before db now (pa_Days arg) \<le> row_ApprovedAt row \<and>
     (pa_ClientID arg = [] \<or> row_ClientID row = pa_ClientID arg) \<and>
     (pa_Resource arg = [] \<or> row_Resource row = pa_Resource arg)"

text \<open>\<open>(EXTRACT(EPOCH FROM t) * 1000)::BIGINT\<close>: rounded to the nearest, halves away from zero.\<close>

definition epoch_ms :: "go_time \<Rightarrow> int" where
  "epoch_ms t = (let x = t - unix_epoch in sgn x * ((2 * \<bar>x\<bar> + Millisecond) div (2 * Millisecond)))"

text \<open>\<open>COALESCE(..., 0)\<close> of an aggregate that is null on no rows.\<close>

definition extremum :: "(go_time \<Rightarrow> go_time \<Rightarrow> go_time) \<Rightarrow> go_time list \<Rightarrow> int" where
  "extremum f ts = (case ts of [] \<Rightarrow> 0 | t # rest \<Rightarrow> epoch_ms (foldl f t rest))"

record GetApprovalSummaryRow =
  su_TotalApprovals :: int
  su_TotalCost :: int
  su_FirstApprovalAtMs :: int
  su_LatestApprovalAtMs :: int

definition GetApprovalSummary :: "'o postgres \<Rightarrow> go_time \<Rightarrow> approval_params \<Rightarrow> ApprovedRequest list \<Rightarrow> GetApprovalSummaryRow" where
  "GetApprovalSummary db now arg rows =
     (let sel = filter (selected db now arg) rows
      in \<lparr>su_TotalApprovals = int (length sel), su_TotalCost = sum_list (map row_Cost sel),
          su_FirstApprovalAtMs = extremum min (map row_ApprovedAt sel),
          su_LatestApprovalAtMs = extremum max (map row_ApprovedAt sel)\<rparr>)"

record ListApprovalSummaryByPolicyRow =
  po_ClientID :: string
  po_Resource :: string
  po_TotalApprovals :: int
  po_TotalCost :: int

definition policy_key :: "ApprovedRequest \<Rightarrow> string \<times> string" where
  "policy_key row = (row_ClientID row, row_Resource row)"

definition ListApprovalSummaryByPolicy ::
  "('o::linorder) postgres \<Rightarrow> go_time \<Rightarrow> approval_params \<Rightarrow> ApprovedRequest list \<Rightarrow> ListApprovalSummaryByPolicyRow list" where
  "ListApprovalSummaryByPolicy db now arg rows =
     (let sel = filter (selected db now arg) rows;
          groups = sort_key (\<lambda>(c, r). (collate db c, collate db r)) (remdups (map policy_key sel))
      in map (\<lambda>(c, r). let g = filter (\<lambda>row. policy_key row = (c, r)) sel
           in \<lparr>po_ClientID = c, po_Resource = r, po_TotalApprovals = int (length g), po_TotalCost = sum_list (map row_Cost g)\<rparr>) groups)"

text \<open>\<open>(approved_at AT TIME ZONE 'UTC')::DATE\<close>, as the number of days since the zero time.\<close>

definition utc_day :: "go_time \<Rightarrow> int" where
  "utc_day t = t div (86400 * Second)"

record ListDailyApprovalTrendsRow =
  tr_Day :: int
  tr_ClientID :: string
  tr_Resource :: string
  tr_TotalApprovals :: int
  tr_TotalCost :: int

definition trend_key :: "ApprovedRequest \<Rightarrow> int \<times> string \<times> string" where
  "trend_key row = (utc_day (row_ApprovedAt row), row_ClientID row, row_Resource row)"

definition ListDailyApprovalTrends ::
  "('o::linorder) postgres \<Rightarrow> go_time \<Rightarrow> approval_params \<Rightarrow> ApprovedRequest list \<Rightarrow> ListDailyApprovalTrendsRow list" where
  "ListDailyApprovalTrends db now arg rows =
     (let sel = filter (selected db now arg) rows;
          groups = sort_key (\<lambda>(d, c, r). (d, collate db c, collate db r)) (remdups (map trend_key sel))
      in map (\<lambda>(d, c, r). let g = filter (\<lambda>row. trend_key row = (d, c, r)) sel
           in \<lparr>tr_Day = d, tr_ClientID = c, tr_Resource = r, tr_TotalApprovals = int (length g),
               tr_TotalCost = sum_list (map row_Cost g)\<rparr>) groups)"

text \<open>
  The Go side of a query with many rows: the query, each scan and the end of the iteration
  can fail; the rows are collected in order.
\<close>

record query_faults =
  qf_query :: "string option"
  qf_scan :: "nat \<Rightarrow> string option"
  qf_rows :: "string option"

definition no_query_faults :: query_faults where
  "no_query_faults = \<lparr>qf_query = None, qf_scan = (\<lambda>_. None), qf_rows = None\<rparr>"

fun scan_rows :: "query_faults \<Rightarrow> nat \<Rightarrow> 'r list \<Rightarrow> 'r list \<Rightarrow> (string, 'r list) result" where
  "scan_rows f n items [] = (case qf_rows f of Some e \<Rightarrow> Err e | None \<Rightarrow> Ok items)"
| "scan_rows f n items (i # rest) =
     (case qf_scan f n of Some e \<Rightarrow> Err e | None \<Rightarrow> scan_rows f (Suc n) (items @ [i]) rest)"

definition query_rows :: "query_faults \<Rightarrow> 'r list \<Rightarrow> (string, 'r list) result" where
  "query_rows f reply = (case qf_query f of Some e \<Rightarrow> Err e | None \<Rightarrow> scan_rows f 0 [] reply)"

section \<open>Totals\<close>

lemma scan_rows_ok: "scan_rows no_query_faults n items reply = Ok (items @ reply)"
  by (induction reply arbitrary: n items) (simp_all add: no_query_faults_def)

lemma scan_rows_Ok: "scan_rows f n items reply = Ok res \<Longrightarrow> res = items @ reply"
  by (induction f n items reply rule: scan_rows.induct) (auto split: option.splits)

lemma query_rows_Ok: "query_rows f reply = Ok res \<Longrightarrow> res = reply"
  by (auto simp: query_rows_def dest: scan_rows_Ok split: option.splits)

lemma sorted_groups:
  "distinct (sort_key f (remdups xs))" "set (sort_key f (remdups xs)) = set xs" "sorted (map f (sort_key f (remdups xs)))"
  by simp_all

lemma length_sum_list: "int (length xs) = sum_list (map (\<lambda>_. 1) xs)"
  by (induction xs) auto

text \<open>The totals of any grouping of the selected rows.\<close>

lemma group_totals:
  assumes "distinct ks" "set ks = key ` set sel"
  shows "sum_list (map (\<lambda>k. int (length (filter (\<lambda>x. key x = k) sel))) ks) = int (length sel)"
    and "sum_list (map (\<lambda>k. sum_list (map row_Cost (filter (\<lambda>x. key x = k) sel))) ks) = sum_list (map row_Cost sel)"
  using sum_list_groups [OF assms, of "\<lambda>_. 1"] sum_list_groups [OF assms, of row_Cost]
  by (simp_all add: length_sum_list)

lemma policy_groups:
  fixes db :: "('o::linorder) postgres"
  shows "sum_list (map po_TotalApprovals (ListApprovalSummaryByPolicy db now arg rows)) = su_TotalApprovals (GetApprovalSummary db now arg rows)"
    and "sum_list (map po_TotalCost (ListApprovalSummaryByPolicy db now arg rows)) = su_TotalCost (GetApprovalSummary db now arg rows)"
    and "distinct (map (\<lambda>p. (po_ClientID p, po_Resource p)) (ListApprovalSummaryByPolicy db now arg rows))"
    and "sorted (map (\<lambda>p. (collate db (po_ClientID p), collate db (po_Resource p))) (ListApprovalSummaryByPolicy db now arg rows))"
proof -
  let ?sel = "filter (selected db now arg) rows" and ?P = "ListApprovalSummaryByPolicy db now arg rows"
  let ?key = "\<lambda>(c, r). (collate db c, collate db r)"
  let ?ks = "sort_key ?key (remdups (map policy_key ?sel))"
  have P: "?P = map (\<lambda>k. \<lparr>po_ClientID = fst k, po_Resource = snd k,
      po_TotalApprovals = int (length (filter (\<lambda>row. policy_key row = k) ?sel)),
      po_TotalCost = sum_list (map row_Cost (filter (\<lambda>row. policy_key row = k) ?sel))\<rparr>) ?ks"
    by (simp add: ListApprovalSummaryByPolicy_def Let_def split_def)
  have k: "distinct ?ks" "set ?ks = policy_key ` set ?sel" "sorted (map ?key ?ks)"
    using sorted_groups(1) sorted_groups(2) [of ?key "map policy_key ?sel"] sorted_groups(3) by auto
  have f: "map po_TotalApprovals ?P = map (\<lambda>k. int (length (filter (\<lambda>row. policy_key row = k) ?sel))) ?ks"
    "map po_TotalCost ?P = map (\<lambda>k. sum_list (map row_Cost (filter (\<lambda>row. policy_key row = k) ?sel))) ?ks"
    "map (\<lambda>p. (po_ClientID p, po_Resource p)) ?P = ?ks"
    "map (\<lambda>p. (collate db (po_ClientID p), collate db (po_Resource p))) ?P = map ?key ?ks"
    unfolding P by (simp_all add: comp_def split_def)
  show "sum_list (map po_TotalApprovals ?P) = su_TotalApprovals (GetApprovalSummary db now arg rows)"
    "sum_list (map po_TotalCost ?P) = su_TotalCost (GetApprovalSummary db now arg rows)"
    unfolding f group_totals [OF k(1,2)] by (simp_all add: GetApprovalSummary_def Let_def)
  show "distinct (map (\<lambda>p. (po_ClientID p, po_Resource p)) ?P)"
    "sorted (map (\<lambda>p. (collate db (po_ClientID p), collate db (po_Resource p))) ?P)"
    unfolding f using k by auto
qed

text \<open>The breakdown lists every selected pair of client and resource, with its count and cost.\<close>

lemma policy_rows:
  fixes db :: "('o::linorder) postgres"
  assumes P_def: "P = ListApprovalSummaryByPolicy db now arg rows" and sel_def: "sel = filter (selected db now arg) rows"
  shows "(\<lambda>p. (po_ClientID p, po_Resource p)) ` set P = policy_key ` set sel"
    and "p \<in> set P \<Longrightarrow> po_TotalApprovals p = int (length (filter (\<lambda>row. policy_key row = (po_ClientID p, po_Resource p)) sel)) \<and>
      po_TotalCost p = sum_list (map row_Cost (filter (\<lambda>row. policy_key row = (po_ClientID p, po_Resource p)) sel))"
proof -
  have P: "set P = (\<lambda>k. \<lparr>po_ClientID = fst k, po_Resource = snd k,
      po_TotalApprovals = int (length (filter (\<lambda>row. policy_key row = k) sel)),
      po_TotalCost = sum_list (map row_Cost (filter (\<lambda>row. policy_key row = k) sel))\<rparr>) ` policy_key ` set sel"
    by (simp add: P_def sel_def ListApprovalSummaryByPolicy_def Let_def split_def)
  show "(\<lambda>p. (po_ClientID p, po_Resource p)) ` set P = policy_key ` set sel" unfolding P by (simp add: image_image)
  show "p \<in> set P \<Longrightarrow> po_TotalApprovals p = int (length (filter (\<lambda>row. policy_key row = (po_ClientID p, po_Resource p)) sel)) \<and>
      po_TotalCost p = sum_list (map row_Cost (filter (\<lambda>row. policy_key row = (po_ClientID p, po_Resource p)) sel))"
    unfolding P by auto
qed

lemma trend_groups:
  fixes db :: "('o::linorder) postgres"
  shows "sum_list (map tr_TotalApprovals (ListDailyApprovalTrends db now arg rows)) = su_TotalApprovals (GetApprovalSummary db now arg rows)"
    and "sum_list (map tr_TotalCost (ListDailyApprovalTrends db now arg rows)) = su_TotalCost (GetApprovalSummary db now arg rows)"
    and "distinct (map (\<lambda>t. (tr_Day t, tr_ClientID t, tr_Resource t)) (ListDailyApprovalTrends db now arg rows))"
    and "sorted (map (\<lambda>t. (tr_Day t, collate db (tr_ClientID t), collate db (tr_Resource t))) (ListDailyApprovalTrends db now arg rows))"
proof -
  let ?sel = "filter (selected db now arg) rows" and ?T = "ListDailyApprovalTrends db now arg rows"
  let ?key = "\<lambda>(d, c, r). (d, collate db c, collate db r)"
  let ?ks = "sort_key ?key (remdups (map trend_key ?sel))"
  have T: "?T = map (\<lambda>k. \<lparr>tr_Day = fst k, tr_ClientID = fst (snd k), tr_Resource = snd (snd k),
      tr_TotalApprovals = int (length (filter (\<lambda>row. trend_key row = k) ?sel)),
      tr_TotalCost = sum_list (map row_Cost (filter (\<lambda>row. trend_key row = k) ?sel))\<rparr>) ?ks"
    by (simp add: ListDailyApprovalTrends_def Let_def split_def)
  have k: "distinct ?ks" "set ?ks = trend_key ` set ?sel" "sorted (map ?key ?ks)"
    using sorted_groups(1) sorted_groups(2) [of ?key "map trend_key ?sel"] sorted_groups(3) by auto
  have f: "map tr_TotalApprovals ?T = map (\<lambda>k. int (length (filter (\<lambda>row. trend_key row = k) ?sel))) ?ks"
    "map tr_TotalCost ?T = map (\<lambda>k. sum_list (map row_Cost (filter (\<lambda>row. trend_key row = k) ?sel))) ?ks"
    "map (\<lambda>t. (tr_Day t, tr_ClientID t, tr_Resource t)) ?T = ?ks"
    "map (\<lambda>t. (tr_Day t, collate db (tr_ClientID t), collate db (tr_Resource t))) ?T = map ?key ?ks"
    unfolding T by (simp_all add: comp_def split_def)
  show "sum_list (map tr_TotalApprovals ?T) = su_TotalApprovals (GetApprovalSummary db now arg rows)"
    "sum_list (map tr_TotalCost ?T) = su_TotalCost (GetApprovalSummary db now arg rows)"
    unfolding f group_totals [OF k(1,2)] by (simp_all add: GetApprovalSummary_def Let_def)
  show "distinct (map (\<lambda>t. (tr_Day t, tr_ClientID t, tr_Resource t)) ?T)"
    "sorted (map (\<lambda>t. (tr_Day t, collate db (tr_ClientID t), collate db (tr_Resource t))) ?T)"
    unfolding f using k by auto
qed

text \<open>
  C21. The reports agree. For the same table, instant and filters, the approvals and the cost
  of the breakdown by policy and of the daily trends add up to the totals of the summary;
  no group is listed twice, and the groups are in the order of the query.
\<close>

theorem reports_agree:
  fixes db :: "('o::linorder) postgres"
  shows "let S = GetApprovalSummary db now arg rows; P = ListApprovalSummaryByPolicy db now arg rows;
      T = ListDailyApprovalTrends db now arg rows
    in sum_list (map po_TotalApprovals P) = su_TotalApprovals S \<and> sum_list (map po_TotalCost P) = su_TotalCost S \<and>
    sum_list (map tr_TotalApprovals T) = su_TotalApprovals S \<and> sum_list (map tr_TotalCost T) = su_TotalCost S \<and>
    distinct (map (\<lambda>p. (po_ClientID p, po_Resource p)) P) \<and>
    distinct (map (\<lambda>t. (tr_Day t, tr_ClientID t, tr_Resource t)) T) \<and>
    sorted (map (\<lambda>p. (collate db (po_ClientID p), collate db (po_Resource p))) P) \<and>
    sorted (map (\<lambda>t. (tr_Day t, collate db (tr_ClientID t), collate db (tr_Resource t))) T)"
  unfolding Let_def by (intro conjI policy_groups trend_groups)

text \<open>
  The filters select the policy. The summary filtered by a client and a resource has
  exactly the totals that the unfiltered breakdown lists for them, and zero totals when
  the breakdown does not list them.
\<close>

theorem filtered_summary:
  fixes db :: "('o::linorder) postgres"
  assumes "client \<noteq> []" and "resource \<noteq> []"
  shows "let S = GetApprovalSummary db now \<lparr>pa_Days = days, pa_ClientID = client, pa_Resource = resource\<rparr> rows;
      P = ListApprovalSummaryByPolicy db now \<lparr>pa_Days = days, pa_ClientID = [], pa_Resource = []\<rparr> rows
    in (\<forall>p \<in> set P. (po_ClientID p, po_Resource p) = (client, resource) \<longrightarrow>
          po_TotalApprovals p = su_TotalApprovals S \<and> po_TotalCost p = su_TotalCost S) \<and>
       ((client, resource) \<notin> (\<lambda>p. (po_ClientID p, po_Resource p)) ` set P \<longrightarrow>
          su_TotalApprovals S = 0 \<and> su_TotalCost S = 0)"
proof -
  let ?all = "\<lparr>pa_Days = days, pa_ClientID = [], pa_Resource = []\<rparr>"
  let ?one = "\<lparr>pa_Days = days, pa_ClientID = client, pa_Resource = resource\<rparr>"
  have sel: "filter (selected db now ?one) rows = filter (\<lambda>row. policy_key row = (client, resource)) (filter (selected db now ?all) rows)"
    using assms by (auto simp: selected_def policy_key_def intro!: filter_cong)
  let ?sel = "filter (selected db now ?all) rows" and ?P = "ListApprovalSummaryByPolicy db now ?all rows"
  let ?g = "filter (\<lambda>row. policy_key row = (client, resource)) ?sel"
  have P: "set ?P = (\<lambda>k. \<lparr>po_ClientID = fst k, po_Resource = snd k,
      po_TotalApprovals = int (length (filter (\<lambda>row. policy_key row = k) ?sel)),
      po_TotalCost = sum_list (map row_Cost (filter (\<lambda>row. policy_key row = k) ?sel))\<rparr>) ` policy_key ` set ?sel"
    by (simp add: ListApprovalSummaryByPolicy_def Let_def split_def del: filter_filter set_filter)
  have none: "?g = []" if "(client, resource) \<notin> (\<lambda>p. (po_ClientID p, po_Resource p)) ` set ?P"
  proof -
    have "(client, resource) \<notin> policy_key ` set ?sel" using that unfolding P image_image by (simp add: image_image)
    then show ?thesis unfolding filter_empty_conv by (metis image_eqI)
  qed
  have some: "po_TotalApprovals p = int (length ?g) \<and> po_TotalCost p = sum_list (map row_Cost ?g)"
    if "p \<in> set ?P" "(po_ClientID p, po_Resource p) = (client, resource)" for p
    using that unfolding P by (auto simp del: filter_filter)
  have S: "su_TotalApprovals (GetApprovalSummary db now ?one rows) = int (length ?g)"
    "su_TotalCost (GetApprovalSummary db now ?one rows) = sum_list (map row_Cost ?g)"
    by (simp_all add: GetApprovalSummary_def Let_def sel del: filter_filter)
  show ?thesis unfolding Let_def S using some none by (intro conjI ballI impI) simp_all
qed

section \<open>Periods\<close>

text \<open>
  What the reports rely on of the database: a longer period starts earlier, and a period
  contains its end.
\<close>

locale reporting_db =
  fixes db :: "('o::linorder) postgres"
  assumes days_mono: "d \<le> d' \<Longrightarrow> days_before db now d' \<le> days_before db now d"
    and days_now: "0 \<le> d \<Longrightarrow> days_before db now d \<le> now"
begin

lemma selected_mono:
  "d \<le> d' \<Longrightarrow> selected db now \<lparr>pa_Days = d, pa_ClientID = c, pa_Resource = r\<rparr> row \<Longrightarrow>
     selected db now \<lparr>pa_Days = d', pa_ClientID = c, pa_Resource = r\<rparr> row"
  using days_mono [of d d' now] by (auto simp: selected_def)

text \<open>A longer period reports at least as much.\<close>

lemma summary_mono:
  assumes "d \<le> d'" "\<And>row. row \<in> set rows \<Longrightarrow> 0 < row_Cost row"
  shows "su_TotalApprovals (GetApprovalSummary db now \<lparr>pa_Days = d, pa_ClientID = c, pa_Resource = r\<rparr> rows)
      \<le> su_TotalApprovals (GetApprovalSummary db now \<lparr>pa_Days = d', pa_ClientID = c, pa_Resource = r\<rparr> rows)"
    and "su_TotalCost (GetApprovalSummary db now \<lparr>pa_Days = d, pa_ClientID = c, pa_Resource = r\<rparr> rows)
      \<le> su_TotalCost (GetApprovalSummary db now \<lparr>pa_Days = d', pa_ClientID = c, pa_Resource = r\<rparr> rows)"
proof -
  let ?s = "\<lambda>d. selected db now \<lparr>pa_Days = d, pa_ClientID = c, pa_Resource = r\<rparr>"
  have sub: "filter (?s d) rows = filter (?s d) (filter (?s d') rows)"
    using selected_mono [OF assms(1)] by (auto intro!: filter_cong)
  have "sum_list (map row_Cost (filter (?s d) (filter (?s d') rows))) \<le> sum_list (map row_Cost (filter (?s d') rows))"
    using assms(2) by (intro sum_list_filter_le) (auto intro: less_imp_le)
  moreover have "length (filter (?s d) (filter (?s d') rows)) \<le> length (filter (?s d') rows)" by (rule length_filter_le)
  ultimately show "su_TotalApprovals (GetApprovalSummary db now \<lparr>pa_Days = d, pa_ClientID = c, pa_Resource = r\<rparr> rows)
      \<le> su_TotalApprovals (GetApprovalSummary db now \<lparr>pa_Days = d', pa_ClientID = c, pa_Resource = r\<rparr> rows)"
    "su_TotalCost (GetApprovalSummary db now \<lparr>pa_Days = d, pa_ClientID = c, pa_Resource = r\<rparr> rows)
      \<le> su_TotalCost (GetApprovalSummary db now \<lparr>pa_Days = d', pa_ClientID = c, pa_Resource = r\<rparr> rows)"
    by (simp_all add: GetApprovalSummary_def Let_def sub [symmetric] del: filter_filter)
qed

end

text \<open>The database of the deployment: texts in the order of their bytes, days of 24 hours (UTC).\<close>

definition utc_db :: "nat list postgres" where
  "utc_db = \<lparr>collate = map of_char, days_before = (\<lambda>now d. now - d * (86400 * Second))\<rparr>"

interpretation utc: reporting_db utc_db
  by unfold_locales (simp_all add: utc_db_def Second_def)

definition ex_row :: ApprovedRequest where
  "ex_row = \<lparr>row_ClientID = ''client-a'', row_Resource = ''openai'', row_Cost = 2, row_ApprovedAt = unix_epoch + Second, row_Remaining = 8\<rparr>"

theorem filtered_summary_witness:
  "\<exists>p. ListApprovalSummaryByPolicy utc_db (unix_epoch + Second) \<lparr>pa_Days = 10, pa_ClientID = [], pa_Resource = []\<rparr> [ex_row, ex_row] = [p] \<and>
     po_TotalCost p = 4"
proof -
  let ?P = "ListApprovalSummaryByPolicy utc_db (unix_epoch + Second) \<lparr>pa_Days = 10, pa_ClientID = [], pa_Resource = []\<rparr> [ex_row, ex_row]"
  have "su_TotalCost (GetApprovalSummary utc_db (unix_epoch + Second) \<lparr>pa_Days = 10, pa_ClientID = ''client-a'', pa_Resource = ''openai''\<rparr> [ex_row, ex_row]) = 4"
    by (simp add: GetApprovalSummary_def selected_def utc_db_def ex_row_def Second_def)
  moreover obtain p where p: "?P = [p]" "(po_ClientID p, po_Resource p) = (''client-a'', ''openai'')"
    by (simp add: ListApprovalSummaryByPolicy_def selected_def policy_key_def utc_db_def ex_row_def Second_def)
  ultimately show ?thesis
    using filtered_summary [of "''client-a''" "''openai''" utc_db "unix_epoch + Second" 10 "[ex_row, ex_row]"]
    by (simp add: Let_def)
qed

end
