(* ===== verification/Analytics.thy ===== *)
theory Analytics
  imports Api Reports
begin

text \<open>
  The reporting endpoints of \<open>cmd/api/analytics.go\<close>. \<open>query\<close> is \<open>r.URL.Query().Get\<close> (the empty
  string for an absent parameter), the table is the list of its rows, and the faults of the
  two queries and of the response are arguments.
\<close>

section \<open>Definitions\<close>

record analyticsFilter =
  af_Days :: int
  af_ClientID :: string
  af_Resource :: string

definition readAnalyticsFilter :: "(string \<Rightarrow> string) \<Rightarrow> (api_error, analyticsFilter) result" where
  "readAnalyticsFilter query =
     (case Atoi (query ''days'') of
        Inl err \<Rightarrow> Err ErrAnalyticsPeriod
      | Inr days \<Rightarrow>
          if days \<noteq> 10 \<and> days \<noteq> 15 \<and> days \<noteq> 30 then Err ErrAnalyticsPeriod
          else Ok \<lparr>af_Days = days, af_ClientID = TrimSpace (query ''client_id''), af_Resource = TrimSpace (query ''resource'')\<rparr>)"

definition timeFromMilliseconds :: "int \<Rightarrow> go_time option" where
  "timeFromMilliseconds milliseconds = (if milliseconds = 0 then None else Some (time_UnixMilli milliseconds))"

record approvalPolicySummary =
  ap_ClientID :: string
  ap_Resource :: string
  ap_TotalApprovals :: int
  ap_TotalCost :: int

record approvalSummaryResponse =
  as_PeriodDays :: int
  as_ClientID :: string
  as_Resource :: string
  as_TotalApprovals :: int
  as_TotalCost :: int
  as_FirstApprovalAt :: "go_time option"
  as_LatestApprovalAt :: "go_time option"
  as_Policies :: "approvalPolicySummary list"

record dailyApprovalTrend =
  dt_Day :: string
  dt_ClientID :: string
  dt_Resource :: string
  dt_TotalApprovals :: int
  dt_TotalCost :: int

record approvalTrendsResponse =
  at_PeriodDays :: int
  at_ClientID :: string
  at_Resource :: string
  at_Trends :: "dailyApprovalTrend list"

datatype report = SummaryReport approvalSummaryResponse | TrendsReport approvalTrendsResponse

definition filter_params :: "analyticsFilter \<Rightarrow> approval_params" where
  "filter_params f = \<lparr>pa_Days = af_Days f, pa_ClientID = af_ClientID f, pa_Resource = af_Resource f\<rparr>"

text \<open>Each query runs at its own \<open>NOW()\<close> and sees the rows at that time.\<close>

definition approvalSummaryHandler ::
  "('o::linorder) postgres \<Rightarrow> (nat \<Rightarrow> string option) \<Rightarrow> string option \<Rightarrow> query_faults \<Rightarrow>
   go_time \<times> ApprovedRequest list \<Rightarrow> go_time \<times> ApprovedRequest list \<Rightarrow> (string \<Rightarrow> string) \<Rightarrow> report api_body writer" where
  "approvalSummaryHandler db wfault summary_fault policies_fault view1 view2 query =
     (case readAnalyticsFilter query of
        Inl err \<Rightarrow> badRequestError (wfault 0) new_writer err
      | Inr f \<Rightarrow>
        (case summary_fault of
           Some e \<Rightarrow> analyticsUnavailableError (wfault 0) new_writer
         | None \<Rightarrow>
           let summary = GetApprovalSummary db (fst view1) (filter_params f) (snd view1)
           in case query_rows policies_fault (ListApprovalSummaryByPolicy db (fst view2) (filter_params f) (snd view2)) of
                Inl e \<Rightarrow> analyticsUnavailableError (wfault 0) new_writer
              | Inr policies \<Rightarrow>
                  fst (writeJSON (wfault 0) new_writer 200 (ReportBody (SummaryReport
                    \<lparr>as_PeriodDays = af_Days f, as_ClientID = af_ClientID f, as_Resource = af_Resource f,
                     as_TotalApprovals = su_TotalApprovals summary, as_TotalCost = su_TotalCost summary,
                     as_FirstApprovalAt = timeFromMilliseconds (su_FirstApprovalAtMs summary),
                     as_LatestApprovalAt = timeFromMilliseconds (su_LatestApprovalAtMs summary),
                     as_Policies = map (\<lambda>policy. \<lparr>ap_ClientID = po_ClientID policy, ap_Resource = po_Resource policy,
                       ap_TotalApprovals = po_TotalApprovals policy, ap_TotalCost = po_TotalCost policy\<rparr>) policies\<rparr>)))))"

definition approvalTrendsHandler ::
  "('o::linorder) postgres \<Rightarrow> (nat \<Rightarrow> string option) \<Rightarrow> query_faults \<Rightarrow>
   go_time \<times> ApprovedRequest list \<Rightarrow> (string \<Rightarrow> string) \<Rightarrow> report api_body writer" where
  "approvalTrendsHandler db wfault fault view query =
     (case readAnalyticsFilter query of
        Inl err \<Rightarrow> badRequestError (wfault 0) new_writer err
      | Inr f \<Rightarrow>
        (case query_rows fault (ListDailyApprovalTrends db (fst view) (filter_params f) (snd view)) of
           Inl e \<Rightarrow> analyticsUnavailableError (wfault 0) new_writer
         | Inr rows \<Rightarrow>
             fst (writeJSON (wfault 0) new_writer 200 (ReportBody (TrendsReport
               \<lparr>at_PeriodDays = af_Days f, at_ClientID = af_ClientID f, at_Resource = af_Resource f,
                at_Trends = map (\<lambda>row. \<lparr>dt_Day = Format_DateOnly (tr_Day row), dt_ClientID = tr_ClientID row,
                  dt_Resource = tr_Resource row, dt_TotalApprovals = tr_TotalApprovals row,
                  dt_TotalCost = tr_TotalCost row\<rparr>) rows\<rparr>)))))"

section \<open>Properties\<close>

lemma epoch_ms_UnixMilli: "epoch_ms (time_UnixMilli ms) = ms"
proof -
  have "(2 * \<bar>ms * 1000000\<bar> + 1000000) div 2000000 = \<bar>ms\<bar>"
    by (simp add: abs_mult)
  then show ?thesis
    by (cases "ms = 0") (auto simp: epoch_ms_def time_UnixMilli_def Millisecond_def sgn_mult abs_if Let_def sgn_if)
qed

lemma foldl_extremum:
  "foldl min x ts = Min (set (x # ts))" "foldl max x ts = Max (set (x # ts))" for x :: int
proof -
  have "(\<lambda>a b :: int. min b a) = min" "(\<lambda>a b :: int. max b a) = max" by (auto simp: fun_eq_iff)
  then show "foldl min x ts = Min (set (x # ts))" "foldl max x ts = Max (set (x # ts))"
    by (simp_all add: Min.set_eq_fold Max.set_eq_fold foldl_conv_fold del: list.set)
qed

text \<open>The rows the worker writes: a positive cost and a time of whole milliseconds.\<close>

definition rows_ok :: "ApprovedRequest list \<Rightarrow> bool" where
  "rows_ok rows \<longleftrightarrow> (\<forall>row \<in> set rows. 0 < row_Cost row \<and> (\<exists>ms. row_ApprovedAt row = time_UnixMilli ms))"

lemma row_of_ok: "approvalRequest m = Ok p \<Longrightarrow> rows_ok [row_of p]"
  by (auto simp: approvalRequest_def row_of_def rows_ok_def split: sum.splits if_splits)

lemma summary_bounds:
  assumes ok: "rows_ok rows" and sel: "filter (selected db now arg) rows \<noteq> []"
  shows "time_UnixMilli (su_FirstApprovalAtMs (GetApprovalSummary db now arg rows)) = Min (row_ApprovedAt ` {row \<in> set rows. selected db now arg row})"
    and "time_UnixMilli (su_LatestApprovalAtMs (GetApprovalSummary db now arg rows)) = Max (row_ApprovedAt ` {row \<in> set rows. selected db now arg row})"
proof -
  let ?ts = "map row_ApprovedAt (filter (selected db now arg) rows)"
  obtain t rest where ts: "?ts = t # rest" using sel by (cases ?ts) auto
  have S: "set (t # rest) = row_ApprovedAt ` {row \<in> set rows. selected db now arg row}" unfolding ts [symmetric] by auto
  have "Min (set (t # rest)) \<in> set (t # rest)" "Max (set (t # rest)) \<in> set (t # rest)" by (intro Min_in Max_in; simp)+
  then obtain a b where ab: "Min (set (t # rest)) = time_UnixMilli a" "Max (set (t # rest)) = time_UnixMilli b"
    using ok unfolding S rows_ok_def by fastforce
  show "time_UnixMilli (su_FirstApprovalAtMs (GetApprovalSummary db now arg rows)) = Min (row_ApprovedAt ` {row \<in> set rows. selected db now arg row})"
    "time_UnixMilli (su_LatestApprovalAtMs (GetApprovalSummary db now arg rows)) = Max (row_ApprovedAt ` {row \<in> set rows. selected db now arg row})"
    unfolding S [symmetric] using ts ab
    by (simp_all add: GetApprovalSummary_def Let_def extremum_def foldl_extremum epoch_ms_UnixMilli del: list.set)
qed

lemma summary_times:
  assumes ok: "rows_ok rows" and epoch: "\<forall>row \<in> set rows. row_ApprovedAt row \<noteq> unix_epoch"
    and ts: "ts = row_ApprovedAt ` {row \<in> set rows. selected db now arg row}"
  shows "timeFromMilliseconds (su_FirstApprovalAtMs (GetApprovalSummary db now arg rows)) = (if ts = {} then None else Some (Min ts))"
    and "timeFromMilliseconds (su_LatestApprovalAtMs (GetApprovalSummary db now arg rows)) = (if ts = {} then None else Some (Max ts))"
proof -
  let ?S = "GetApprovalSummary db now arg rows"
  have "ts = {} \<longleftrightarrow> filter (selected db now arg) rows = []" by (auto simp: ts filter_empty_conv)
  moreover have "su_FirstApprovalAtMs ?S \<noteq> 0" "su_LatestApprovalAtMs ?S \<noteq> 0" if "ts \<noteq> {}"
  proof -
    have "Min ts \<in> ts" "Max ts \<in> ts" using that by (intro Min_in Max_in; simp add: ts)+
    then have "Min ts \<noteq> time_UnixMilli 0" "Max ts \<noteq> time_UnixMilli 0"
      using epoch by (auto simp: ts time_UnixMilli_def)
    moreover have "filter (selected db now arg) rows \<noteq> []" using that by (auto simp: ts filter_empty_conv)
    ultimately show "su_FirstApprovalAtMs ?S \<noteq> 0" "su_LatestApprovalAtMs ?S \<noteq> 0"
      using summary_bounds [OF ok] unfolding ts by metis+
  qed
  ultimately show "timeFromMilliseconds (su_FirstApprovalAtMs ?S) = (if ts = {} then None else Some (Min ts))"
    "timeFromMilliseconds (su_LatestApprovalAtMs ?S) = (if ts = {} then None else Some (Max ts))"
    using summary_bounds [OF ok, of db now arg]
    by (auto simp: ts timeFromMilliseconds_def GetApprovalSummary_def extremum_def Let_def)
qed

text \<open>The rows a report is about: approved in the period, of the client and the resource if given.\<close>

definition reported :: "('o::linorder) postgres \<Rightarrow> analyticsFilter \<Rightarrow> go_time \<times> ApprovedRequest list \<Rightarrow> ApprovedRequest list" where
  "reported db f view = filter (\<lambda>row. days_before db (fst view) (af_Days f) \<le> row_ApprovedAt row \<and>
     (af_ClientID f \<noteq> [] \<longrightarrow> row_ClientID row = af_ClientID f) \<and>
     (af_Resource f \<noteq> [] \<longrightarrow> row_Resource row = af_Resource f)) (snd view)"

lemma reported_selected: "reported db f view = filter (selected db (fst view) (filter_params f)) (snd view)"
  by (auto simp: reported_def selected_def filter_params_def intro!: filter_cong)

text \<open>
  C22. The summary endpoint, when writes succeed. A period other than 10, 15 or 30 days is answered 400, a
  database failure 503 with \<open>Retry-After\<close>, without a partial report. Otherwise the answer is 200
  with one report: its totals are the number and the cost of the rows of the period, client and
  resource that the first query sees, and its first and latest approval are theirs, or null when there
  are none; the policies listed are exactly those with such a row in what the second query
  sees, each once, with the number and the cost of its rows. (The queries may see different
  tables. No row is dated at the Unix epoch, which would be shown as null.)
\<close>

theorem summary_answers:
  fixes db :: "('o::linorder) postgres"
  assumes "w = approvalSummaryHandler db (\<lambda>_. None) sf pf view1 view2 query" and "rows_ok (snd view1)"
    and "\<forall>row \<in> set (snd view1). row_ApprovedAt row \<noteq> unix_epoch"
  shows "case readAnalyticsFilter query of
      Inl err \<Rightarrow> sent_status w = Some 400 \<and> w_body w = [ErrorBody (ErrorText err)]
    | Inr f \<Rightarrow> af_Days f \<in> {10, 15, 30} \<and>
        (if sf \<noteq> None \<or> (\<exists>e. query_rows pf (ListApprovalSummaryByPolicy db (fst view2) (filter_params f) (snd view2)) = Err e)
         then sent_status w = Some 503 \<and> sent_header w ''Retry-After'' = Some ''1'' \<and> (\<forall>r. ReportBody r \<notin> set (w_body w))
         else sent_status w = Some 200 \<and>
           (\<exists>s. w_body w = [ReportBody (SummaryReport s)] \<and>
              (let rows1 = reported db f view1; rows2 = reported db f view2;
                   ts = row_ApprovedAt ` set rows1; P = as_Policies s;
                   of_policy = \<lambda>a. filter (\<lambda>row. row_ClientID row = ap_ClientID a \<and> row_Resource row = ap_Resource a) rows2
               in as_TotalApprovals s = int (length rows1) \<and> as_TotalCost s = sum_list (map row_Cost rows1) \<and>
                  as_FirstApprovalAt s = (if ts = {} then None else Some (Min ts)) \<and>
                  as_LatestApprovalAt s = (if ts = {} then None else Some (Max ts)) \<and>
                  distinct (map (\<lambda>a. (ap_ClientID a, ap_Resource a)) P) \<and>
                  (\<lambda>a. (ap_ClientID a, ap_Resource a)) ` set P = (\<lambda>row. (row_ClientID row, row_Resource row)) ` set rows2 \<and>
                  (\<forall>a \<in> set P. ap_TotalApprovals a = int (length (of_policy a)) \<and>
                    ap_TotalCost a = sum_list (map row_Cost (of_policy a))))))"
proof (cases "readAnalyticsFilter query")
  case (Inl err)
  then show ?thesis using assms(1) by (simp add: approvalSummaryHandler_def reply_defs)
next
  case (Inr f)
  have days: "af_Days f \<in> {10, 15, 30}" using Inr by (auto simp: readAnalyticsFilter_def split: sum.splits if_splits)
  let ?p = "filter_params f"
  let ?P = "ListApprovalSummaryByPolicy db (fst view2) ?p (snd view2)" and ?S = "GetApprovalSummary db (fst view1) ?p (snd view1)"
  show ?thesis
  proof (cases "sf \<noteq> None \<or> (\<exists>e. query_rows pf ?P = Err e)")
    case True
    then show ?thesis
      using Inr days assms(1) by (auto simp: approvalSummaryHandler_def reply_defs Let_def split: option.splits)
  next
    case False
    then obtain res where q: "query_rows pf ?P = Ok res" by (cases "query_rows pf ?P") auto
    have res: "query_rows pf ?P = Ok ?P" using q query_rows_Ok [OF q] by simp
    have tot: "su_TotalApprovals ?S = int (length (reported db f view1))" "su_TotalCost ?S = sum_list (map row_Cost (reported db f view1))"
      by (simp_all add: reported_selected GetApprovalSummary_def Let_def)
    have "row_ApprovedAt ` set (reported db f view1) = row_ApprovedAt ` {row \<in> set (snd view1). selected db (fst view1) ?p row}"
      by (simp add: reported_selected)
    note times = summary_times [OF assms(2,3) this]
    have pk: "policy_key = (\<lambda>row. (row_ClientID row, row_Resource row))" by (simp add: policy_key_def fun_eq_iff)
    note pol = policy_groups(3) [of db "fst view2" ?p "snd view2"] policy_rows [OF refl reported_selected [of db f view2]]
    show ?thesis
      using Inr days assms(1) False res tot times pol
      by (auto simp: approvalSummaryHandler_def reply_defs comp_def Let_def pk image_image)
  qed
qed

definition ex_query :: "string \<Rightarrow> string" where
  "ex_query key = (if key = ''days'' then ''10'' else [])"

lemma ex_query_filter: "readAnalyticsFilter ex_query = Ok \<lparr>af_Days = 10, af_ClientID = [], af_Resource = []\<rparr>"
proof -
  have "ParseInt ''10'' = Ok 10" using ParseInt_nat_string [of 10] by (simp add: nat_string_examples max_int64_def)
  then show ?thesis by (simp add: readAnalyticsFilter_def ex_query_def Atoi_def)
qed

theorem summary_answers_witness:
  "\<exists>s. w_body (approvalSummaryHandler utc_db (\<lambda>_. None) None no_query_faults (unix_epoch + Second, [ex_row]) (unix_epoch + Second, [ex_row, ex_row]) ex_query)
     = [ReportBody (SummaryReport s)] \<and> as_FirstApprovalAt s = Some (unix_epoch + Second) \<and> as_TotalCost s = 2 \<and>
     map ap_TotalCost (as_Policies s) = [4]"
proof -
  let ?v1 = "(unix_epoch + Second, [ex_row])" and ?v2 = "(unix_epoch + Second, [ex_row, ex_row])"
  have ok: "rows_ok (snd ?v1)" "\<forall>row \<in> set (snd ?v1). row_ApprovedAt row \<noteq> unix_epoch"
  proof -
    have "unix_epoch + Second = time_UnixMilli 1000" by (simp add: time_UnixMilli_def Millisecond_def Second_def)
    then show "rows_ok (snd ?v1)" by (auto simp: rows_ok_def ex_row_def)
  qed (simp add: ex_row_def Second_def)
  let ?f = "\<lparr>af_Days = 10, af_ClientID = [], af_Resource = []\<rparr>"
  have rep: "reported utc_db ?f ?v1 = [ex_row]" "reported utc_db ?f ?v2 = [ex_row, ex_row]"
    by (simp_all add: reported_def utc_db_def ex_row_def Second_def)
  have qr: "query_rows no_query_faults xs = Ok xs" for xs :: "ListApprovalSummaryByPolicyRow list"
    using scan_rows_ok [of 0 "[]" xs] by (simp add: query_rows_def no_query_faults_def)
  have row: "row_ApprovedAt ex_row = unix_epoch + Second" "row_Cost ex_row = 2" by (simp_all add: ex_row_def)
  obtain s where s: "w_body (approvalSummaryHandler utc_db (\<lambda>_. None) None no_query_faults ?v1 ?v2 ex_query) = [ReportBody (SummaryReport s)]"
    and t: "as_TotalCost s = 2" "as_FirstApprovalAt s = Some (unix_epoch + Second)"
    and P: "distinct (map (\<lambda>a. (ap_ClientID a, ap_Resource a)) (as_Policies s))"
      "(\<lambda>a. (ap_ClientID a, ap_Resource a)) ` set (as_Policies s) = {(row_ClientID ex_row, row_Resource ex_row)}"
      "\<forall>a \<in> set (as_Policies s). ap_TotalCost a = sum_list (map row_Cost
        (filter (\<lambda>row. row_ClientID row = ap_ClientID a \<and> row_Resource row = ap_Resource a) [ex_row, ex_row]))"
    using summary_answers [OF refl ok, of utc_db None no_query_faults ?v2 ex_query] row
    unfolding ex_query_filter Let_def sum.case rep qr by auto
  obtain a where a: "as_Policies s = [a]"
  proof -
    have "card ((\<lambda>a. (ap_ClientID a, ap_Resource a)) ` set (as_Policies s)) = length (as_Policies s)"
      using distinct_card [OF P(1)] by simp
    then have "length (as_Policies s) = 1" by (simp add: P(2))
    then show ?thesis using that by (auto simp: length_Suc_conv)
  qed
  then show ?thesis using s t P row by auto
qed

end
