(* ===== verification/Worker.thy ===== *)
theory Worker
  imports Environment Http
begin

text \<open>
  The approval worker of \<open>cmd/worker\<close>: the consumer loop (\<open>worker.go\<close>), the backlog monitor
  (\<open>monitor.go\<close>) and the operational endpoints (\<open>health.go\<close>). A \<open>select\<close> is resolved by the
  environment: each turn of a loop is an event that says which case was taken and what the
  calls of that case met.
\<close>

section \<open>The consumer loop\<close>

datatype worker_log =
    LogStarted
  | LogStopped
  | LogRecovered int
  | LogPersisted int
  | LogRecoverFailed persist_error
  | LogConsumeFailed persist_error

text \<open>
  One turn: the context is done, the claim ticker fired, or neither. \<open>cancelled\<close> is whether
  \<open>ctx.Err()\<close> is set when a failure is logged; the wait for the backoff that follows changes
  no state. The time of the server at which the call is executed comes first.
\<close>

datatype loop_event =
    CtxDone
  | ClaimTick int fetch faults bool
  | Otherwise int fetch faults bool

definition logFailure :: "bool \<Rightarrow> worker_log \<Rightarrow> worker_log list" where
  "logFailure cancelled entry = (if cancelled then [] else [entry])"

fun process_loop ::
  "'q group_ops \<Rightarrow> Config \<Rightarrow> 'q \<times> approvals \<Rightarrow> loop_event list \<Rightarrow> ('q \<times> approvals) \<times> worker_log list \<times> bool" where
  "process_loop G cfg s [] = (s, [], False)"
| "process_loop G cfg s (CtxDone # evs) = (s, [LogStopped], True)"
| "process_loop G cfg s (ClaimTick now reply f cancelled # evs) =
     (let (s', count, err) = RecoverPending G cfg now reply f s;
          log = (case err of
              Some e \<Rightarrow> logFailure cancelled (LogRecoverFailed e)
            | None \<Rightarrow> if count > 0 then [LogRecovered count] else []);
          (s'', logs, returned) = process_loop G cfg s' evs
      in (s'', log @ logs, returned))"
| "process_loop G cfg s (Otherwise now reply f cancelled # evs) =
     (let (s', count, err) = ConsumeNew G cfg now reply f s;
          log = (case err of
              Some e \<Rightarrow> logFailure cancelled (LogConsumeFailed e)
            | None \<Rightarrow> if count > 0 then [LogPersisted count] else []);
          (s'', logs, returned) = process_loop G cfg s' evs
      in (s'', log @ logs, returned))"

definition process ::
  "'q group_ops \<Rightarrow> worker_config \<Rightarrow> 'q \<times> approvals \<Rightarrow> loop_event list \<Rightarrow> ('q \<times> approvals) \<times> worker_log list \<times> bool" where
  "process G cfg s evs =
     (let (s', logs, returned) = process_loop G (wk_events cfg) s evs
      in (s', LogStarted # logs, returned))"

section \<open>The backlog monitor\<close>

datatype backlogState = backlogNormal | backlogWarning | backlogFull

text \<open>The order of the \<open>iota\<close> constants, from harmless to full.\<close>

fun backlogState_code :: "backlogState \<Rightarrow> nat" where
  "backlogState_code backlogNormal = 0"
| "backlogState_code backlogWarning = 1"
| "backlogState_code backlogFull = 2"

instantiation backlogState :: linorder
begin

definition less_eq_backlogState :: "backlogState \<Rightarrow> backlogState \<Rightarrow> bool" where
  "less_eq_backlogState a b \<longleftrightarrow> backlogState_code a \<le> backlogState_code b"

definition less_backlogState :: "backlogState \<Rightarrow> backlogState \<Rightarrow> bool" where
  "less_backlogState a b \<longleftrightarrow> backlogState_code a < backlogState_code b"

instance
proof
  fix a b :: backlogState
  show "a \<le> b \<Longrightarrow> b \<le> a \<Longrightarrow> a = b" by (cases a; cases b; simp add: less_eq_backlogState_def)
qed (auto simp: less_eq_backlogState_def less_backlogState_def)

end

definition backlogState_of :: "worker_config \<Rightarrow> int \<Rightarrow> backlogState" where
  "backlogState_of cfg len =
     (if len \<ge> wk_maxBacklog cfg then backlogFull
      else if mul64 len 100 \<ge> mul64 (wk_maxBacklog cfg) (wk_warningLevel cfg) then backlogWarning
      else backlogNormal)"

datatype monitor_log = LogWarning int | LogFull int | LogResumed int | LogBelowWarning int | LogDrained

definition logBacklogTransition :: "backlogState \<Rightarrow> backlogState \<Rightarrow> int \<Rightarrow> monitor_log" where
  "logBacklogTransition previous next_state len =
     (case next_state of
        backlogWarning \<Rightarrow> LogWarning len
      | backlogFull \<Rightarrow> LogFull len
      | backlogNormal \<Rightarrow> if previous = backlogFull then LogResumed len else LogBelowWarning len)"

text \<open>The variables of \<open>monitorBacklog\<close> and one tick with the result of \<open>Status\<close>.\<close>

record monitor =
  mon_state :: backlogState
  mon_previousLength :: int

definition new_monitor :: monitor where
  "new_monitor = \<lparr>mon_state = backlogNormal, mon_previousLength = 0\<rparr>"

definition monitor_tick ::
  "worker_config \<Rightarrow> monitor \<Rightarrow> (status_error, Status) result \<Rightarrow> monitor \<times> monitor_log list" where
  "monitor_tick cfg m r =
     (case r of
        Inl err \<Rightarrow> (m, [])
      | Inr status \<Rightarrow>
          let len = StreamLength status;
              next_state = backlogState_of cfg len;
              log1 = (if next_state \<noteq> mon_state m then [logBacklogTransition (mon_state m) next_state len] else []);
              log2 = (if mon_previousLength m > 0 \<and> len = 0 then [LogDrained] else [])
          in (\<lparr>mon_state = next_state, mon_previousLength = len\<rparr>, log1 @ log2))"

fun monitorBacklog ::
  "worker_config \<Rightarrow> monitor \<Rightarrow> (status_error, Status) result list \<Rightarrow> monitor \<times> monitor_log list" where
  "monitorBacklog cfg m [] = (m, [])"
| "monitorBacklog cfg m (r # rs) =
     (let (m', log) = monitor_tick cfg m r;
          (m'', logs) = monitorBacklog cfg m' rs
      in (m'', log @ logs))"

section \<open>Endpoints\<close>

definition oldestEventAge :: "go_time \<Rightarrow> go_time \<Rightarrow> int" where
  "oldestEventAge now oldest =
     (if time_IsZero oldest then 0
      else let age = time_Sub now oldest
           in if age < 0 then 0 else duration_Milliseconds age)"

record statusResponse =
  st_StreamLength :: int
  st_PendingEvents :: int
  st_OldestEventAgeMS :: int
  st_ConfiguredLimit :: int
  st_CapacityUsedPercent :: rat

datatype worker_body = HealthBody string | StatusBody statusResponse

definition healthCheckHandler :: "string option \<Rightarrow> worker_body writer" where
  "healthCheckHandler wfault = worker_writeJSON wfault new_writer 200 (HealthBody ''available'')"

definition readinessCheckHandler :: "string option \<Rightarrow> ready_error option \<Rightarrow> worker_body writer" where
  "readinessCheckHandler wfault ready =
     (case ready of
        Some err \<Rightarrow> worker_writeJSON wfault new_writer 503 (HealthBody ''unavailable'')
      | None \<Rightarrow> worker_writeJSON wfault new_writer 200 (HealthBody ''available''))"

definition statusHandler ::
  "worker_config \<Rightarrow> go_time \<Rightarrow> string option \<Rightarrow> (status_error, Status) result \<Rightarrow> worker_body writer" where
  "statusHandler cfg now wfault r =
     (case r of
        Inl err \<Rightarrow> worker_writeJSON wfault new_writer 503 (HealthBody ''unavailable'')
      | Inr status \<Rightarrow>
          worker_writeJSON wfault new_writer 200 (StatusBody
            \<lparr>st_StreamLength = StreamLength status, st_PendingEvents = PendingCount status,
             st_OldestEventAgeMS = oldestEventAge now (OldestEvent status),
             st_ConfiguredLimit = wk_maxBacklog cfg,
             st_CapacityUsedPercent =
               fdiv (fmul (float64 (StreamLength status)) 100) (float64 (wk_maxBacklog cfg))\<rparr>))"

section \<open>Example data\<close>

text \<open>A monitor with a limit of 100 that warns at 80 percent.\<close>

definition ex_worker :: worker_config where
  "ex_worker = \<lparr>wk_addr = '':8081'', wk_databaseURL = ''postgres://db'', wk_redis = undefined, wk_events = ex_config,
     wk_maxBacklog = 100, wk_claimEvery = Second, wk_statusEvery = Second, wk_warningLevel = 80, wk_retryBackoff = Second\<rparr>"

definition ex_status :: "int \<Rightarrow> Status" where
  "ex_status n = \<lparr>StreamLength = n, PendingCount = 0, OldestEvent = 0\<rparr>"

section \<open>The loop is the worker of \<open>Events\<close>\<close>

fun tick_of :: "loop_event \<Rightarrow> tick" where
  "tick_of (ClaimTick now reply f cancelled) = Recover now reply f"
| "tick_of (Otherwise now reply f cancelled) = Consume now reply f"
| "tick_of CtxDone = Consume 0 Replied no_faults"

lemma process_loop_run:
  "process_loop G cfg s evs = (s', logs, returned) \<Longrightarrow>
     s' = run_worker G cfg s (map tick_of (takeWhile (\<lambda>e. e \<noteq> CtxDone) evs)) \<and> (returned \<longleftrightarrow> CtxDone \<in> set evs)"
proof (induction G cfg s evs arbitrary: logs rule: process_loop.induct)
  case (3 G cfg s now reply f cancelled evs)
  obtain s1 n err where r: "RecoverPending G cfg now reply f s = (s1, n, err)" by (metis prod.exhaust)
  then show ?case using 3 by (auto simp: Let_def run_worker_def worker_step_def split: prod.splits)
next
  case (4 G cfg s now reply f cancelled evs)
  obtain s1 n err where r: "ConsumeNew G cfg now reply f s = (s1, n, err)" by (metis prod.exhaust)
  then show ?case using 4 by (auto simp: Let_def run_worker_def worker_step_def split: prod.splits)
qed (auto simp: run_worker_def)

text \<open>
  C26. The consumer loop loses nothing. Whatever the \<open>select\<close> chooses and whatever calls fail,
  the loop ends exactly when it sees the context done, never because of an error; and when it
  has, every message that was in the stream is still there or has its row in the table.
\<close>

theorem process_no_loss:
  assumes "approval_stream G" and "inj_on msg_ID (set (g_entries G q))" and "faithful (set (g_entries G q)) t"
    and "process G cfg (q, t) evs = ((q', t'), logs, returned)"
  shows "(returned \<longleftrightarrow> CtxDone \<in> set evs) \<and>
    (\<forall>m \<in> set (g_entries G q). m \<in> set (g_entries G q') \<or> stored_row t' m)"
proof -
  let ?ticks = "map tick_of (takeWhile (\<lambda>e. e \<noteq> CtxDone) evs)"
  obtain logs' where l: "process_loop G (wk_events cfg) (q, t) evs = ((q', t'), logs', returned)"
    using assms(4) by (auto simp: process_def split: prod.splits)
  note run = process_loop_run [OF l]
  have p: "produced ?ticks = []"
  proof (induction evs)
    case (Cons e evs)
    then show ?case by (cases e) auto
  qed simp
  have "run_worker G (wk_events cfg) (q, t) ?ticks = (q', t')" using run by simp
  from worker_no_loss_aux [OF assms(1) this] show ?thesis using assms(2,3) run by (simp add: p)
qed

theorem process_no_loss_witness:
  "\<exists>q' t' logs. process mem_group_ops ex_worker (ex_group\<lparr>mg_fresh := [ex_message ''1-0'']\<rparr>, Map.empty)
       [Otherwise 1000 Replied (no_faults\<lparr>f_begin := Some ''down''\<rparr>) False, CtxDone] = ((q', t'), logs, True) \<and>
     (ex_message ''1-0'' \<in> set (mem_entries q') \<or> stored_row t' (ex_message ''1-0''))"
proof -
  let ?q = "ex_group\<lparr>mg_fresh := [ex_message ''1-0'']\<rparr>"
  let ?evs = "[Otherwise 1000 Replied (no_faults\<lparr>f_begin := Some ''down''\<rparr>) False, CtxDone]"
  obtain q' t' logs returned where p: "process mem_group_ops ex_worker (?q, Map.empty) ?evs = ((q', t'), logs, returned)"
    by (metis prod.exhaust)
  have "(returned \<longleftrightarrow> CtxDone \<in> set ?evs) \<and>
      (\<forall>m \<in> set (g_entries mem_group_ops ?q). m \<in> set (g_entries mem_group_ops q') \<or> stored_row t' m)"
    by (rule process_no_loss [OF mem_group.approval_stream_axioms _ _ p]) (simp_all add: mem_group_ops_def mem_entries_def ex_group_def faithful_def)
  then show ?thesis using p by (simp add: mem_group_ops_def mem_entries_def ex_group_def)
qed

section \<open>What the monitor reports\<close>

text \<open>The lengths the monitor saw, and the state a log entry announces.\<close>

fun seen :: "(status_error, Status) result list \<Rightarrow> int list" where
  "seen [] = []"
| "seen (Inl err # rs) = seen rs"
| "seen (Inr status # rs) = StreamLength status # seen rs"

fun log_state :: "monitor_log \<Rightarrow> backlogState" where
  "log_state (LogWarning n) = backlogWarning"
| "log_state (LogFull n) = backlogFull"
| "log_state (LogResumed n) = backlogNormal"
| "log_state (LogBelowWarning n) = backlogNormal"
| "log_state LogDrained = backlogNormal"

lemma log_state_transition [simp]:
  "log_state (logBacklogTransition a b n) = b" "logBacklogTransition a b n \<noteq> LogDrained"
  by (cases b; simp add: logBacklogTransition_def)+

lemma remdups_adj_tl: "remdups_adj (x # xs) = x # tl (remdups_adj (x # xs))"
  by (induction xs arbitrary: x) auto

lemma monitorBacklog_gen:
  assumes "monitorBacklog cfg m rs = (m', logs)"
  shows "mon_state m' = last (mon_state m # map (backlogState_of cfg) (seen rs)) \<and>
    map log_state (filter (\<lambda>l. l \<noteq> LogDrained) logs) =
      tl (remdups_adj (mon_state m # map (backlogState_of cfg) (seen rs)))"
  using assms
proof (induction cfg m rs arbitrary: m' logs rule: monitorBacklog.induct)
  case (2 cfg m r rs)
  obtain m1 log where t: "monitor_tick cfg m r = (m1, log)" by force
  obtain logs1 where rest: "monitorBacklog cfg m1 rs = (m', logs1)" and logs: "logs = log @ logs1"
    using 2(2) t by (auto split: prod.splits)
  note IH = 2(1) [OF t [symmetric] refl rest]
  show ?case
  proof (cases r)
    case (Inl err)
    then show ?thesis using IH t logs by (simp add: monitor_tick_def)
  next
    case (Inr status)
    let ?n = "backlogState_of cfg (StreamLength status)"
    have m1: "mon_state m1 = ?n" using t Inr by (auto simp: monitor_tick_def Let_def)
    have "map log_state (filter (\<lambda>l. l \<noteq> LogDrained) log) = (if ?n \<noteq> mon_state m then [?n] else [])"
      using t Inr by (auto simp: monitor_tick_def Let_def)
    then show ?thesis
      using IH Inr logs m1 remdups_adj_tl [of ?n "map (backlogState_of cfg) (seen rs)"] by auto
  qed
qed simp

text \<open>
  C25. The monitor reports exactly the state transitions: its state is that of the last length
  it read, and the transitions it logged, in order, are the sequence of states it went
  through without repetitions. Readings that fail change nothing.
\<close>

theorem monitor_logs_transitions:
  "\<exists>m logs. monitorBacklog cfg new_monitor rs = (m, logs) \<and>
     mon_state m = last (backlogNormal # map (backlogState_of cfg) (seen rs)) \<and>
     map log_state (filter (\<lambda>l. l \<noteq> LogDrained) logs) =
       tl (remdups_adj (backlogNormal # map (backlogState_of cfg) (seen rs)))"
  using monitorBacklog_gen [of cfg new_monitor rs] by (cases "monitorBacklog cfg new_monitor rs") (auto simp: new_monitor_def)

text \<open>
  The resumption of admission goes unreported. When the stream drains from full through
  the warning range, the monitor says that the warning threshold was crossed and later
  cleared, and never that admission resumed.
\<close>

theorem monitor_resume_unreported:
  assumes "backlogState_of cfg (StreamLength x) = backlogFull" and "backlogState_of cfg (StreamLength y) = backlogWarning"
    and "backlogState_of cfg (StreamLength z) = backlogNormal"
  shows "filter (\<lambda>l. l \<noteq> LogDrained) (snd (monitorBacklog cfg new_monitor [Ok x, Ok y, Ok z])) =
    [LogFull (StreamLength x), LogWarning (StreamLength y), LogBelowWarning (StreamLength z)]"
  using assms by (simp add: new_monitor_def monitor_tick_def logBacklogTransition_def Let_def)

lemma ex_backlogState:
  "backlogState_of ex_worker 100 = backlogFull" "backlogState_of ex_worker 90 = backlogWarning"
  "backlogState_of ex_worker 10 = backlogNormal"
  by (simp_all add: backlogState_of_def ex_worker_def mul64_def wrap64_def)

theorem monitor_resume_unreported_witness:
  "filter (\<lambda>l. l \<noteq> LogDrained) (snd (monitorBacklog ex_worker new_monitor [Ok (ex_status 100), Ok (ex_status 90), Ok (ex_status 10)])) =
     [LogFull 100, LogWarning 90, LogBelowWarning 10]"
  using monitor_resume_unreported [of ex_worker "ex_status 100" "ex_status 90" "ex_status 10"]
  by (simp add: ex_status_def ex_backlogState)

lemma backlogState_spec:
  assumes "0 < wk_maxBacklog cfg" "wk_maxBacklog cfg \<le> max_int64 div 100" "1 \<le> wk_warningLevel cfg" "wk_warningLevel cfg \<le> 100"
    and "0 \<le> len"
  shows "backlogState_of cfg len =
      (if wk_maxBacklog cfg \<le> len then backlogFull
       else if wk_maxBacklog cfg * wk_warningLevel cfg \<le> len * 100 then backlogWarning else backlogNormal)"
proof -
  have p: "wk_maxBacklog cfg * wk_warningLevel cfg \<le> wk_maxBacklog cfg * 100"
    using assms by (intro mult_left_mono) auto
  have m: "wk_maxBacklog cfg * 100 \<le> max_int64" using assms(2) by (simp add: max_int64_def)
  have "0 \<le> wk_maxBacklog cfg * wk_warningLevel cfg" using assms by simp
  then have "in64 (wk_maxBacklog cfg * wk_warningLevel cfg)"
    using p m by (simp add: in64_def min_int64_def)
  moreover have "in64 (len * 100)" if "len < wk_maxBacklog cfg"
  proof -
    have "len * 100 \<le> wk_maxBacklog cfg * 100" using that by simp
    then have "len * 100 \<le> max_int64" using m by linarith
    then show ?thesis using assms(5) by (simp add: in64_def min_int64_def)
  qed
  ultimately show ?thesis by (simp add: backlogState_of_def mul64_id)
qed

text \<open>
  The classification is exact while the products fit 64 bits: full from the limit on,
  warning from the configured percentage on, normal below. Beyond that range, which the
  configuration accepts, the product wraps around: with the largest limit an empty stream
  is reported as a warning.
\<close>

theorem backlogState_exact:
  assumes "0 < wk_maxBacklog cfg" "wk_maxBacklog cfg \<le> max_int64 div 100" "1 \<le> wk_warningLevel cfg" "wk_warningLevel cfg \<le> 100"
    and "0 \<le> len"
  shows "backlogState_of cfg len =
      (if wk_maxBacklog cfg \<le> len then backlogFull
       else if wk_maxBacklog cfg * wk_warningLevel cfg \<le> len * 100 then backlogWarning else backlogNormal) \<and>
    backlogState_of (cfg\<lparr>wk_maxBacklog := max_int64, wk_warningLevel := 80\<rparr>) 0 = backlogWarning"
  using backlogState_spec [OF assms] by (simp add: backlogState_of_def mul64_def wrap64_def max_int64_def)

theorem backlogState_exact_witness:
  "backlogState_of ex_worker 80 = backlogWarning \<and> backlogState_of ex_worker 79 = backlogNormal"
  using backlogState_exact [of ex_worker 80] backlogState_exact [of ex_worker 79]
  by (simp add: ex_worker_def max_int64_def)

text \<open>
  While the stream only grows, the reports of the monitor only escalate: it never says that
  the backlog has recovered.
\<close>

lemma backlogState_mono:
  assumes "0 < wk_maxBacklog cfg" "wk_maxBacklog cfg \<le> max_int64 div 100" "1 \<le> wk_warningLevel cfg" "wk_warningLevel cfg \<le> 100"
    and "0 \<le> len" "len \<le> len'"
  shows "backlogState_of cfg len \<le> backlogState_of cfg len'"
  using assms backlogState_spec [of cfg len] backlogState_spec [of cfg len']
  by (auto simp: less_eq_backlogState_def)

theorem monitor_escalates:
  assumes "0 < wk_maxBacklog cfg" "wk_maxBacklog cfg \<le> max_int64 div 100" "1 \<le> wk_warningLevel cfg" "wk_warningLevel cfg \<le> 100"
    and "sorted (seen rs)" "\<forall>n \<in> set (seen rs). 0 \<le> n"
  shows "sorted (map log_state (filter (\<lambda>l. l \<noteq> LogDrained) (snd (monitorBacklog cfg new_monitor rs))))"
proof -
  have "sorted (map (backlogState_of cfg) (seen rs))"
    using assms(5,6) backlogState_mono [OF assms(1-4)]
    by (auto simp: sorted_map intro: sorted_wrt_mono_rel [of _ "(\<le>)"])
  moreover have "backlogNormal \<le> x" for x by (cases x) (simp_all add: less_eq_backlogState_def)
  ultimately have "sorted (remdups_adj (backlogNormal # map (backlogState_of cfg) (seen rs)))"
    by (intro sorted_remdups_adj) simp
  then show ?thesis
    using monitorBacklog_gen [of cfg new_monitor rs] by (simp add: sorted_tl new_monitor_def prod_eq_iff)
qed

theorem monitor_escalates_witness:
  "sorted (map log_state (filter (\<lambda>l. l \<noteq> LogDrained) (snd (monitorBacklog ex_worker new_monitor
     [Ok (ex_status 10), Ok (ex_status 90), Ok (ex_status 100)]))))"
  by (rule monitor_escalates) (simp_all add: ex_worker_def ex_status_def max_int64_def)

section \<open>Status\<close>

lemma Cut_dash_id: "CHR ''-'' \<notin> set a \<Longrightarrow> Cut_dash (a @ CHR ''-'' # b) = (a, b, True)"
  by (induction a) (auto simp: Cut_dash_def Let_def)

text \<open>
  The status endpoint. When the pipeline fails it answers 503. Otherwise it answers 200
  with the length, the pending count, the limit and the age in milliseconds of the oldest
  entry, read from the entry's own id, never negative, and 0 for an empty stream.
\<close>

theorem statusHandler_reports:
  assumes "0 \<le> ms" "ms \<le> max_int64" "in64 (now - time_UnixMilli ms)" "time_UnixMilli ms \<noteq> 0"
  shows "sent_status (statusHandler cfg now None (Status_of (Err e))) = Some 503 \<and>
    (\<exists>b. w_body (statusHandler cfg now None (Status_of (Ok (len, pending, [])))) = [StatusBody b] \<and>
       st_OldestEventAgeMS b = 0 \<and> st_StreamLength b = len) \<and>
    (\<exists>b w. w = statusHandler cfg now None (Status_of (Ok (len, pending, (nat_string (nat ms) @ ''-'' @ sq) # ids))) \<and>
       sent_status w = Some 200 \<and> w_body w = [StatusBody b] \<and>
       st_StreamLength b = len \<and> st_PendingEvents b = pending \<and> st_ConfiguredLimit b = wk_maxBacklog cfg \<and>
       st_OldestEventAgeMS b = max 0 ((now - time_UnixMilli ms) div Millisecond))"
proof -
  have nd: "CHR ''-'' \<notin> set (nat_string (nat ms))" using nat_string_digits by fastforce
  have st: "Status_of (Ok (len, pending, (nat_string (nat ms) @ CHR ''-'' # sq) # ids)) =
      Ok \<lparr>StreamLength = len, PendingCount = pending, OldestEvent = time_UnixMilli ms\<rparr>"
    using assms(1,2) by (simp add: Status_of_def Cut_dash_id [OF nd] ParseInt_nat_string)
  let ?d = "now - time_UnixMilli ms"
  have "oldestEventAge now (time_UnixMilli ms) = max 0 (?d div Millisecond)"
  proof (cases "?d < 0")
    case True
    then have "?d div Millisecond < 0" by (simp add: Millisecond_def)
    then show ?thesis using True assms(3,4) by (simp add: oldestEventAge_def time_Sub_def time_IsZero_def)
  next
    case False
    then have "0 \<le> ?d div Millisecond" by (simp add: Millisecond_def pos_imp_zdiv_nonneg_iff)
    then show ?thesis
      using False assms(3,4) by (simp add: oldestEventAge_def time_Sub_def time_IsZero_def duration_Milliseconds_nonneg)
  qed
  moreover have "Status_of (Err e) = Err (ErrStatusRead e)"
    "Status_of (Ok (len, pending, [])) = Ok \<lparr>StreamLength = len, PendingCount = pending, OldestEvent = 0\<rparr>"
    by (simp_all add: Status_of_def)
  moreover have "oldestEventAge now 0 = 0" by (simp add: oldestEventAge_def time_IsZero_def)
  ultimately show ?thesis by (simp add: statusHandler_def st writer_defs)
qed

theorem statusHandler_reports_witness:
  "\<exists>b. w_body (statusHandler ex_worker (time_UnixMilli 5000) None (Status_of (Ok (3, 1, [''2000-0''])))) = [StatusBody b] \<and>
     st_OldestEventAgeMS b = 3000"
proof -
  have d: "time_UnixMilli 5000 - time_UnixMilli 2000 = 3000 * Millisecond" by (simp add: time_UnixMilli_def)
  have "nat_string 2000 = ''2000''" by (simp add: nat_string.simps digit_chars)
  moreover have "in64 (3000 * Millisecond)" "time_UnixMilli 2000 \<noteq> 0" "3000 * Millisecond div Millisecond = 3000"
    by (simp_all add: in64_def min_int64_def max_int64_def Millisecond_def time_UnixMilli_def unix_epoch_def Second_def)
  ultimately show ?thesis
    using statusHandler_reports [of 2000 "time_UnixMilli 5000" ex_worker "[]" 3 1 "''0''" "[]"]
    by (auto simp: d max_int64_def)
qed

end
