(* ===== verification/Recovery.thy ===== *)
theory Recovery
  imports Events
begin

text \<open>
  The worker after failures. Messages that were delivered and not acknowledged, because a
  worker stopped or a call failed, stay pending in the consumer group; \<open>RecoverPending\<close> claims those
  that have been idle for the claim interval. Shown here: whatever failed before, when every
  message can be decoded, the calls succeed again and the recoveries come late enough, every approval
  that was ever produced has its row and the stream is empty; and a message that cannot be decoded
  keeps the messages delivered with it from ever being stored.
\<close>

section \<open>The entries of a run\<close>

text \<open>A step removes some entries and appends what it produces, so ids stay distinct.\<close>

lemma run_append: "run_worker G cfg s (xs @ ys) = run_worker G cfg (run_worker G cfg s xs) ys"
  by (simp add: run_worker_def)

context approval_stream
begin

lemma persist_filters: "\<exists>P. g_entries G (fst (fst (persistMessages G f s ms))) = filter P (g_entries G (fst s))"
proof -
  have "fst (fst (persistMessages G f s ms)) \<in> {fst s, g_remove G (fst s) (map msg_ID ms)}"
    by (auto simp: persistMessages_def Let_def split: sum.splits option.splits outcome.splits)
  then show ?thesis
  proof
    assume "fst (fst (persistMessages G f s ms)) = fst s"
    then show ?thesis by (intro exI [of _ "\<lambda>_. True"]) simp
  qed (auto simp: remove_entries)
qed

lemma persist_dom:
  "dom (snd (fst (persistMessages G f s ms))) \<subseteq> dom (snd s) \<union> msg_ID ` set ms"
proof -
  obtain q t q' t' res where e: "s = (q, t)" "persistMessages G f (q, t) ms = ((q', t'), res)" by (metis prod.exhaust)
  have ids: "par_StreamID ` set ps = msg_ID ` set ms" if "decode_all ms = Ok ps" for ps
    using decode_all_ids [OF that] by (metis set_map)
  from e(2) show ?thesis
  proof (cases rule: persist_cases)
    case (stored ps err)
    then show ?thesis using e insert_all_dom [OF stored(2)] ids by auto
  next
    case (removed ps)
    then show ?thesis using e insert_all_dom [OF removed(2)] ids by auto
  qed (use e in auto)
qed

lemma step_filters:
  "\<exists>P. g_entries G (fst (worker_step G cfg s tick)) = filter P (g_entries G (fst s)) @ produced [tick]"
proof -
  have all: "\<exists>P. xs = filter P xs" for xs :: "XMessage list" by (intro exI [of _ "\<lambda>_. True"]) simp
  show ?thesis
  proof (cases tick)
    case (Produce m)
    then show ?thesis using all by (simp add: worker_step_def add_entries)
  next
    case (Ensure reply)
    then show ?thesis
      using all by (auto simp: worker_step_def EnsureGroup_def create_entries split_def Let_def split: fetch.splits)
  next
    case (Consume now reply f)
    let ?r = "g_read G (fst s) now (cfg_BatchSize cfg)"
    show ?thesis
      using all Consume persist_filters [of f "(fst ?r, snd s)" "snd ?r"]
      by (auto simp: worker_step_def ConsumeNew_def read_entries split_def Let_def split: fetch.splits sum.splits)
  next
    case (Recover now reply f)
    let ?c = "g_claim G (fst s) now (cfg_ClaimIdle cfg) (cfg_BatchSize cfg)"
    show ?thesis
      using all Recover persist_filters [of f "(fst ?c, snd s)" "snd ?c"]
      by (auto simp: worker_step_def RecoverPending_def claim_entries split_def Let_def split: fetch.splits sum.splits)
  qed
qed

lemma step_distinct:
  assumes "distinct (map msg_ID (g_entries G (fst s) @ produced (tick # ticks)))"
  shows "distinct (map msg_ID (g_entries G (fst (worker_step G cfg s tick)) @ produced ticks))"
proof -
  obtain P where P: "g_entries G (fst (worker_step G cfg s tick)) = filter P (g_entries G (fst s)) @ produced [tick]"
    using step_filters by blast
  have "produced (tick # ticks) = produced [tick] @ produced ticks" by (cases tick) simp_all
  then show ?thesis
    using assms by (auto simp: P distinct_map inj_on_Un dest: inj_on_subset [of _ _ "set (filter P _)"])
qed

lemma run_distinct:
  "distinct (map msg_ID (g_entries G (fst s) @ produced ticks)) \<Longrightarrow>
     distinct (map msg_ID (g_entries G (fst (run_worker G cfg s ticks))))"
proof (induction ticks arbitrary: s)
  case (Cons tick ticks)
  from Cons.IH [OF step_distinct [OF Cons.prems]] show ?case by (simp add: run_worker_def)
qed (simp add: run_worker_def)

lemma run_length: "length (g_entries G (fst (run_worker G cfg s ticks))) \<le> length (g_entries G (fst s)) + length (produced ticks)"
proof (induction ticks arbitrary: s)
  case (Cons tick ticks)
  obtain P where P: "g_entries G (fst (worker_step G cfg s tick)) = filter P (g_entries G (fst s)) @ produced [tick]"
    using step_filters by blast
  have "length (g_entries G (fst (worker_step G cfg s tick))) \<le> length (g_entries G (fst s)) + length (produced [tick])"
    by (simp add: P)
  moreover have "produced (tick # ticks) = produced [tick] @ produced ticks" by (cases tick) simp_all
  ultimately show ?case using Cons.IH [of "worker_step G cfg s tick"] by (simp add: run_worker_def)
qed (simp add: run_worker_def)

lemma run_filters:
  "produced ticks = [] \<Longrightarrow> \<exists>P. g_entries G (fst (run_worker G cfg s ticks)) = filter P (g_entries G (fst s))"
proof (induction ticks arbitrary: s)
  case Nil
  show ?case by (intro exI [of _ "\<lambda>_. True"]) (simp add: run_worker_def)
next
  case (Cons tick ticks)
  then have no: "produced [tick] = []" "produced ticks = []" by (cases tick; simp)+
  obtain P where "g_entries G (fst (worker_step G cfg s tick)) = filter P (g_entries G (fst s))"
    using step_filters [of cfg s tick] no by auto
  moreover obtain Q where "g_entries G (fst (run_worker G cfg (worker_step G cfg s tick) ticks)) =
      filter Q (g_entries G (fst (worker_step G cfg s tick)))"
    using Cons.IH [OF no(2)] by blast
  ultimately show ?case by (auto simp: run_worker_def)
qed

end

text \<open>The times at which a run may deliver messages.\<close>

fun tick_times :: "tick list \<Rightarrow> int list" where
  "tick_times [] = []"
| "tick_times (Consume now reply f # ticks) = now # tick_times ticks"
| "tick_times (Recover now reply f # ticks) = now # tick_times ticks"
| "tick_times (_ # ticks) = tick_times ticks"

lemma filter_update_drop:
  fixes ps :: "(XMessage \<times> int) list"
  assumes "distinct (map msg_ID (map fst ps))"
  shows "filter (\<lambda>p. msg_ID (fst p) \<notin> set (map msg_ID (take n (map fst ps))))
      (map (\<lambda>p. if fst p \<in> set (take n (map fst ps)) then (fst p, now) else p) ps) = drop n ps"
proof -
  let ?u = "\<lambda>p. if fst p \<in> set (take n (map fst ps)) then (fst p, now) else p"
  let ?P = "\<lambda>p. msg_ID (fst p) \<notin> set (map msg_ID (take n (map fst ps)))"
  have "distinct (map (msg_ID \<circ> fst) (take n ps) @ map (msg_ID \<circ> fst) (drop n ps))"
    using assms by (simp only: map_append [symmetric] append_take_drop_id map_map)
  then have d: "\<forall>p \<in> set (drop n ps). msg_ID (fst p) \<notin> (msg_ID \<circ> fst) ` set (take n ps)" by auto
  have "\<forall>p \<in> set (take n ps). \<not> ?P (?u p)" by (auto simp: take_map)
  then have 1: "filter ?P (map ?u (take n ps)) = []" by (auto simp: filter_empty_conv)
  have keep: "?u p = p \<and> ?P p" if "p \<in> set (drop n ps)" for p
  proof -
    have i: "msg_ID ` set (take n (map fst ps)) = (msg_ID \<circ> fst) ` set (take n ps)" by (simp add: take_map image_comp)
    then have "?P p" using bspec [OF d that] by simp
    then show ?thesis by auto
  qed
  then have "map ?u (drop n ps) = drop n ps" by (intro map_idI) blast
  then have 2: "filter ?P (map ?u (drop n ps)) = drop n ps" using keep by (simp only: filter_id_conv) blast
  have "map ?u ps = map ?u (take n ps) @ map ?u (drop n ps)" by (metis append_take_drop_id map_append)
  then show ?thesis by (simp only: filter_append 1 2 append_Nil)
qed

section \<open>Pending messages\<close>

text \<open>
  The consumer group with its pending entries. \<open>pending q\<close> are the messages delivered and not
  acknowledged, in stream order, each with the time of its last delivery in milliseconds of
  the server's clock. \<open>XAUTOCLAIM\<close> from \<open>0-0\<close> with \<open>COUNT n\<close> scans the first \<open>10 * n\<close> of them, returns
  up to \<open>n\<close> that have been idle long enough and sets their delivery time to now. A message
  counts as idle long enough (\<open>claimable\<close>) when its idle time is over the minimum by more than a
  millisecond and not when it is a millisecond or more below; in between it is left open, since the
  minimum is sent in whole milliseconds. \<open>XREADGROUP\<close> makes its messages pending.
\<close>

locale recovering_stream = draining_stream G fresh for G :: "'q group_ops" and fresh +
  fixes pending :: "'q \<Rightarrow> (XMessage \<times> int) list" and claimable :: "duration \<Rightarrow> int \<Rightarrow> bool"
  assumes pending_fresh: "distinct (map msg_ID (g_entries G q)) \<Longrightarrow> distinct (map msg_ID (map fst (pending q) @ fresh q))"
    and claimable_long: "d + Millisecond < idle * Millisecond \<Longrightarrow> claimable d idle"
    and claimable_short: "(idle + 1) * Millisecond \<le> d \<Longrightarrow> \<not> claimable d idle"
    and claim_pending: "snd (g_claim G q now d n) =
      map fst (take (nat n) (filter (\<lambda>p. claimable d (now - snd p)) (take (10 * nat n) (pending q))))"
    and pending_claim: "pending (fst (g_claim G q now d n)) =
      map (\<lambda>p. if fst p \<in> set (snd (g_claim G q now d n)) then (fst p, now) else p) (pending q)"
    and fresh_claim: "fresh (fst (g_claim G q now d n)) = fresh q"
    and pending_read: "pending (fst (g_read G q now n)) = pending q @ map (\<lambda>m. (m, now)) (take (nat n) (fresh q))"
    and pending_remove: "pending (g_remove G q ids) = filter (\<lambda>p. msg_ID (fst p) \<notin> set ids) (pending q)"
    and add_pending: "pending (g_add G q m) = pending q"
    and add_fresh: "fresh (g_add G q m) = fresh q @ [m]"
    and create_pending: "pending (fst (g_create G q)) = pending q"
    and create_fresh: "fresh (fst (g_create G q)) = fresh q"
begin

lemma pending_distinct: "distinct (map msg_ID (g_entries G q)) \<Longrightarrow> distinct (map msg_ID (map fst (pending q)))"
  using pending_fresh by auto

text \<open>What is pending is in the stream: after two milliseconds with no minimum it could be claimed.\<close>

lemma pending_entries: "fst ` set (pending q) \<subseteq> set (g_entries G q)"
proof
  fix m assume "m \<in> fst ` set (pending q)"
  then obtain t where t: "(m, t) \<in> set (pending q)" by auto
  let ?n = "length (pending q)" and ?f = "filter (\<lambda>p. claimable 0 (t + 2 - snd p)) (pending q)"
  have "snd (g_claim G q (t + 2) 0 (int ?n)) = map fst ?f"
    using length_filter_le [of _ "pending q"] by (simp add: claim_pending)
  moreover have "(m, t) \<in> set ?f" using t claimable_long [of 0 2] by (simp add: Millisecond_def)
  then have "m \<in> set (map fst ?f)" by force
  ultimately have "m \<in> set (snd (g_claim G q (t + 2) 0 (int ?n)))" by (simp only:)
  then show "m \<in> set (g_entries G q)" using claim_messages by blast
qed

lemma pending_length:
  assumes "distinct (map msg_ID (g_entries G q))"
  shows "length (pending q) \<le> length (g_entries G q)"
proof -
  have "distinct (map fst (pending q))" using pending_distinct [OF assms] distinct_map [of msg_ID "map fst (pending q)"] by blast
  then have "length (pending q) = card (fst ` set (pending q))" by (metis distinct_card length_map set_map)
  also have "\<dots> \<le> card (set (g_entries G q))" by (intro card_mono pending_entries) simp
  also have "\<dots> \<le> length (g_entries G q)" by (rule card_length)
  finally show ?thesis .
qed

text \<open>When everything pending has been idle for long, a claim returns the first of it.\<close>

definition all_idle :: "'q \<Rightarrow> duration \<Rightarrow> int \<Rightarrow> bool" where
  "all_idle q d now \<longleftrightarrow> (\<forall>p \<in> set (pending q). d + Millisecond < (now - snd p) * Millisecond)"

lemma claim_all:
  assumes "all_idle q d now"
  shows "snd (g_claim G q now d n) = take (nat n) (map fst (pending q))"
proof -
  have "filter (\<lambda>p. claimable d (now - snd p)) (take (10 * nat n) (pending q)) = take (10 * nat n) (pending q)"
    using assms claimable_long by (auto simp: all_idle_def filter_id_conv dest!: in_set_takeD)
  then show ?thesis by (simp add: claim_pending take_map min_def)
qed

lemma claim_messages_pending: "map fst (pending (fst (g_claim G q now d n))) = map fst (pending q)"
  unfolding pending_claim by (rule map_fst_update)

text \<open>Every entry is still to be delivered or pending; no operation loses track of one.\<close>

definition tracked :: "'q \<Rightarrow> bool" where
  "tracked q \<longleftrightarrow> set (g_entries G q) \<subseteq> set (fresh q) \<union> fst ` set (pending q)"

lemma read_tracked:
  assumes "tracked q"
  shows "tracked (fst (g_read G q now n))"
proof -
  have "set (fresh q) = set (take (nat n) (fresh q)) \<union> set (drop (nat n) (fresh q))"
    by (metis append_take_drop_id set_append)
  then show ?thesis
    using assms by (auto simp: tracked_def read_entries fresh_read pending_read image_Un image_image)
qed

lemma claim_tracked: "tracked q \<Longrightarrow> tracked (fst (g_claim G q now d n))"
  using claim_messages_pending [of q now d n] by (simp add: tracked_def claim_entries fresh_claim flip: set_map)

lemma remove_tracked: "tracked q \<Longrightarrow> tracked (g_remove G q ids)"
  by (force simp: tracked_def remove_entries fresh_remove pending_remove)

lemma persist_tracked: "tracked (fst s) \<Longrightarrow> tracked (fst (fst (persistMessages G f s ms)))"
  by (auto simp: persistMessages_def remove_tracked Let_def split: sum.splits option.splits outcome.splits)

lemma consume_tracked: "tracked (fst s) \<Longrightarrow> tracked (fst (fst (ConsumeNew G cfg now reply f s)))"
  using read_tracked [of "fst s" now "cfg_BatchSize cfg"]
    persist_tracked [of "(fst (g_read G (fst s) now (cfg_BatchSize cfg)), snd s)" f "snd (g_read G (fst s) now (cfg_BatchSize cfg))"]
  by (auto simp: ConsumeNew_def Let_def split_def split: fetch.splits sum.splits)

lemma recover_tracked: "tracked (fst s) \<Longrightarrow> tracked (fst (fst (RecoverPending G cfg now reply f s)))"
  using claim_tracked [of "fst s" now "cfg_ClaimIdle cfg" "cfg_BatchSize cfg"]
    persist_tracked [of "(fst (g_claim G (fst s) now (cfg_ClaimIdle cfg) (cfg_BatchSize cfg)), snd s)" f
      "snd (g_claim G (fst s) now (cfg_ClaimIdle cfg) (cfg_BatchSize cfg))"]
  by (auto simp: RecoverPending_def Let_def split_def split: fetch.splits sum.splits)

lemma step_tracked: "tracked (fst s) \<Longrightarrow> tracked (fst (worker_step G cfg s tick))"
proof (cases tick)
  case (Produce m)
  assume "tracked (fst s)"
  then show ?thesis
    using Produce by (auto simp: worker_step_def tracked_def add_entries add_fresh add_pending)
next
  case (Ensure reply)
  assume "tracked (fst s)"
  then show ?thesis
    using Ensure by (auto simp: worker_step_def tracked_def EnsureGroup_def create_entries create_pending create_fresh
        split_def Let_def split: fetch.splits)
qed (simp_all add: worker_step_def consume_tracked recover_tracked)

lemma run_tracked: "tracked (fst s) \<Longrightarrow> tracked (fst (run_worker G cfg s ticks))"
  by (induction ticks arbitrary: s) (simp_all add: run_worker_def step_tracked)

text \<open>The times of the deliveries: those of the reads and claims.\<close>

definition delivery_times :: "'q \<Rightarrow> int set" where
  "delivery_times q = snd ` set (pending q)"

lemma read_times: "delivery_times (fst (g_read G q now n)) \<subseteq> insert now (delivery_times q)"
  by (auto simp: delivery_times_def pending_read)

lemma claim_times: "delivery_times (fst (g_claim G q now d n)) \<subseteq> insert now (delivery_times q)"
  by (auto simp: delivery_times_def pending_claim)

lemma persist_times: "delivery_times (fst (fst (persistMessages G f s ms))) \<subseteq> delivery_times (fst s)"
  by (auto simp: persistMessages_def delivery_times_def pending_remove Let_def
      split: sum.splits option.splits outcome.splits)

lemma step_times: "delivery_times (fst (worker_step G cfg s tick)) \<subseteq> delivery_times (fst s) \<union> set (tick_times [tick])"
proof (cases tick)
  case (Produce m)
  then show ?thesis by (simp add: worker_step_def delivery_times_def add_pending)
next
  case (Ensure reply)
  then show ?thesis
    by (auto simp: worker_step_def EnsureGroup_def delivery_times_def create_pending split_def Let_def split: fetch.splits)
next
  case (Consume now reply f)
  let ?r = "g_read G (fst s) now (cfg_BatchSize cfg)"
  show ?thesis
    using Consume subset_trans [OF persist_times [of f "(fst ?r, snd s)" "snd ?r"]] read_times [of "fst s" now "cfg_BatchSize cfg"]
    by (auto simp: worker_step_def ConsumeNew_def split_def Let_def split: fetch.splits sum.splits)
next
  case (Recover now reply f)
  let ?c = "g_claim G (fst s) now (cfg_ClaimIdle cfg) (cfg_BatchSize cfg)"
  show ?thesis
    using Recover subset_trans [OF persist_times [of f "(fst ?c, snd s)" "snd ?c"]]
      claim_times [of "fst s" now "cfg_ClaimIdle cfg" "cfg_BatchSize cfg"]
    by (auto simp: worker_step_def RecoverPending_def split_def Let_def split: fetch.splits sum.splits)
qed

lemma run_times: "delivery_times (fst (run_worker G cfg s ticks)) \<subseteq> delivery_times (fst s) \<union> set (tick_times ticks)"
proof (induction ticks arbitrary: s)
  case (Cons tick ticks)
  have "set (tick_times (tick # ticks)) = set (tick_times [tick]) \<union> set (tick_times ticks)" by (cases tick) auto
  then show ?case using Cons.IH [of "worker_step G cfg s tick"] step_times [of cfg s tick] by (auto simp: run_worker_def)
qed (simp add: run_worker_def)

section \<open>Recovery completes\<close>

text \<open>
  One fault-free \<open>RecoverPending\<close> at a time when everything pending has been idle for long takes the
  first batch of the pending messages away.
\<close>

lemma recover_step:
  assumes dist: "distinct (map msg_ID (g_entries G q))"
    and dec: "\<forall>m \<in> fst ` set (pending q). \<exists>p. approvalRequest m = Ok p"
    and idle: "all_idle q (cfg_ClaimIdle cfg) now"
  shows "pending (fst (worker_step G cfg (q, t) (Recover now Replied no_faults))) = drop (nat (cfg_BatchSize cfg)) (pending q)"
proof -
  let ?n = "nat (cfg_BatchSize cfg)"
  let ?ms = "take ?n (map fst (pending q))" and ?c = "g_claim G q now (cfg_ClaimIdle cfg) (cfg_BatchSize cfg)"
  note c = claim_all [OF idle, of "cfg_BatchSize cfg"]
  have "\<forall>m \<in> set ?ms. \<exists>p. approvalRequest m = Ok p" using dec by (auto dest!: in_set_takeD)
  then obtain t' where t': "persistMessages G no_faults (fst ?c, t) ?ms =
      ((if ?ms = [] then fst ?c else g_remove G (fst ?c) (map msg_ID ?ms), t'), Ok (int (length ?ms)))"
    using persist_no_faults by blast
  show ?thesis
  proof (cases "?ms = []")
    case True
    then have "drop ?n (pending q) = pending q" by auto
    moreover have "snd ?c = []" using True c by simp
    ultimately show ?thesis by (simp add: worker_step_def RecoverPending_def split_def Let_def pending_claim)
  next
    case False
    have "pending (g_remove G (fst ?c) (map msg_ID ?ms)) = drop ?n (pending q)"
      unfolding pending_remove pending_claim c
      by (rule filter_update_drop [OF pending_distinct [OF dist]])
    moreover have "fst (worker_step G cfg (q, t) (Recover now Replied no_faults)) = g_remove G (fst ?c) (map msg_ID ?ms)"
      using False t' by (simp add: worker_step_def RecoverPending_def split_def Let_def c)
    ultimately show ?thesis by simp
  qed
qed

lemma recovers:
  assumes "distinct (map msg_ID (g_entries G (fst s)))" "\<forall>m \<in> fst ` set (pending (fst s)). \<exists>p. approvalRequest m = Ok p"
    and "0 < cfg_BatchSize cfg" "length (pending (fst s)) \<le> length nows * nat (cfg_BatchSize cfg)"
    and "\<forall>now \<in> set nows. all_idle (fst s) (cfg_ClaimIdle cfg) now"
  shows "pending (fst (run_worker G cfg s (recover_ticks nows))) = []"
  using assms
proof (induction nows arbitrary: s)
  case (Cons now nows)
  let ?s = "worker_step G cfg s (Recover now Replied no_faults)"
  have p: "pending (fst ?s) = drop (nat (cfg_BatchSize cfg)) (pending (fst s))"
    using recover_step [OF Cons.prems(1,2), of cfg now "snd s"] Cons.prems(5) by simp
  have "distinct (map msg_ID (g_entries G (fst ?s)))"
    using run_distinct [of s "[Recover now Replied no_faults]" cfg] Cons.prems(1) by (simp add: run_worker_def)
  then have "pending (fst (run_worker G cfg ?s (recover_ticks nows))) = []"
    using Cons.prems by (intro Cons.IH) (auto simp: p all_idle_def dest!: in_set_dropD)
  then show ?case by (simp add: run_worker_def recover_ticks_def)
qed (simp add: run_worker_def recover_ticks_def)

text \<open>When nothing is pending, every entry is still to be delivered.\<close>

lemma tracked_fresh:
  assumes "tracked q" "pending q = []" "distinct (map msg_ID (g_entries G q))"
  shows "fresh q = g_entries G q"
proof -
  obtain ms where ms: "g_entries G q = ms @ fresh q" using fresh_suffix by blast
  then have "set ms \<subseteq> set (fresh q)" using assms(1,2) by (auto simp: tracked_def)
  moreover have "set ms \<inter> set (fresh q) = {}" using assms(3) ms by (auto simp: distinct_map)
  ultimately have "ms = []" by (cases ms) auto
  then show ?thesis using ms by simp
qed

lemma catch_up:
  assumes track: "tracked (fst s)" and dist: "distinct (map msg_ID (g_entries G (fst s)))"
    and dec: "\<forall>m \<in> set (g_entries G (fst s)). \<exists>p. approvalRequest m = Ok p"
    and batch: "0 < cfg_BatchSize cfg" "length (g_entries G (fst s)) \<le> length nows * nat (cfg_BatchSize cfg)"
      "length (g_entries G (fst s)) \<le> length nows' * nat (cfg_BatchSize cfg)"
    and idle: "\<forall>now \<in> set nows. all_idle (fst s) (cfg_ClaimIdle cfg) now"
  shows "g_entries G (fst (run_worker G cfg s (recover_ticks nows @ consume_ticks nows'))) = []"
proof -
  let ?s = "run_worker G cfg s (recover_ticks nows)"
  have dist': "distinct (map msg_ID (g_entries G (fst ?s)))"
    using run_distinct [of s "recover_ticks nows" cfg] dist by simp
  obtain P where P: "g_entries G (fst ?s) = filter P (g_entries G (fst s))"
    using run_filters [of "recover_ticks nows" cfg s] by auto
  have "length (pending (fst s)) \<le> length nows * nat (cfg_BatchSize cfg)"
    using pending_length [OF dist] batch(2) by simp
  moreover have "\<forall>m \<in> fst ` set (pending (fst s)). \<exists>p. approvalRequest m = Ok p" using dec pending_entries by blast
  ultimately have "pending (fst ?s) = []" using dist batch(1) idle by (intro recovers)
  then have fr: "fresh (fst ?s) = g_entries G (fst ?s)"
    by (intro tracked_fresh run_tracked track dist')
  have "length (g_entries G (fst ?s)) \<le> length (g_entries G (fst s))" by (simp add: P)
  then have "length (fresh (fst ?s)) \<le> length nows' * nat (cfg_BatchSize cfg)" using batch(3) fr by simp
  then have "g_entries G (fst (run_worker G cfg (fst ?s, snd ?s) (consume_ticks nows'))) = []"
    using dist' dec fr P batch(1) by (intro consumes_drain) auto
  then show ?thesis by (simp add: run_append)
qed

end

interpretation mem_recovery: recovering_stream mem_group_ops mg_fresh mg_pending mem_claimable
proof unfold_locales
  fix q :: mem_group
  show "distinct (map msg_ID (g_entries mem_group_ops q)) \<Longrightarrow> distinct (map msg_ID (map fst (mg_pending q) @ mg_fresh q))"
    by (simp add: mem_group_defs)
qed (simp_all add: mem_group_defs mem_claimable_def Let_def Millisecond_def)

text \<open>The time that must have passed since a delivery for a recovery to get the message.\<close>

definition idle_by :: "duration \<Rightarrow> int \<Rightarrow> int \<Rightarrow> bool" where
  "idle_by d now t \<longleftrightarrow> d + Millisecond < (now - t) * Millisecond"

lemma history_catches_up_aux:
  assumes G: "recovering_stream G fresh pending claimable"
    and track: "set (g_entries G q) \<subseteq> set (fresh q) \<union> fst ` set (pending q)"
    and M: "M = set (g_entries G q) \<union> set (produced ticks)"
    and dist: "distinct (map msg_ID (g_entries G q @ produced ticks))"
    and t: "faithful M t" and dec: "\<forall>m \<in> M. \<exists>p. approvalRequest m = Ok p"
    and run: "run_worker G cfg (q, t) ticks = (q1, t1)"
    and batch: "0 < cfg_BatchSize cfg" "length (g_entries G q1) \<le> length nows * nat (cfg_BatchSize cfg)"
      "length (g_entries G q1) \<le> length nows' * nat (cfg_BatchSize cfg)"
    and idle: "\<forall>now \<in> set nows. \<forall>d \<in> snd ` set (pending q) \<union> set (tick_times ticks). idle_by (cfg_ClaimIdle cfg) now d"
    and run': "run_worker G cfg (q1, t1) (recover_ticks nows @ consume_ticks nows') = (q2, t2)"
  shows "g_entries G q2 = [] \<and> (\<forall>m \<in> M. stored_row t2 m)"
proof -
  note ax = draining_stream.axioms(1) [OF recovering_stream.axioms(1) [OF G]]
  have inj: "inj_on msg_ID M" using dist by (auto simp: M distinct_map inj_on_Un)
  have tr: "recovering_stream.tracked G fresh pending q1"
    using recovering_stream.run_tracked [OF G, of "(q, t)" cfg ticks] track run
    by (simp add: recovering_stream.tracked_def [OF G])
  have id: "\<forall>now \<in> set nows. recovering_stream.all_idle pending q1 (cfg_ClaimIdle cfg) now"
    using recovering_stream.run_times [OF G, of cfg "(q, t)" ticks] idle run
    by (fastforce simp: recovering_stream.all_idle_def [OF G] recovering_stream.delivery_times_def [OF G] idle_by_def)
  have dist1: "distinct (map msg_ID (g_entries G q1))" using approval_stream.run_distinct [OF ax, of "(q, t)" ticks cfg] dist run by simp
  have safe: "safe G M (set (g_entries G q) \<union> set (produced ticks)) (q1, t1)"
    using approval_stream.run_safe [OF ax, of M "set (g_entries G q)" "(q, t)" ticks cfg] t inj run by (simp add: safe_def M)
  have empty: "g_entries G q2 = []"
    using recovering_stream.catch_up [OF G, of "(q1, t1)" cfg nows nows'] tr dist1 dec safe batch id run' by (auto simp: safe_def)
  moreover have "safe G M M (q2, t2)"
    using approval_stream.run_safe [OF ax safe inj, of "recover_ticks nows @ consume_ticks nows'" cfg] run'
    by (simp add: M produced_append)
  ultimately show ?thesis by (simp add: safe_def)
qed

text \<open>
  C4. The history catches up. On every stream with the documented consumer group, after any
  approvals and any failures of any calls, including lost replies and workers that stopped
  between a delivery and its acknowledgement, and when every message can be decoded: recoveries
  and then reads that succeed, each at least as many as the stream has batches, empty the
  stream, and every approval that was ever in it has exactly its row in the table, however
  often it was delivered. The recoveries come when every delivery before them is longer ago than
  \<open>ClaimIdle\<close> and a millisecond (\<open>idle_by\<close>), since \<open>XAUTOCLAIM\<close> leaves younger deliveries alone.
\<close>

theorem history_catches_up:
  assumes "recovering_stream G fresh pending claimable"
    and "set (g_entries G q) \<subseteq> set (fresh q) \<union> fst ` set (pending q)"
    and "M = set (g_entries G q) \<union> set (produced ticks)"
    and "distinct (map msg_ID (g_entries G q @ produced ticks))"
    and "faithful M t" and "\<forall>m \<in> M. \<exists>p. approvalRequest m = Ok p"
    and "run_worker G cfg (q, t) ticks = (q1, t1)"
    and "0 < cfg_BatchSize cfg" and "length (g_entries G q1) \<le> length nows * nat (cfg_BatchSize cfg)"
    and "length (g_entries G q1) \<le> length nows' * nat (cfg_BatchSize cfg)"
    and "\<forall>now \<in> set nows. \<forall>d \<in> snd ` set (pending q) \<union> set (tick_times ticks). idle_by (cfg_ClaimIdle cfg) now d"
    and "run_worker G cfg (q1, t1) (recover_ticks nows @ consume_ticks nows') = (q2, t2)"
  shows "g_entries G q2 = [] \<and> (\<forall>m \<in> M. stored_row t2 m)"
  using assms by (rule history_catches_up_aux)

text \<open>The commit is lost, then the reply of a read; a recovery two seconds later and a read complete the history.\<close>

theorem history_catches_up_witness:
  "\<exists>q1 t1 q2 t2. run_worker mem_group_ops ex_config (ex_group, Map.empty)
       [Produce (ex_message ''1-0''), Consume 1000 Replied (no_faults\<lparr>f_commit := Lost ''timeout''\<rparr>),
        Produce (ex_message ''2-0''), Consume 1500 (ReplyDropped ''timeout'') no_faults, Produce (ex_message ''3-0'')] = (q1, t1) \<and>
     run_worker mem_group_ops ex_config (q1, t1) (recover_ticks [3500] @ consume_ticks [3600]) = (q2, t2) \<and>
     mem_entries q2 = [] \<and> stored_row t2 (ex_message ''1-0'') \<and> stored_row t2 (ex_message ''2-0'') \<and> stored_row t2 (ex_message ''3-0'')"
proof -
  let ?ticks = "[Produce (ex_message ''1-0''), Consume 1000 Replied (no_faults\<lparr>f_commit := Lost ''timeout''\<rparr>),
        Produce (ex_message ''2-0''), Consume 1500 (ReplyDropped ''timeout'') no_faults, Produce (ex_message ''3-0'')]"
  let ?M = "{ex_message ''1-0'', ex_message ''2-0'', ex_message ''3-0''}"
  obtain q1 t1 where r1: "run_worker mem_group_ops ex_config (ex_group, Map.empty) ?ticks = (q1, t1)" by force
  obtain q2 t2 where r2: "run_worker mem_group_ops ex_config (q1, t1) (recover_ticks [3500] @ consume_ticks [3600]) = (q2, t2)"
    by force
  have e: "mem_entries ex_group = []" "mg_pending ex_group = []" by (simp_all add: ex_group_def mem_entries_def)
  have "length (g_entries mem_group_ops q1) \<le> 3"
    using mem_group.run_length [of ex_config "(ex_group, Map.empty)" ?ticks] r1 by (simp add: mem_group_ops_def e)
  then have "g_entries mem_group_ops q2 = [] \<and> (\<forall>m \<in> ?M. stored_row t2 m)"
    by (intro history_catches_up [OF mem_recovery.recovering_stream_axioms _ _ _ _ _ r1 _ _ _ _ r2])
      (auto simp: mem_group_ops_def e ex_message_facts faithful_def ex_config_def idle_by_def Second_def Millisecond_def)
  then show ?thesis using r1 r2 by (auto simp: mem_group_ops_def)
qed

section \<open>Starvation by one message\<close>

context recovering_stream
begin

text \<open>
  \<open>B\<close> leads the pending messages, delivered together, and none of it has a row. Such a batch is
  claimed as a whole or not at all.
\<close>

definition stuck :: "XMessage list \<Rightarrow> 'q \<times> approvals \<Rightarrow> bool" where
  "stuck B s \<longleftrightarrow> (\<exists>d rest. pending (fst s) = map (\<lambda>m. (m, d)) B @ rest) \<and> (\<forall>m \<in> set B. snd s (msg_ID m) = None)"

lemma persist_stuck:
  assumes "stuck B s" "msg_ID ` set B \<inter> msg_ID ` set ms = {}"
  shows "stuck B (fst (persistMessages G f s ms))"
proof -
  obtain d rest where p: "pending (fst s) = map (\<lambda>m. (m, d)) B @ rest" using assms(1) by (auto simp: stuck_def)
  have "filter (\<lambda>p. msg_ID (fst p) \<notin> msg_ID ` set ms) (map (\<lambda>m. (m, d)) B) = map (\<lambda>m. (m, d)) B"
    using assms(2) by (auto simp: filter_id_conv)
  then have "\<exists>rest'. pending (g_remove G (fst s) (map msg_ID ms)) = map (\<lambda>m. (m, d)) B @ rest'"
    by (simp add: pending_remove p)
  moreover have "fst (fst (persistMessages G f s ms)) \<in> {fst s, g_remove G (fst s) (map msg_ID ms)}"
    by (auto simp: persistMessages_def Let_def split: sum.splits option.splits outcome.splits)
  moreover have "snd (fst (persistMessages G f s ms)) (msg_ID m) = None" if "m \<in> set B" for m
    using assms that persist_dom [of f s ms] by (fastforce simp: stuck_def domIff)
  ultimately show ?thesis using p by (auto simp: stuck_def)
qed

lemma claim_stuck:
  assumes st: "stuck B (q, t)" and B: "length B \<le> nat n" and dist: "distinct (map msg_ID (g_entries G q))"
  shows "stuck B (fst (g_claim G q now d n), t) \<and>
    (set B \<subseteq> set (snd (g_claim G q now d n)) \<or> msg_ID ` set B \<inter> msg_ID ` set (snd (g_claim G q now d n)) = {})"
proof -
  let ?c = "g_claim G q now d n" and ?ok = "\<lambda>p. claimable d (now - snd p)"
  obtain d0 rest where p: "pending q = map (\<lambda>m. (m, d0)) B @ rest" using st by (auto simp: stuck_def)
  have take: "take (10 * nat n) (pending q) = map (\<lambda>m. (m, d0)) B @ take (10 * nat n - length B) rest"
    using B by (simp add: p)
  show ?thesis
  proof (cases "claimable d (now - d0)")
    case True
    then have "filter ?ok (map (\<lambda>m. (m, d0)) B) = map (\<lambda>m. (m, d0)) B" by (auto simp: filter_id_conv)
    then have sub: "set B \<subseteq> set (snd ?c)" using B by (simp add: claim_pending take o_def)
    then have "map (\<lambda>p. if fst p \<in> set (snd ?c) then (fst p, now) else p) (map (\<lambda>m. (m, d0)) B) = map (\<lambda>m. (m, now)) B"
      by auto
    then have "\<exists>rest'. pending (fst ?c) = map (\<lambda>m. (m, now)) B @ rest'" unfolding pending_claim p map_append by blast
    then show ?thesis using st sub by (auto simp: stuck_def)
  next
    case False
    then have "filter ?ok (map (\<lambda>m. (m, d0)) B) = []" by (auto simp: filter_empty_conv)
    then have c: "set (snd ?c) \<subseteq> fst ` set rest" by (auto simp: claim_pending take dest!: in_set_takeD)
    have "distinct (map msg_ID B @ map (msg_ID \<circ> fst) rest)" using pending_distinct [OF dist] by (simp add: p o_def)
    then have dj: "msg_ID ` set B \<inter> msg_ID ` set (snd ?c) = {}" using c by auto
    then have "map (\<lambda>p. if fst p \<in> set (snd ?c) then (fst p, now) else p) (map (\<lambda>m. (m, d0)) B) = map (\<lambda>m. (m, d0)) B"
      by auto
    then have "\<exists>rest'. pending (fst ?c) = map (\<lambda>m. (m, d0)) B @ rest'" unfolding pending_claim p map_append by blast
    then show ?thesis using st dj by (auto simp: stuck_def)
  qed
qed

lemma recover_stuck:
  assumes st: "stuck B s" and B: "length B \<le> nat (cfg_BatchSize cfg)" "m \<in> set B" "approvalRequest m = Err e"
    and dist: "distinct (map msg_ID (g_entries G (fst s)))"
  shows "stuck B (fst (RecoverPending G cfg now reply f s))"
proof -
  let ?c = "g_claim G (fst s) now (cfg_ClaimIdle cfg) (cfg_BatchSize cfg)"
  note c = claim_stuck [of B "fst s" "snd s" "cfg_BatchSize cfg" now "cfg_ClaimIdle cfg"]
  have c1: "stuck B (fst ?c, snd s)"
    and c2: "set B \<subseteq> set (snd ?c) \<or> msg_ID ` set B \<inter> msg_ID ` set (snd ?c) = {}" using c st B(1) dist by auto
  from c2 have "stuck B (fst (RecoverPending G cfg now Replied f s))"
  proof
    assume "set B \<subseteq> set (snd ?c)"
    then show ?thesis using poison_recover [OF _ B(3), of "fst s" now cfg f "snd s"] B(2) c1 by fastforce
  next
    assume "msg_ID ` set B \<inter> msg_ID ` set (snd ?c) = {}"
    from persist_stuck [OF c1 this, of f] show ?thesis
      using c1 by (auto simp: RecoverPending_def split_def Let_def split: sum.splits)
  qed
  then show ?thesis using st c1 by (cases reply) (simp_all add: RecoverPending_def split_def Let_def)
qed

lemma consume_stuck:
  assumes st: "stuck B s" and dist: "distinct (map msg_ID (g_entries G (fst s)))"
  shows "stuck B (fst (ConsumeNew G cfg now reply f s))"
proof -
  let ?r = "g_read G (fst s) now (cfg_BatchSize cfg)"
  obtain d rest where p: "pending (fst s) = map (\<lambda>m. (m, d)) B @ rest" using st by (auto simp: stuck_def)
  have r1: "stuck B (fst ?r, snd s)" using st by (auto simp: stuck_def pending_read)
  have "msg_ID ` set B \<inter> msg_ID ` set (snd ?r) = {}"
    using pending_fresh [OF dist] by (auto simp: p read_fresh dest!: in_set_takeD)
  from persist_stuck [OF r1 this, of f] show ?thesis
    using st r1 by (cases reply) (auto simp: ConsumeNew_def split_def Let_def split: sum.splits)
qed

lemma step_stuck:
  assumes "stuck B s" "length B \<le> nat (cfg_BatchSize cfg)" "m \<in> set B" "approvalRequest m = Err e"
    and "distinct (map msg_ID (g_entries G (fst s)))"
  shows "stuck B (worker_step G cfg s tick)"
proof (cases tick)
  case (Produce m)
  then show ?thesis using assms(1) by (simp add: worker_step_def stuck_def add_pending)
next
  case (Ensure reply)
  then show ?thesis
    using assms(1) by (auto simp: worker_step_def stuck_def EnsureGroup_def create_pending split_def Let_def split: fetch.splits)
qed (use assms in \<open>simp_all add: worker_step_def consume_stuck recover_stuck\<close>)

lemma run_stuck:
  assumes "stuck B s" "length B \<le> nat (cfg_BatchSize cfg)" "m \<in> set B" "approvalRequest m = Err e"
    and "distinct (map msg_ID (g_entries G (fst s) @ produced ticks))"
  shows "stuck B (run_worker G cfg s ticks)"
  using assms
proof (induction ticks arbitrary: s)
  case (Cons tick ticks)
  have "stuck B (worker_step G cfg s tick)" using Cons.prems by (intro step_stuck) auto
  from Cons.IH [OF this Cons.prems(2-4) step_distinct [OF Cons.prems(5)]] show ?case by (simp add: run_worker_def)
qed (simp add: run_worker_def)

end

text \<open>
  C20. One message that cannot be decoded starves the messages delivered with it. On every
  stream with the documented consumer group, let a batch of at most \<open>BatchSize\<close> messages delivered
  together lead the pending messages, one of them undecodable and none with a row. Then
  after any approvals, reads and recoveries at any times with any failures of any calls, the whole
  batch is still in the stream and still leads the pending messages, and none of its messages
  has a row, although the others could be stored: claims take it as a whole or not at all.
\<close>

theorem poison_starves_batch:
  assumes "recovering_stream G fresh pending claimable"
    and "pending q = map (\<lambda>m. (m, d)) B @ rest" and "length B \<le> nat (cfg_BatchSize cfg)"
    and "m \<in> set B" and "approvalRequest m = Err e" and "\<forall>m \<in> set B. t (msg_ID m) = None"
    and "distinct (map msg_ID (g_entries G q @ produced ticks))"
    and "run_worker G cfg (q, t) ticks = (q', t')"
  shows "(\<exists>d' rest'. pending q' = map (\<lambda>m. (m, d')) B @ rest') \<and>
    (\<forall>m \<in> set B. m \<in> set (g_entries G q') \<and> t' (msg_ID m) = None)"
proof -
  note stuck = recovering_stream.stuck_def [OF assms(1)]
  have "recovering_stream.stuck pending B (q, t)" using assms(2,6) by (auto simp: stuck)
  from recovering_stream.run_stuck [OF assms(1) this assms(3-5), of ticks] assms(7,8)
  have "(\<exists>d' rest'. pending q' = map (\<lambda>m. (m, d')) B @ rest')" "\<forall>m \<in> set B. t' (msg_ID m) = None"
    by (simp_all add: stuck)
  then show ?thesis using recovering_stream.pending_entries [OF assms(1), of q'] by force
qed

text \<open>The bad message and its companion, recovered twice; a third message delivered later is stored meanwhile.\<close>

theorem poison_starves_batch_witness:
  "\<exists>q' t'. run_worker mem_group_ops ex_config
       (\<lparr>mg_group = True, mg_pending = [(ex_poison, 1000), (ex_message ''2-0'', 1000)], mg_fresh = []\<rparr>, Map.empty)
       [Recover 3000 Replied no_faults, Produce (ex_message ''3-0''), Consume 3500 Replied no_faults,
        Recover 5000 Replied no_faults] = (q', t') \<and>
     ex_message ''2-0'' \<in> set (mem_entries q') \<and> t' ''2-0'' = None"
proof -
  let ?q = "\<lparr>mg_group = True, mg_pending = [(ex_poison, 1000), (ex_message ''2-0'', 1000)], mg_fresh = []\<rparr>"
  let ?ticks = "[Recover 3000 Replied no_faults, Produce (ex_message ''3-0''), Consume 3500 Replied no_faults,
        Recover 5000 Replied no_faults]"
  let ?B = "[ex_poison, ex_message ''2-0'']"
  obtain q' t' where run: "run_worker mem_group_ops ex_config (?q, Map.empty) ?ticks = (q', t')" by force
  have "(\<exists>d' rest'. mg_pending q' = map (\<lambda>m. (m, d')) ?B @ rest') \<and>
      (\<forall>m \<in> set ?B. m \<in> set (g_entries mem_group_ops q') \<and> t' (msg_ID m) = None)"
    by (rule poison_starves_batch [OF mem_recovery.recovering_stream_axioms _ _ _ ex_poison_facts(2) _ _ run, of 1000 ?B "[]"])
      (simp_all add: ex_config_def ex_poison_facts ex_message_facts mem_group_ops_def mem_entries_def)
  then show ?thesis using run by (auto simp: ex_message_facts mem_group_ops_def)
qed

end
