(* ===== verification/Pipeline.thy ===== *)
theory Pipeline
  imports RedisQuota Analytics Worker Recovery
begin

text \<open>
  The parts together: from a decision on the shared server through its event, the worker
  and the table to the report, and from the HTTP request through the circuit breaker to the
  server.
\<close>

context redis_limiter
begin

lemma rtb_limiter: "limiter (Redis_Allow R l net) (redis_ok R l) (\<lambda>_. rtb_pol l)"
  by (rule rtb.limiter_axioms)

end

section \<open>From the event to the row\<close>

text \<open>A stream entry as the consumer receives it.\<close>

definition message_of :: "string \<Rightarrow> stream_entry \<Rightarrow> XMessage" where
  "message_of sid entry = \<lparr>msg_ID = sid, msg_Values = map_of entry\<rparr>"

lemma message_of_event:
  "message_of sid (event_fields k n at_ms m) = event_message sid (ClientID k) (Resource k) n at_ms m"
  by (auto simp: message_of_def event_fields_def event_message_def fun_eq_iff)

lemma msg_ID_message_of [simp]: "msg_ID (message_of sid entry) = sid"
  by (simp add: message_of_def)

lemma time_ok_range: "time_ok t \<Longrightarrow> 0 \<le> unix_ms t \<and> unix_ms t \<le> max_int64"
  by (auto simp: time_ok_def unix_ms_def max_int64_def pos_imp_zdiv_nonneg_iff)

context redis_limiter
begin

lemma approval_facts:
  assumes ok: "redis_ok R l r" and d: "snd (Redis_Allow R l net r c t k n) = Ok d"
  obtains p where "map_of (rtb_policies l) k = Some p" "0 < n" "n \<le> Limit p" "0 \<le> Remaining d" "Remaining d \<le> Limit p"
    "in64 (Limit p)"
proof -
  obtain p where p: "rtb_pol l k = Some p" "0 < n" "n \<le> Limit p" using Allow_result_Ok [OF d] by auto
  have "decision_ok p n d" using rtb.allow_decision [OF ok p(1) d] .
  moreover have "in64 (Limit p)" using rtb_ok_policy(1) [OF l_ok p(1)] by (simp add: policy_ok_def)
  ultimately show ?thesis using that [of p] p by (auto simp: decision_ok_def rtb_pol_def)
qed

end

text \<open>
  C15. An approval is recorded as it was decided. The event that an approval appends, read by
  the worker under any stream id, decodes to the client, the resource, the cost, the server's
  time and the remaining capacity of that approval. When the cost or the remaining capacity
  does not fit the 32-bit columns, which the limiter allows, the event cannot be decoded.
\<close>

theorem event_roundtrip:
  assumes "redis_server R" and "rtb_ok l" and "redis_ok R l r" and "time_ok t"
    and "ClientID k \<noteq> []" and "Resource k \<noteq> []"
    and "Redis_Allow R l net r c t k n = (r', Ok d)" and "Allowed d"
  shows "\<exists>e. r_stream R r' (eventStream l) = r_stream R r (eventStream l) @ [e] \<and>
    approvalRequest (message_of sid e) =
      (if n > max_int32 then Err (ErrCostRange sid)
       else if Remaining d > max_int32 then Err (ErrRemainingRange sid)
       else Ok \<lparr>par_StreamID = sid, par_ClientID = ClientID k, par_Resource = Resource k, par_Cost = n,
                par_ApprovedAt = time_UnixMilli (unix_ms t), par_Remaining = Remaining d\<rparr>)"
proof -
  note rl = redis_limiterI [OF assms(1,2)]
  obtain p where "map_of (rtb_policies l) k = Some p"
    and p: "0 < n" "n \<le> Limit p" "0 \<le> Remaining d" "Remaining d \<le> Limit p" "in64 (Limit p)"
    by (rule redis_limiter.approval_facts [OF rl assms(3) arg_cong [OF assms(7), of snd, unfolded snd_conv]])
  have r: "n \<le> max_int64" "Remaining d \<le> max_int64" using p by (auto simp: in64_def)
  have e: "r_stream R r' (eventStream l) = r_stream R r (eventStream l) @ [event_fields k n (unix_ms t) (Remaining d)]"
    using redis_limiter.Allow_event [OF rl assms(3,4,7)] assms(8) by simp
  have "approvalRequest (message_of sid (event_fields k n (unix_ms t) (Remaining d))) =
      (if n > max_int32 then Err (ErrCostRange sid)
       else if Remaining d > max_int32 then Err (ErrRemainingRange sid)
       else Ok \<lparr>par_StreamID = sid, par_ClientID = ClientID k, par_Resource = Resource k, par_Cost = n,
                par_ApprovedAt = time_UnixMilli (unix_ms t), par_Remaining = Remaining d\<rparr>)"
    unfolding message_of_event using assms(5,6) p(1,3) r time_ok_range [OF assms(4)]
    by (intro approvalRequest_event) auto
  with e show ?thesis by blast
qed

lemma ex_rtb_approves:
  "\<exists>r' d. Redis_Allow mem_ops ex_rtb Delivered ex_redis None unix_epoch ex_key 3 = (r', Ok d) \<and> Allowed d \<and> Remaining d = 7"
proof -
  obtain r' res where a: "Redis_Allow mem_ops ex_rtb Delivered ex_redis None unix_epoch ex_key 3 = (r', res)" by force
  let ?p = "\<lparr>Limit = 10, Window = 60 * 10 ^ 9\<rparr>"
  have m: "rtb_pol ex_rtb ex_key = Some ?p" "maxBacklog ex_rtb \<le> 2 ^ 53" "maxBacklog ex_rtb = 2"
    by (simp_all add: rtb_pol_def ex_rtb_def ex_policies_def)
  have "fsub 10 3 = (7 :: rat)" by (simp add: fsub_def float_simps)
  moreover have "r_stream mem_ops ex_redis (eventStream ex_rtb) = []" by (simp add: mem_ops_def mem_stream_def ex_redis_def)
  ultimately show ?thesis
    using mem_rtb.Allow_branches [OF ex_redis_ok m(2,1) _ _ a ex_available [symmetric] refl] m(3) a by auto
qed

theorem event_roundtrip_witness:
  "\<exists>r' e. mem_stream r' (eventStream ex_rtb) = [e] \<and>
     approvalRequest (message_of ''1-0'' e) = Ok \<lparr>par_StreamID = ''1-0'', par_ClientID = ''client-a'', par_Resource = ''openai'',
       par_Cost = 3, par_ApprovedAt = unix_epoch, par_Remaining = 7\<rparr>"
proof -
  obtain r' d where a: "Redis_Allow mem_ops ex_rtb Delivered ex_redis None unix_epoch ex_key 3 = (r', Ok d)" "Allowed d" "Remaining d = 7"
    using ex_rtb_approves by blast
  have t: "time_ok unix_epoch" "unix_ms unix_epoch = 0" by (simp_all add: time_ok_def unix_ms_def unix_us_def)
  have s: "mem_stream ex_redis (eventStream ex_rtb) = []" "r_stream mem_ops = mem_stream"
    by (simp_all add: mem_ops_def mem_stream_def ex_redis_def)
  show ?thesis
    using event_roundtrip [OF mem.redis_server_axioms ex_rtb_ok ex_redis_ok t(1) _ _ a(1,2), of "''1-0''"]
    by (auto simp: s t(2) ex_key_def a(3) max_int32_def time_UnixMilli_def)
qed

section \<open>From the decisions to the bill\<close>

text \<open>The events and the rows of the approvals of a run.\<close>

fun approved_events :: "request list \<Rightarrow> (limiter_error, Decision) result list \<Rightarrow> stream_entry list" where
  "approved_events (q # qs) (Inr d # rs) =
     (if Allowed d then [event_fields (q_key q) (q_cost q) (unix_ms (q_now q)) (Remaining d)] else []) @ approved_events qs rs"
| "approved_events (q # qs) (Inl e # rs) = approved_events qs rs"
| "approved_events _ _ = []"

fun approved_rows :: "request list \<Rightarrow> (limiter_error, Decision) result list \<Rightarrow> ApprovedRequest list" where
  "approved_rows (q # qs) (Inr d # rs) =
     (if Allowed d then [\<lparr>row_ClientID = ClientID (q_key q), row_Resource = Resource (q_key q), row_Cost = q_cost q,
        row_ApprovedAt = time_UnixMilli (unix_ms (q_now q)), row_Remaining = Remaining d\<rparr>] else []) @ approved_rows qs rs"
| "approved_rows (q # qs) (Inl e # rs) = approved_rows qs rs"
| "approved_rows _ _ = []"

lemma approved_rows_cost:
  assumes "length qs = length rs" "ClientID k \<noteq> []" "Resource k \<noteq> []"
  shows "su_TotalCost (GetApprovalSummary db now \<lparr>pa_Days = days, pa_ClientID = ClientID k, pa_Resource = Resource k\<rparr>
      (approved_rows qs rs)) =
    approved_cost (\<lambda>t. days_before db now days \<le> time_UnixMilli (unix_ms t)) k qs rs"
  using assms
proof (induction qs rs rule: approved_rows.induct)
  case (1 q qs d rs)
  have "q_key q = k \<longleftrightarrow> ClientID (q_key q) = ClientID k \<and> Resource (q_key q) = Resource k" by auto
  then show ?case using 1 by (auto simp: GetApprovalSummary_def selected_def Let_def)
qed (auto simp: GetApprovalSummary_def)

text \<open>What holds of each event: it decodes to its row.\<close>

definition decodes :: "stream_entry \<Rightarrow> ApprovedRequest \<Rightarrow> bool" where
  "decodes e row \<longleftrightarrow> (\<forall>sid. \<exists>p. approvalRequest (message_of sid e) = Ok p \<and> row_of p = row)"

context redis_limiter
begin

lemma call_event:
  assumes ok: "redis_ok R l r" and a: "Redis_Allow R l net r c t k n = (r', res)" and t: "time_ok t"
    and net: "\<forall>e. net \<noteq> ReplyLost e"
    and pol: "\<forall>(k, p) \<in> set (rtb_policies l). Limit p \<le> max_int32 \<and> ClientID k \<noteq> [] \<and> Resource k \<noteq> []"
    and q: "q = \<lparr>q_ctx = c, q_now = t, q_key = k, q_cost = n\<rparr>"
  shows "r_stream R r' (eventStream l) = r_stream R r (eventStream l) @ approved_events [q] [res]"
    and "list_all2 decodes (approved_events [q] [res]) (approved_rows [q] [res])"
proof -
  show "r_stream R r' (eventStream l) = r_stream R r (eventStream l) @ approved_events [q] [res]"
    using Allow_event [OF ok t a] net q by (cases res) auto
  show "list_all2 decodes (approved_events [q] [res]) (approved_rows [q] [res])"
  proof (cases "approved res")
    case False
    then show ?thesis by (cases res) auto
  next
    case True
    then obtain d where d: "res = Ok d" "Allowed d" by (cases res) auto
    obtain p where p: "map_of (rtb_policies l) k = Some p" "0 < n" "n \<le> Limit p" "0 \<le> Remaining d" "Remaining d \<le> Limit p"
      using approval_facts [OF ok arg_cong [OF a, of snd, unfolded snd_conv d(1)]] by blast
    have k: "Limit p \<le> max_int32" "ClientID k \<noteq> []" "Resource k \<noteq> []" using pol map_of_SomeD [OF p(1)] by auto
    have r: "n \<le> max_int32" "Remaining d \<le> max_int32" using p(3,5) k(1) by auto
    then have r64: "n \<le> max_int64" "Remaining d \<le> max_int64" by (auto simp: max_int32_def max_int64_def)
    have "approvalRequest (message_of sid (event_fields k n (unix_ms t) (Remaining d))) =
        Ok \<lparr>par_StreamID = sid, par_ClientID = ClientID k, par_Resource = Resource k, par_Cost = n,
            par_ApprovedAt = time_UnixMilli (unix_ms t), par_Remaining = Remaining d\<rparr>" for sid
      unfolding message_of_event using k p(2,4) r r64 time_ok_range [OF t]
      by (subst approvalRequest_event) auto
    then show ?thesis using d q by (simp add: decodes_def row_of_def)
  qed
qed

lemma approved_append:
  "approved_events (q # qs) (r # rs) = approved_events [q] [r] @ approved_events qs rs"
  "approved_rows (q # qs) (r # rs) = approved_rows [q] [r] @ approved_rows qs rs"
  by (cases r; simp)+

lemma run_events:
  assumes "redis_ok R l r" "run_redis R l r qs = (r', rs)"
    and "\<forall>(q, net) \<in> set qs. time_ok (q_now q) \<and> (\<forall>e. net \<noteq> ReplyLost e)"
    and "\<forall>(k, p) \<in> set (rtb_policies l). Limit p \<le> max_int32 \<and> ClientID k \<noteq> [] \<and> Resource k \<noteq> []"
  shows "r_stream R r' (eventStream l) = r_stream R r (eventStream l) @ approved_events (map fst qs) rs \<and>
    list_all2 decodes (approved_events (map fst qs) rs) (approved_rows (map fst qs) rs) \<and> length rs = length qs"
  using assms
proof (induction qs arbitrary: r rs)
  case (Cons x qs)
  obtain q net where x: "x = (q, net)" by force
  obtain r1 res where a: "Redis_Allow R l net r (q_ctx q) (q_now q) (q_key q) (q_cost q) = (r1, res)" by force
  obtain rs1 where run: "run_redis R l r1 qs = (r', rs1)" and rs: "rs = res # rs1"
    using Cons.prems(2) x a by (auto simp: Let_def prod_eq_iff)
  have q: "q = \<lparr>q_ctx = q_ctx q, q_now = q_now q, q_key = q_key q, q_cost = q_cost q\<rparr>" by simp
  have "redis_ok R l r1" using Allow_ok [OF Cons.prems(1), of net "q_ctx q" "q_now q" "q_key q" "q_cost q"] a by simp
  note IH = Cons.IH [OF this run _ Cons.prems(4)]
  have t: "time_ok (q_now q)" "\<forall>e. net \<noteq> ReplyLost e" using Cons.prems(3) x by auto
  note ev = call_event [OF Cons.prems(1) a t Cons.prems(4) q]
  have "\<forall>(q, net) \<in> set qs. time_ok (q_now q) \<and> (\<forall>e. net \<noteq> ReplyLost e)" using Cons.prems(3) by simp
  note IH = IH [OF this]
  have eqs: "approved_events (map fst (x # qs)) rs = approved_events [q] [res] @ approved_events (map fst qs) rs1"
    "approved_rows (map fst (x # qs)) rs = approved_rows [q] [res] @ approved_rows (map fst qs) rs1"
    unfolding rs x list.map fst_conv by (rule approved_append)+
  show ?case
    unfolding eqs using IH ev rs by (simp add: list_all2_appendI)
qed simp

end

text \<open>The worker adds no rows but those of the messages of the stream.\<close>

context approval_stream
begin

lemma persist_entries: "set (g_entries G (fst (fst (persistMessages G f s ms)))) \<subseteq> set (g_entries G (fst s))"
  by (auto simp: persistMessages_def remove_entries Let_def split: sum.splits option.splits outcome.splits)

definition ids_within :: "string set \<Rightarrow> 'q \<times> approvals \<Rightarrow> bool" where
  "ids_within D s \<longleftrightarrow> dom (snd s) \<subseteq> D \<and> msg_ID ` set (g_entries G (fst s)) \<subseteq> D"

lemma persist_within:
  "ids_within D s \<Longrightarrow> set ms \<subseteq> set (g_entries G (fst s)) \<Longrightarrow> ids_within D (fst (persistMessages G f s ms))"
  using persist_dom [of f s ms] persist_entries [of f s ms] unfolding ids_within_def
  by (meson Un_least image_mono order_trans)

lemma consume_within: "ids_within D s \<Longrightarrow> ids_within D (fst (ConsumeNew G cfg now reply f s))"
proof -
  assume w: "ids_within D s"
  let ?r = "g_read G (fst s) now (cfg_BatchSize cfg)"
  have w1: "ids_within D (fst ?r, snd s)" using w by (simp add: ids_within_def read_entries)
  have "set (snd ?r) \<subseteq> set (g_entries G (fst (fst ?r, snd s)))" using read_messages by (simp add: read_entries)
  from persist_within [OF w1 this] show ?thesis
    using w w1 by (auto simp: ConsumeNew_def Let_def split_def split: fetch.splits sum.splits)
qed

lemma recover_within: "ids_within D s \<Longrightarrow> ids_within D (fst (RecoverPending G cfg now reply f s))"
proof -
  assume w: "ids_within D s"
  let ?c = "g_claim G (fst s) now (cfg_ClaimIdle cfg) (cfg_BatchSize cfg)"
  have w1: "ids_within D (fst ?c, snd s)" using w by (simp add: ids_within_def claim_entries)
  have "set (snd ?c) \<subseteq> set (g_entries G (fst (fst ?c, snd s)))" using claim_messages by (simp add: claim_entries)
  from persist_within [OF w1 this] show ?thesis
    using w w1 by (auto simp: RecoverPending_def Let_def split_def split: fetch.splits sum.splits)
qed

lemma run_within: "ids_within D s \<Longrightarrow> produced ticks = [] \<Longrightarrow> ids_within D (run_worker G cfg s ticks)"
proof (induction ticks arbitrary: s)
  case (Cons tick ticks)
  have "ids_within D (worker_step G cfg s tick)"
  proof (cases tick)
    case (Ensure reply)
    then show ?thesis
      using Cons.prems(1)
      by (auto simp: worker_step_def ids_within_def EnsureGroup_def create_entries split_def Let_def split: fetch.splits)
  qed (use Cons.prems in \<open>auto simp: worker_step_def consume_within recover_within\<close>)
  moreover have "produced ticks = []" using Cons.prems(2) by (cases tick) auto
  ultimately show ?case using Cons.IH by (simp add: run_worker_def)
qed (simp add: run_worker_def)

end

lemma list_all2_map2:
  assumes "list_all2 decodes es rows" "length ids = length es" "i < length ids"
  shows "approvalRequest (map2 message_of ids es ! i) \<noteq> Err e"
    and "stored_row t (map2 message_of ids es ! i) \<Longrightarrow> t (ids ! i) = Some (rows ! i)"
proof -
  have m: "map2 message_of ids es ! i = message_of (ids ! i) (es ! i)" using assms(2,3) by simp
  obtain p where p: "approvalRequest (message_of (ids ! i) (es ! i)) = Ok p" "row_of p = rows ! i"
    using assms list_all2_nthD [OF assms(1), of i] by (auto simp: decodes_def)
  then show "approvalRequest (map2 message_of ids es ! i) \<noteq> Err e" by (simp add: m)
  show "stored_row t (map2 message_of ids es ! i) \<Longrightarrow> t (ids ! i) = Some (rows ! i)"
    unfolding m using p by (simp add: stored_row_def)
qed

text \<open>
  C3. The bill is exact. Requests are decided on the shared server, starting with an empty
  stream and without a reply lost after the script ran (such a request is billed, though it was
  not answered as approved), under policies whose limits fit the table's columns; their
  events, under distinct stream ids and not yet delivered, are processed by workers with any failures of any calls,
  until as many recoveries, each longer than \<open>ClaimIdle\<close> and a millisecond after the deliveries
  before them, and as many reads as there are batches succeed. Then the table has exactly one row per event, and for every
  client and resource the total cost that the summary reports is the cost of the requests
  that were answered as approved within the period.
\<close>

theorem billing_exact:
  assumes "redis_server R" and "rtb_ok l" and "redis_ok R l r" and "r_stream R r (eventStream l) = []"
    and "\<forall>(k, p) \<in> set (rtb_policies l). Limit p \<le> max_int32 \<and> ClientID k \<noteq> [] \<and> Resource k \<noteq> []"
    and "\<forall>(q, net) \<in> set qs. time_ok (q_now q) \<and> (\<forall>e. net \<noteq> ReplyLost e)"
    and "run_redis R l r qs = (r', rs)"
    and "length ids = length (r_stream R r' (eventStream l))" and "distinct ids"
    and "recovering_stream G fresh pending claimable" and "fresh q = g_entries G q"
    and "g_entries G q = map2 message_of ids (r_stream R r' (eventStream l))"
    and "0 < cfg_BatchSize cfg" and "length ids \<le> length nows * nat (cfg_BatchSize cfg)"
    and "length ids \<le> length nows' * nat (cfg_BatchSize cfg)" and "produced ticks = []" and "pending q = []"
    and "\<forall>now \<in> set nows. \<forall>d \<in> set (tick_times ticks). idle_by (cfg_ClaimIdle cfg) now d"
    and "run_worker G cfg (q, Map.empty)
      (ticks @ recover_ticks nows @ consume_ticks nows') = (q', t)"
    and "ClientID k \<noteq> []" and "Resource k \<noteq> []"
  shows "dom t = set ids \<and>
    su_TotalCost (GetApprovalSummary db now \<lparr>pa_Days = days, pa_ClientID = ClientID k, pa_Resource = Resource k\<rparr>
        (map (the \<circ> t) ids)) =
      approved_cost (\<lambda>s. days_before db now days \<le> time_UnixMilli (unix_ms s)) k (map fst qs) rs"
proof -
  let ?es = "r_stream R r' (eventStream l)" and ?rows = "approved_rows (map fst qs) rs"
  have ev: "?es = approved_events (map fst qs) rs" "list_all2 decodes ?es ?rows" "length rs = length qs"
    using redis_limiter.run_events [OF redis_limiterI [OF assms(1,2)] assms(3,7,6,5)] assms(4) by auto
  have len: "length ids = length ?es" "length ?rows = length ids" using assms(8) list_all2_lengthD [OF ev(2)] by simp_all
  have idm: "map msg_ID (g_entries G q) = ids" unfolding assms(12) using len(1) by (intro nth_equalityI) auto
  have dec: "\<forall>m \<in> set (g_entries G q). \<exists>p. approvalRequest m = Ok p"
  proof
    fix m assume "m \<in> set (g_entries G q)"
    then obtain i where "i < length ids" "m = map2 message_of ids ?es ! i"
      unfolding assms(12) using len(1) by (auto simp: in_set_conv_nth)
    then show "\<exists>p. approvalRequest m = Ok p"
      using list_all2_map2(1) [OF ev(2) len(1)] by (cases "approvalRequest m") auto
  qed
  have ax: "approval_stream G"
    using assms(10) by (intro draining_stream.axioms(1) recovering_stream.axioms(1))
  obtain q1 t1 where r1: "run_worker G cfg (q, Map.empty) ticks = (q1, t1)" by force
  with assms(19) have r2: "run_worker G cfg (q1, t1) (recover_ticks nows @ consume_ticks nows') = (q', t)"
    by (simp add: run_worker_def)
  have "length (g_entries G q1) \<le> length ids"
    using approval_stream.run_length [OF ax, of cfg "(q, Map.empty)" ticks] r1 assms(16) idm by (metis add_0_right fst_conv length_map list.size(3))
  then have small: "length (g_entries G q1) \<le> length nows * nat (cfg_BatchSize cfg)"
    "length (g_entries G q1) \<le> length nows' * nat (cfg_BatchSize cfg)" using assms(14,15) by simp_all
  have st: "\<forall>m \<in> set (g_entries G q). stored_row t m"
    using history_catches_up_aux [OF assms(10) _ refl _ _ _ r1 assms(13) small _ r2] dec assms(9,11,16,17,18) idm
    by (simp add: faithful_def)
  have row: "t (ids ! i) = Some (?rows ! i)" if "i < length ids" for i
  proof -
    have "map2 message_of ids ?es ! i \<in> set (g_entries G q)" unfolding assms(12) using that len(1) by (intro nth_mem) simp
    then show ?thesis using st list_all2_map2(2) [OF ev(2) len(1) that] by blast
  qed
  have rows: "map (the \<circ> t) ids = ?rows" using len(2) row by (intro nth_equalityI) auto
  have "approval_stream.ids_within G (set ids) (q, Map.empty)"
    using idm by (simp add: approval_stream.ids_within_def [OF ax]) (metis set_map subset_refl)
  from approval_stream.run_within [OF ax this, of "ticks @ recover_ticks nows @ consume_ticks nows'" cfg]
  have "dom t \<subseteq> set ids"
    using assms(16) unfolding assms(19) by (simp add: approval_stream.ids_within_def [OF ax] produced_append)
  moreover have "set ids \<subseteq> dom t" using row by (auto simp: in_set_conv_nth)
  ultimately show ?thesis
    unfolding rows using approved_rows_cost [of "map fst qs" rs k db now days] ev(3) assms(20,21) by simp
qed

lemma ex_run:
  "\<exists>r' d e. run_redis mem_ops ex_rtb ex_redis [(ex_req unix_epoch 3, Delivered)] = (r', [Ok d]) \<and> Allowed d \<and>
     mem_stream r' (eventStream ex_rtb) = [e]"
proof -
  obtain r' d where a: "Redis_Allow mem_ops ex_rtb Delivered ex_redis None unix_epoch ex_key 3 = (r', Ok d)" "Allowed d" "Remaining d = 7"
    using ex_rtb_approves by blast
  have t: "time_ok unix_epoch" by (simp add: time_ok_def unix_ms_def unix_us_def)
  have s: "mem_stream ex_redis (eventStream ex_rtb) = []" "r_stream mem_ops = mem_stream"
    by (simp_all add: mem_ops_def mem_stream_def ex_redis_def)
  have "\<exists>e. mem_stream r' (eventStream ex_rtb) = [e]"
    using mem_rtb.Allow_event [OF ex_redis_ok t a(1)] a(2) by (simp add: s)
  then show ?thesis using a by (simp add: ex_req_def)
qed

theorem billing_exact_witness:
  "\<exists>r' rs q' t. run_redis mem_ops ex_rtb ex_redis [(ex_req unix_epoch 3, Delivered)] = (r', rs) \<and>
     run_worker mem_group_ops ex_config
       (ex_group\<lparr>mg_fresh := map2 message_of [''1-0''] (mem_stream r' (eventStream ex_rtb))\<rparr>, Map.empty)
       ([Consume 1000 Replied (no_faults\<lparr>f_commit := Failed ''down''\<rparr>)] @
        recover_ticks [3000] @ consume_ticks [3100]) = (q', t) \<and>
     su_TotalCost (GetApprovalSummary utc_db unix_epoch \<lparr>pa_Days = 10, pa_ClientID = ''client-a'', pa_Resource = ''openai''\<rparr>
       (map (the \<circ> t) [''1-0''])) = 3"
proof -
  obtain r' d e where run: "run_redis mem_ops ex_rtb ex_redis [(ex_req unix_epoch 3, Delivered)] = (r', [Ok d])" "Allowed d"
    and e: "r_stream mem_ops r' (eventStream ex_rtb) = [e]"
    using ex_run by (auto simp: mem_ops_def)
  let ?q = "ex_group\<lparr>mg_fresh := map2 message_of [''1-0''] (mem_stream r' (eventStream ex_rtb))\<rparr>"
  let ?ticks = "[Consume 1000 Replied (no_faults\<lparr>f_commit := Failed ''down''\<rparr>)]"
  obtain q' t where w: "run_worker mem_group_ops ex_config (?q, Map.empty)
      (?ticks @ recover_ticks [3000] @ consume_ticks [3100]) = (q', t)"
    by force
  have s: "r_stream mem_ops ex_redis (eventStream ex_rtb) = []" "mem_stream = r_stream mem_ops"
    by (simp_all add: mem_ops_def mem_stream_def ex_redis_def)
  have p: "rtb_policies ex_rtb = ex_policies 10 (60 * 10 ^ 9)" by (simp add: ex_rtb_def)
  have u: "unix_ms unix_epoch = 0" "time_ok unix_epoch" by (simp_all add: unix_ms_def unix_us_def time_ok_def)
  have "dom t = set [''1-0''] \<and>
    su_TotalCost (GetApprovalSummary utc_db unix_epoch \<lparr>pa_Days = 10, pa_ClientID = ClientID ex_key, pa_Resource = Resource ex_key\<rparr>
        (map (the \<circ> t) [''1-0''])) =
      approved_cost (\<lambda>s. days_before utc_db unix_epoch 10 \<le> time_UnixMilli (unix_ms s)) ex_key
        (map fst [(ex_req unix_epoch 3, Delivered)]) [Ok d]"
    by (rule billing_exact [OF mem.redis_server_axioms ex_rtb_ok ex_redis_ok s(1) _ _ run(1) _ _
          mem_recovery.recovering_stream_axioms _ _ _ _ _ _ _ _ w])
      (simp_all add: e s(2) p ex_policies_def ex_key_def max_int32_def ex_req_def u ex_config_def mem_group_ops_def
        mem_entries_def ex_group_def idle_by_def Second_def Millisecond_def)
  then show ?thesis
    using run w by (simp add: ex_req_def ex_key_def utc_db_def time_UnixMilli_def u Second_def)
qed

section \<open>From the HTTP request to the server\<close>

text \<open>The limiter the API runs: the shared token bucket behind the circuit breaker.\<close>

definition api_allow ::
  "'r redis_ops \<Rightarrow> RedisTokenBucketRateLimiter \<Rightarrow> link \<Rightarrow> ctx_error option \<Rightarrow> go_time \<Rightarrow> (CircuitBreakerLimiter \<times> 'r) allow_fun" where
  "api_allow R l net late fin = CircuitBreaker_Allow (Redis_Allow R l net) late fin"

interpretation mem_api: decision_source "api_allow mem_ops ex_rtb net late fin"
  "\<lambda>st. redis_ok mem_ops ex_rtb (snd st)" "\<lambda>st. rtb_pol ex_rtb" for net late fin
  unfolding api_allow_def by (rule decision_source.breaker_source [OF mem_rtb.rtb.decision_source_axioms])

lemma breaker_call:
  assumes "CircuitBreaker_Allow allow late fin (b, r) c t k n = ((b', r'), res)"
  obtains (refused) "r' = r" "res = Err (ErrUnavailable None)"
    | (called) inner where "allow r c t k n = (r', inner)"
        "res = inner \<or> (\<exists>e. inner = Err e \<and> res = Err (ErrUnavailable (Some e)))"
  using assms
  by (auto simp: CircuitBreaker_Allow_def finishRequest_def Let_def split: prod.splits sum.splits if_splits)

lemma check_limiter_call:
  assumes "check_request validate allow cfg (\<lambda>_. None) st ctx now body = (st', res, outcome, w)"
  obtains (bad) "st' = st" "sent_status w = Some 400" "\<forall>x. DecisionBody x \<notin> set (w_body w)"
    | (error) p e where "readJSON body = Ok p" "allow st ctx now (payload_key p) (pl_Cost p) = (st', Err e)"
        "sent_status w = Some (decision_status (Err e))" "\<forall>x. DecisionBody x \<notin> set (w_body w)"
    | (decision) p d where "readJSON body = Ok p" "allow st ctx now (payload_key p) (pl_Cost p) = (st', Ok d)"
        "sent_status w = Some (decision_status (Ok d))"
        "w_body w = [DecisionBody \<lparr>cr_Allowed = Allowed d, cr_Limit = DLimit d, cr_Remaining = Remaining d,
           cr_ResetAt = Format_ms (ResetAt d), cr_RetryAfterMS = RetryAfterMS d\<rparr>]"
proof (cases "readJSON body")
  case (Inl err)
  then show ?thesis using assms bad by (auto simp: check_request_def reply_defs)
next
  case (Inr p)
  show ?thesis
  proof (cases "validate p")
    case (Some err)
    then show ?thesis using Inr assms bad by (auto simp: check_request_def reply_defs)
  next
    case None
    obtain st2 r where a: "allow st ctx now (payload_key p) (pl_Cost p) = (st2, r)" by force
    show ?thesis
    proof (cases r)
      case (Inr d)
      with a have a': "allow st ctx now (payload_key p) (pl_Cost p) = (st2, Ok d)" by simp
      show ?thesis
        using check_decision_status [OF \<open>readJSON body = Ok p\<close> None a' assms] \<open>readJSON body = Ok p\<close> a' decision by simp
    next
      case (Inl e)
      with a have a': "allow st ctx now (payload_key p) (pl_Cost p) = (st2, Err e)" by simp
      have "\<forall>x. DecisionBody x \<notin> set (w_body w)"
        using assms \<open>readJSON body = Ok p\<close> None a'
        by (auto simp: check_request_def payload_key_def reply_defs Let_def split: if_splits)
      then show ?thesis
        using check_error_status [OF \<open>readJSON body = Ok p\<close> None a' assms] \<open>readJSON body = Ok p\<close> a' error by simp
    qed
  qed
qed

text \<open>The event of a call through the breaker.\<close>

lemma api_allow_event:
  assumes "redis_server R" and "rtb_ok l" and "redis_ok R l r" and "time_ok t"
    and "api_allow R l net late fin (b, r) c t k n = ((b', r'), res)"
  shows "case res of
      Inr d \<Rightarrow> r_stream R r' (eventStream l) =
        r_stream R r (eventStream l) @ (if Allowed d then [event_fields k n (unix_ms t) (Remaining d)] else [])
    | Inl e \<Rightarrow> r_stream R r' (eventStream l) = r_stream R r (eventStream l) \<or>
        (\<exists>x. net = ReplyLost x) \<and> decision_status (Err e) \<in> {503, 500} \<and>
        length (r_stream R r' (eventStream l)) = length (r_stream R r (eventStream l)) + 1"
proof -
  note event = redis_limiter.Allow_event [OF redis_limiterI [OF assms(1,2)] assms(3,4)]
  from assms(5) [unfolded api_allow_def] show ?thesis
  proof (cases rule: breaker_call)
    case refused
    then show ?thesis by simp
  next
    case (called inner)
    show ?thesis
    proof (cases inner)
      case (Inr d)
      then have "net = Delivered"
        using redis_limiter.Allow_result_Ok [OF redis_limiterI [OF assms(1,2)], of net r c t k n d] called(1) by simp
      then show ?thesis using event [OF called(1)] called(2) Inr by (cases "Allowed d") auto
    next
      case (Inl e)
      show ?thesis
      proof (cases "r_stream R r' (eventStream l) = r_stream R r (eventStream l)")
        case True
        then show ?thesis using called(2) Inl by auto
      next
        case False
        then obtain x where "net = ReplyLost x" "length (r_stream R r' (eventStream l)) = length (r_stream R r (eventStream l)) + 1"
          using event [OF called(1)] Inl by auto
        moreover from this(1) have "inner = Err (ErrRedis x)"
          using called(1) False by (auto simp: Redis_Allow_def run_script_def Let_def split: option.splits if_splits)
        ultimately show ?thesis using called(2) by auto
      qed
    qed
  qed
qed

text \<open>
  C2. Every HTTP 200 has its event, and nothing else has one. On every server with the
  documented commands, an answer 200 means that exactly one event was appended, with the
  client, resource and cost of the request, the server's time and the remaining capacity of
  the answer. After any other answer the stream is unchanged, unless the reply of the
  server was lost after the script ran: then the answer is 503, or 500 for a cancelled
  request, and the approval was spent and recorded.
\<close>

theorem check_end_to_end:
  assumes "redis_server R" and "rtb_ok l" and "redis_ok R l r" and "time_ok t"
    and "check_request validate (api_allow R l net late fin) cfg (\<lambda>_. None) (b, r) c t body = ((b', r'), res, outcome, w)"
  shows "(if sent_status w = Some 200
     then \<exists>p x. readJSON body = Ok p \<and> w_body w = [DecisionBody x] \<and>
       r_stream R r' (eventStream l) = r_stream R r (eventStream l) @
         [event_fields (payload_key p) (pl_Cost p) (unix_ms t) (cr_Remaining x)]
     else r_stream R r' (eventStream l) = r_stream R r (eventStream l) \<or>
       (\<exists>e. net = ReplyLost e) \<and> sent_status w \<in> {Some 503, Some 500} \<and>
       length (r_stream R r' (eventStream l)) = length (r_stream R r (eventStream l)) + 1)"
  using assms(5)
proof (cases rule: check_limiter_call)
  case (error p e)
  have "decision_status (Err e) \<noteq> 200" by (cases e) auto
  then show ?thesis using api_allow_event [OF assms(1-4) error(2)] error(3) by auto
next
  case (decision p d)
  then show ?thesis using api_allow_event [OF assms(1-4) decision(2)] by (cases "Allowed d") auto
qed simp

text \<open>A closed circuit with the default configuration.\<close>

definition ex_breaker :: CircuitBreakerLimiter where
  "ex_breaker = \<lparr>cb_config = api_circuitBreakerCfg ex_api, cb_state = circuitClosed, failures = 0, openedAt = 0, probeRunning = False\<rparr>"

lemma ex_payload: "payload_key \<lparr>pl_ClientID = ''client-a'', pl_Resource = ''openai'', pl_Cost = 1\<rparr> = ex_key"
  by (simp add: payload_key_def ex_key_def)

theorem check_end_to_end_witness:
  "\<exists>b' r' res outcome (w :: unit api_body writer).
     check_request tags_validate (api_allow mem_ops ex_rtb (ReplyLost ''timeout'') None unix_epoch) ex_api (\<lambda>_. None)
       (ex_breaker, ex_redis) None unix_epoch (ex_body ''1'') = ((b', r'), res, outcome, w) \<and>
     (sent_status w = Some 200 \<or> mem_stream r' (eventStream ex_rtb) = [] \<or> length (mem_stream r' (eventStream ex_rtb)) = 1)"
proof -
  obtain b' r' res outcome and w :: "unit api_body writer" where
    c: "check_request tags_validate (api_allow mem_ops ex_rtb (ReplyLost ''timeout'') None unix_epoch) ex_api (\<lambda>_. None)
       (ex_breaker, ex_redis) None unix_epoch (ex_body ''1'') = ((b', r'), res, outcome, w)"
    by (metis prod.exhaust)
  have t: "time_ok unix_epoch" by (simp add: time_ok_def unix_ms_def unix_us_def)
  have s: "mem_stream ex_redis (eventStream ex_rtb) = []" "r_stream mem_ops = mem_stream"
    by (simp_all add: mem_ops_def mem_stream_def ex_redis_def)
  show ?thesis
    using check_end_to_end [OF mem.redis_server_axioms ex_rtb_ok ex_redis_ok t c] c by (auto simp: s split: if_splits)
qed

text \<open>
  An answer 503 that has spent quota: the server ran the script and its reply was lost.
\<close>

theorem unavailable_may_spend:
  "\<exists>b' r' res outcome (w :: unit api_body writer).
     check_request tags_validate (api_allow mem_ops ex_rtb (ReplyLost ''timeout'') None unix_epoch) ex_api (\<lambda>_. None)
       (ex_breaker, ex_redis) None unix_epoch (ex_body ''1'') = ((b', r'), res, outcome, w) \<and>
     sent_status w = Some 503 \<and> length (mem_stream r' (eventStream ex_rtb)) = 1 \<and>
     fst (bucket_view mem_ops r' (redisKey ex_rtb ex_key)) = Some 9"
proof -
  let ?k = ex_key and ?t = unix_epoch and ?A = "Redis_Allow mem_ops ex_rtb (ReplyLost ''timeout'')"
  let ?r = "fst (mem_rtb.script ex_p ?k 1 ?t ex_redis)"
  have n: "0 < (1::int)" "1 \<le> Limit ex_p" by (simp_all add: ex_policy)
  have a: "?A ex_redis None ?t ?k 1 = (?r, Err (ErrRedis ''timeout''))"
    by (rule mem_rtb.Allow_script(2) [OF ex_policy(1) n])
  have found: "mem_rtb.found ex_redis ex_p ?k ?t = 10"
    using mem_rtb.available_found [OF ex_policy(1), of ex_redis ?t] ex_available by (simp add: ex_p_def)
  have notfull: "\<not> mem_rtb.full ex_redis"
    using mem_rtb.full_exact [OF ex_redis_ok] by (simp add: ex_rtb_def mem_ops_def mem_stream_def ex_redis_def)
  have "fsub 10 1 = (9 :: rat)" by (simp add: fsub_def float_simps)
  then have spent: "mem_rtb.spent ex_redis ex_p ?k 1 ?t = 9" by (simp add: mem_rtb.spent_def found)
  have "rnd (g14 9) = (9 :: rat)" using g14_int [of 9] by (simp add: float_simps)
  then have v: "fst (bucket_view mem_ops ?r (redisKey ex_rtb ?k)) = Some 9"
    using mem_rtb.script_effect(3) [OF ex_redis_ok ex_policy(1) n refl, of ?t] notfull spent by (simp add: mem_rtb.stored_def)
  have len: "length (mem_stream ?r (eventStream ex_rtb)) = 1"
    using mem_rtb.script_effect(4) [OF ex_redis_ok ex_policy(1) n refl, of ?t] notfull found
    by (simp add: mem_ops_def mem_stream_def ex_redis_def)
  have r: "snd (api_allow mem_ops ex_rtb (ReplyLost ''timeout'') None ?t (ex_breaker, ex_redis) None ?t ?k 1) =
      Err (ErrUnavailable (Some (ErrRedis ''timeout'')))"
    "snd (fst (api_allow mem_ops ex_rtb (ReplyLost ''timeout'') None ?t (ex_breaker, ex_redis) None ?t ?k 1)) = ?r"
    by (simp_all add: api_allow_def CircuitBreaker_Allow_def startRequest_def ex_breaker_def a finishRequest_def
        isRequestError_def errors_Is_def split_def Let_def)
  obtain b' where call: "api_allow mem_ops ex_rtb (ReplyLost ''timeout'') None ?t (ex_breaker, ex_redis) None ?t ?k 1 =
      ((b', ?r), Err (ErrUnavailable (Some (ErrRedis ''timeout''))))" using r by (metis prod.collapse)
  obtain s' res outcome and w :: "unit api_body writer" where
    c: "check_request tags_validate (api_allow mem_ops ex_rtb (ReplyLost ''timeout'') None ?t) ex_api (\<lambda>_. None)
       (ex_breaker, ex_redis) None ?t (ex_body ''1'') = (s', res, outcome, w)"
    by (metis prod.exhaust)
  have "s' = (b', ?r)" "sent_status w = Some 503"
    using check_error_status(1,3) [OF ex_body_read _ _ c, of "(b', ?r)" "ErrUnavailable (Some (ErrRedis ''timeout''))"] call
    by (simp_all add: ex_payload tags_validate_def)
  then show ?thesis using c v len by blast
qed

text \<open>
  C18. Every decision that is answered is well formed. The body of a decision has the limit of
  the configured policy of the request's client and resource, a remaining capacity between 0
  and that limit, status 200 and no delay when allowed, status 429, a positive delay and less
  capacity than the cost when denied.
\<close>

theorem check_decisions_well_formed:
  assumes "redis_server R" and "rtb_ok l" and "redis_ok R l r"
    and "check_request validate (api_allow R l net late fin) cfg (\<lambda>_. None) (b, r) c t body = (s', res, outcome, w)"
    and "DecisionBody x \<in> set (w_body w)"
  shows "\<exists>p pol. readJSON body = Ok p \<and> map_of (rtb_policies l) (payload_key p) = Some pol \<and>
    cr_Limit x = Limit pol \<and> 0 \<le> cr_Remaining x \<and> cr_Remaining x \<le> Limit pol \<and>
    (if cr_Allowed x then sent_status w = Some 200 \<and> cr_RetryAfterMS x = 0
     else sent_status w = Some 429 \<and> 1 \<le> cr_RetryAfterMS x \<and> cr_Remaining x < pl_Cost p)"
proof -
  have src: "decision_source (api_allow R l net late fin) (\<lambda>st. redis_ok R l (snd st)) (\<lambda>st. rtb_pol l)"
    unfolding api_allow_def
    by (rule decision_source.breaker_source [OF limiter.axioms(1) [OF redis_limiter.rtb_limiter [OF redis_limiterI [OF assms(1,2)]]]])
  from assms(4) show ?thesis
  proof (cases rule: check_limiter_call)
    case (decision p d)
    have a: "snd (api_allow R l net late fin (b, r) c t (payload_key p) (pl_Cost p)) = Ok d" using decision(2) by simp
    obtain pol where pol: "rtb_pol l (payload_key p) = Some pol" using decision_source.allow_policy [OF src a] by auto
    have "decision_ok pol (pl_Cost p) d" using decision_source.allow_decision [OF src _ pol a] assms(3) by simp
    moreover have "x = \<lparr>cr_Allowed = Allowed d, cr_Limit = DLimit d, cr_Remaining = Remaining d,
        cr_ResetAt = Format_ms (ResetAt d), cr_RetryAfterMS = RetryAfterMS d\<rparr>" using assms(5) decision(4) by simp
    ultimately show ?thesis using decision pol by (auto simp: decision_ok_def rtb_pol_def)
  qed (use assms(5) in auto)
qed

theorem check_decisions_well_formed_witness:
  "\<exists>s' res outcome (w :: unit api_body writer) x.
     check_request tags_validate (api_allow mem_ops ex_rtb Delivered None unix_epoch) ex_api (\<lambda>_. None)
       (ex_breaker, ex_redis) None unix_epoch (ex_body ''1'') = (s', res, outcome, w) \<and>
     w_body w = [DecisionBody x] \<and> cr_Limit x = 10 \<and> cr_Remaining x \<le> 10"
proof -
  let ?A = "api_allow mem_ops ex_rtb Delivered None unix_epoch"
  obtain r' res1 where a: "Redis_Allow mem_ops ex_rtb Delivered ex_redis None unix_epoch ex_key 1 = (r', res1)" by force
  have n: "0 < (1::int)" "1 \<le> Limit ex_p" "maxBacklog ex_rtb \<le> 2 ^ 53" by (simp_all add: ex_policy ex_rtb_def)
  have av: "available mem_ops ex_rtb ex_redis ex_p ex_key unix_epoch = 10" using ex_available by (simp add: ex_p_def)
  obtain d where d: "res1 = Ok d"
    using mem_rtb.Allow_branches [OF ex_redis_ok n(3) ex_policy(1) n(1,2) a av [symmetric] refl]
    by (auto simp: ex_rtb_def mem_ops_def mem_stream_def ex_redis_def split: if_splits)
  have "?A (ex_breaker, ex_redis) None unix_epoch ex_key 1 = ((recordSuccess ex_breaker, r'), Ok d)"
    by (simp add: api_allow_def CircuitBreaker_Allow_def startRequest_def ex_breaker_def a d finishRequest_def)
  then have call: "?A (ex_breaker, ex_redis) None unix_epoch
      (payload_key \<lparr>pl_ClientID = ''client-a'', pl_Resource = ''openai'', pl_Cost = 1\<rparr>)
      (pl_Cost \<lparr>pl_ClientID = ''client-a'', pl_Resource = ''openai'', pl_Cost = 1\<rparr>) = ((recordSuccess ex_breaker, r'), Ok d)"
    by (simp add: ex_payload)
  obtain s' res outcome and w :: "unit api_body writer" where
    c: "check_request tags_validate ?A ex_api (\<lambda>_. None) (ex_breaker, ex_redis) None unix_epoch (ex_body ''1'') = (s', res, outcome, w)"
    by (metis prod.exhaust)
  obtain x where x: "w_body w = [DecisionBody x]"
    using check_decision_status(4) [OF ex_body_read _ call c] by (simp add: tags_validate_def)
  have "\<exists>p pol. readJSON (ex_body ''1'') = Ok p \<and> map_of (rtb_policies ex_rtb) (payload_key p) = Some pol \<and>
    cr_Limit x = Limit pol \<and> 0 \<le> cr_Remaining x \<and> cr_Remaining x \<le> Limit pol \<and>
    (if cr_Allowed x then sent_status w = Some 200 \<and> cr_RetryAfterMS x = 0
     else sent_status w = Some 429 \<and> 1 \<le> cr_RetryAfterMS x \<and> cr_Remaining x < pl_Cost p)"
    using x by (intro check_decisions_well_formed [OF mem.redis_server_axioms ex_rtb_ok ex_redis_ok c]) simp
  then have "cr_Limit x = 10 \<and> cr_Remaining x \<le> 10"
    using ex_policy by (auto simp: ex_body_read ex_payload rtb_pol_def)
  then show ?thesis using c x by blast
qed

end
