(* ===== verification/Fleet.thy ===== *)
theory Fleet
  imports Pipeline "HOL-Library.Multiset"
begin

text \<open>
  Several API instances on one Redis server. Each instance has its own circuit breaker and
  serves requests concurrently; an instance can stop at any point and be started again. A
  request goes through three separate steps, admission by the breaker of its instance, the
  script on the server, and the end of \<open>Allow\<close> with the answer; the steps of different requests
  interleave in any way. The quota and the event stream are global all the same.
\<close>

section \<open>The system\<close>

text \<open>
  A call of \<open>Allow\<close> in progress: its result is set once the Redis call has ended. A call whose
  instance has stopped is no longer alive: it gets no answer, but its script may still run.
\<close>

record check_call =
  cc_instance :: nat
  cc_key :: Key
  cc_cost :: int
  cc_result :: "(limiter_error, Decision) result option"
  cc_alive :: bool

type_synonym answer = "Key \<times> int \<times> (limiter_error, Decision) result"

record 'r fleet =
  fl_breakers :: "nat \<Rightarrow> CircuitBreakerLimiter"
  fl_server :: 'r
  fl_calls :: "check_call list"
  fl_executed :: "(request \<times> link) list"
  fl_answers :: "answer list"

inductive fleet_step :: "'r redis_ops \<Rightarrow> RedisTokenBucketRateLimiter \<Rightarrow> 'r fleet \<Rightarrow> 'r fleet \<Rightarrow> bool" for R l where
  admit: "startRequest (fl_breakers s i) now = (b, True) \<Longrightarrow>
    fleet_step R l s (s\<lparr>fl_breakers := (fl_breakers s)(i := b),
      fl_calls := fl_calls s @ [\<lparr>cc_instance = i, cc_key = k, cc_cost = n, cc_result = None, cc_alive = True\<rparr>]\<rparr>)"
| refuse: "startRequest (fl_breakers s i) now = (b, False) \<Longrightarrow>
    fleet_step R l s (s\<lparr>fl_breakers := (fl_breakers s)(i := b),
      fl_answers := fl_answers s @ [(k, n, Err (ErrUnavailable None))]\<rparr>)"
| execute: "\<lbrakk>fl_calls s = xs @ c # ys; cc_result c = None;
    Redis_Allow R l net (fl_server s) ctx t (cc_key c) (cc_cost c) = (r', res)\<rbrakk> \<Longrightarrow>
    fleet_step R l s (s\<lparr>fl_server := r', fl_calls := xs @ c\<lparr>cc_result := Some res\<rparr> # ys,
      fl_executed := fl_executed s @ [(\<lparr>q_ctx = ctx, q_now = t, q_key = cc_key c, q_cost = cc_cost c\<rparr>, net)]\<rparr>)"
| finish: "\<lbrakk>fl_calls s = xs @ c # ys; cc_result c = Some res; cc_alive c;
    finishRequest (fl_breakers s (cc_instance c)) res late now = (b, res')\<rbrakk> \<Longrightarrow>
    fleet_step R l s (s\<lparr>fl_breakers := (fl_breakers s)(cc_instance c := b), fl_calls := xs @ ys,
      fl_answers := fl_answers s @ [(cc_key c, cc_cost c, res')]\<rparr>)"
| restart: "NewCircuitBreakerLimiter True cfg = Ok b \<Longrightarrow>
    fleet_step R l s (s\<lparr>fl_breakers := (fl_breakers s)(i := b),
      fl_calls := map (\<lambda>c. if cc_instance c = i then c\<lparr>cc_alive := False\<rparr> else c) (fl_calls s)\<rparr>)"

definition fleet_start :: "'r \<Rightarrow> (nat \<Rightarrow> CircuitBreakerLimiter) \<Rightarrow> 'r fleet" where
  "fleet_start r bs = \<lparr>fl_breakers = bs, fl_server = r, fl_calls = [], fl_executed = [], fl_answers = []\<rparr>"

section \<open>Approvals\<close>

fun approved_requests :: "request list \<Rightarrow> (limiter_error, Decision) result list \<Rightarrow> (Key \<times> int) list" where
  "approved_requests (q # qs) (r # rs) = (if approved r then [(q_key q, q_cost q)] else []) @ approved_requests qs rs"
| "approved_requests _ _ = []"

text \<open>The requests answered 200, and those approved whose answer is still to come.\<close>

definition answered :: "answer list \<Rightarrow> (Key \<times> int) multiset" where
  "answered as = mset (map (\<lambda>(k, n, r). (k, n)) (filter (\<lambda>(k, n, r). decision_status r = 200) as))"

definition holding :: "check_call list \<Rightarrow> (Key \<times> int) multiset" where
  "holding cs = mset (map (\<lambda>c. (cc_key c, cc_cost c)) (filter (\<lambda>c. \<exists>r. cc_result c = Some r \<and> approved r) cs))"

text \<open>An event of the stream by its request, its time and the remaining capacity.\<close>

definition event_of :: "(Key \<times> int) \<times> int \<times> int \<Rightarrow> stream_entry" where
  "event_of e = event_fields (fst (fst e)) (snd (fst e)) (fst (snd e)) (snd (snd e))"

definition cost_of :: "Key \<Rightarrow> (Key \<times> int) multiset \<Rightarrow> int" where
  "cost_of k M = sum_mset (image_mset snd (filter_mset (\<lambda>x. fst x = k) M))"

lemma approved_status: "decision_status r = 200 \<longleftrightarrow> approved r"
  by (cases r rule: decision_status.cases) auto

lemma run_redis_snoc:
  "run_redis R l r (qs @ [(q, net)]) =
     (let a = run_redis R l r qs;
          b = Redis_Allow R l net (fst a) (q_ctx q) (q_now q) (q_key q) (q_cost q)
      in (fst b, snd a @ [snd b]))"
  by (induction R l r qs rule: run_redis.induct) (simp_all add: Let_def)

lemma run_redis_length [simp]: "length (snd (run_redis R l r qs)) = length qs"
  by (induction R l r qs rule: run_redis.induct) (simp_all add: Let_def)

lemma approved_requests_snoc:
  "length qs = length rs \<Longrightarrow>
     approved_requests (qs @ [q]) (rs @ [r]) = approved_requests qs rs @ (if approved r then [(q_key q, q_cost q)] else [])"
  by (induction qs rs rule: list_induct2) simp_all

lemma approved_requests_cost: "cost_of k (mset (approved_requests qs rs)) = approved_cost (\<lambda>_. True) k qs rs"
  by (induction qs rs rule: approved_requests.induct) (auto simp: cost_of_def)

lemma cost_of_nonneg: "(\<And>x. x \<in># D \<Longrightarrow> 0 \<le> snd x) \<Longrightarrow> 0 \<le> cost_of k D"
  by (induction D) (auto simp: cost_of_def)

lemma cost_of_mono:
  assumes "M \<subseteq># N" "\<And>x. x \<in># N \<Longrightarrow> 0 \<le> snd x"
  shows "cost_of k M \<le> cost_of k N"
proof -
  obtain D where D: "N = M + D" using assms(1) by (auto simp: subset_mset.le_iff_add)
  have "0 \<le> cost_of k D" using assms(2) by (intro cost_of_nonneg) (auto simp: D)
  then show ?thesis by (simp add: cost_of_def D)
qed

lemma holding_simps [simp]:
  "holding [] = {#}" "holding (xs @ ys) = holding xs + holding ys"
  "holding (c # cs) = (case cc_result c of Some r \<Rightarrow> if approved r then {#(cc_key c, cc_cost c)#} else {#} | None \<Rightarrow> {#}) + holding cs"
  by (auto simp: holding_def split: option.splits)

lemma answered_snoc [simp]:
  "answered [] = {#}" "answered (as @ [(k, n, r)]) = answered as + (if approved r then {#(k, n)#} else {#})"
  by (simp_all add: answered_def approved_status)

lemma holding_restart [simp]:
  "holding (map (\<lambda>c. if cc_instance c = i then c\<lparr>cc_alive := False\<rparr> else c) cs) = holding cs"
  by (induction cs) (auto split: option.splits)

lemma finish_approved: "finishRequest b res late now = (b', res') \<Longrightarrow> approved res' \<longleftrightarrow> approved res"
  by (cases res) (auto simp: finishRequest_def split: if_splits)

section \<open>The server decides\<close>

text \<open>
  The server has run the scripts in the order of their execution, and whatever was answered
  200 or waits to be was approved there.
\<close>

definition fleet_inv :: "'r redis_ops \<Rightarrow> RedisTokenBucketRateLimiter \<Rightarrow> 'r \<Rightarrow> 'r fleet \<Rightarrow> bool" where
  "fleet_inv R l r0 s \<longleftrightarrow>
     fl_server s = fst (run_redis R l r0 (fl_executed s)) \<and>
     answered (fl_answers s) + holding (fl_calls s) \<subseteq>#
       mset (approved_requests (map fst (fl_executed s)) (snd (run_redis R l r0 (fl_executed s))))"

lemma fleet_step_inv: "fleet_step R l s s' \<Longrightarrow> fleet_inv R l r0 s \<Longrightarrow> fleet_inv R l r0 s'"
proof (induction rule: fleet_step.induct)
  case (execute s xs c ys net ctx t r' res)
  let ?q = "\<lparr>q_ctx = ctx, q_now = t, q_key = cc_key c, q_cost = cc_cost c\<rparr>"
  have "run_redis R l r0 (fl_executed s @ [(?q, net)]) = (r', snd (run_redis R l r0 (fl_executed s)) @ [res])"
    using execute by (simp add: run_redis_snoc Let_def fleet_inv_def)
  then show ?case
    using execute by (auto simp: fleet_inv_def approved_requests_snoc split: option.splits)
next
  case (finish s xs c ys res late now b res')
  then show ?case using finish_approved [OF finish(4)] by (auto simp: fleet_inv_def split: if_splits)
qed (simp_all add: fleet_inv_def)

lemma fleet_reach_inv: "(fleet_step R l)\<^sup>*\<^sup>* s s' \<Longrightarrow> fleet_inv R l r0 s \<Longrightarrow> fleet_inv R l r0 s'"
  by (induction rule: rtranclp_induct) (auto intro: fleet_step_inv)

lemma fleet_start_inv: "fleet_inv R l r (fleet_start r bs)"
  by (simp add: fleet_inv_def fleet_start_def)

context redis_limiter
begin

lemma approved_positive: "x \<in> set (approved_requests (map fst qs) (snd (run_redis R l r qs))) \<Longrightarrow> 0 < snd x"
proof (induction R l r qs rule: run_redis.induct)
  case (2 R l r q net qs)
  let ?a = "Redis_Allow R l net r (q_ctx q) (q_now q) (q_key q) (q_cost q)"
  have "0 < q_cost q" if "approved (snd ?a)"
    using that by (cases "snd ?a") (auto simp: Redis_Allow_def prod_eq_iff Let_def split: option.splits if_splits)
  then show ?case using 2 by (auto simp: Let_def split: if_splits)
qed simp

text \<open>Every approval has its event; the other events are those of lost replies.\<close>

lemma run_recorded:
  assumes "redis_ok R l r" "\<forall>(q, net) \<in> set qs. time_ok (q_now q)"
  shows "\<exists>es. r_stream R (fst (run_redis R l r qs)) (eventStream l) =
      r_stream R r (eventStream l) @ map event_of es \<and>
    mset (approved_requests (map fst qs) (snd (run_redis R l r qs))) \<subseteq># mset (map fst es)"
  using assms
proof (induction qs arbitrary: r)
  case Nil
  show ?case by (intro exI [of _ "[]"]) simp
next
  case (Cons x qs)
  obtain q net where x: "x = (q, net)" by force
  obtain r1 res where a: "Redis_Allow R l net r (q_ctx q) (q_now q) (q_key q) (q_cost q) = (r1, res)" by force
  have t: "time_ok (q_now q)" using Cons.prems(2) by (simp add: x)
  have "redis_ok R l r1" using Allow_ok [OF Cons.prems(1), of net "q_ctx q" "q_now q" "q_key q" "q_cost q"] a by simp
  moreover have "\<forall>(q, net) \<in> set qs. time_ok (q_now q)" using Cons.prems(2) by simp
  ultimately obtain es where es: "r_stream R (fst (run_redis R l r1 qs)) (eventStream l) =
      r_stream R r1 (eventStream l) @ map event_of es"
    "mset (approved_requests (map fst qs) (snd (run_redis R l r1 qs))) \<subseteq># mset (map fst es)"
    using Cons.IH [of r1] by blast
  obtain e1 where e1: "r_stream R r1 (eventStream l) = r_stream R r (eventStream l) @ map event_of e1"
    "approved res \<longrightarrow> map fst e1 = [(q_key q, q_cost q)]"
  proof (cases "r_stream R r1 (eventStream l) = r_stream R r (eventStream l)")
    case True
    then show ?thesis using that [of "[]"] Allow_event [OF Cons.prems(1) t a] by auto
  next
    case False
    then obtain m where "r_stream R r1 (eventStream l) =
        r_stream R r (eventStream l) @ [event_fields (q_key q) (q_cost q) (unix_ms (q_now q)) m]"
      using Allow_event [OF Cons.prems(1) t a] by auto
    then show ?thesis using that [of "[((q_key q, q_cost q), unix_ms (q_now q), m)]"] by (simp add: event_of_def)
  qed
  show ?case
    using es e1 by (intro exI [of _ "e1 @ es"]) (auto simp: x a Let_def intro: mset_subset_eq_mono_add subset_mset.add_increasing)
qed

end

section \<open>One quota for all instances\<close>

text \<open>
  C1. One shared quota. However many API instances serve requests of a key concurrently on
  one server, whatever their circuit breakers do, whatever connections break and whichever
  instances stop and start again: in a period in which the server's clock does not go back,
  the cost of all requests that all instances together answer with 200 is at most the limit
  plus the refill of the period, with the rounding of the stored balance.
\<close>

theorem fleet_quota:
  assumes "redis_server R" and "rtb_ok l" and "redis_ok R l r"
    and "map_of (rtb_policies l) k = Some p" and "r_TYPE R r (redisKey l k) = ''none''"
    and "(fleet_step R l)\<^sup>*\<^sup>* (fleet_start r bs) s"
    and "\<forall>(q, net) \<in> set (fl_executed s). time_ok (q_now q) \<and> T0 \<le> unix_ms (q_now q) \<and> unix_ms (q_now q) \<le> T1"
    and "T0 \<le> T1" and "sorted (map (q_now \<circ> fst) (fl_executed s))"
  shows "of_int (cost_of k (answered (fl_answers s))) \<le>
    of_int (Limit p) * (1 + of_nat (length (fl_executed s)) / 2 ^ 43) +
    (1 + 1 / 2 ^ 50) * (of_int (Limit p) / of_int (millisecondsRoundedUp (Window p)) * of_int (T1 - T0) :: rat)"
proof -
  let ?A = "approved_requests (map fst (fl_executed s)) (snd (run_redis R l r (fl_executed s)))"
  have "fleet_inv R l r s" using fleet_reach_inv [OF assms(6) fleet_start_inv] .
  then have "answered (fl_answers s) \<subseteq># mset ?A"
    unfolding fleet_inv_def using subset_mset.order_trans [OF mset_subset_eq_add_left] by blast
  then have "cost_of k (answered (fl_answers s)) \<le> cost_of k (mset ?A)"
    by (rule cost_of_mono)
      (auto dest: redis_limiter.approved_positive [OF redis_limiterI [OF assms(1,2)], of _ "fl_executed s" r])
  then have "of_int (cost_of k (answered (fl_answers s))) \<le>
      (of_int (approved_cost (\<lambda>_. True) k (map fst (fl_executed s)) (snd (run_redis R l r (fl_executed s)))) :: rat)"
    by (simp add: approved_requests_cost)
  also note redis_quota_aux [OF assms(1-5,7-9)]
  finally show ?thesis .
qed

text \<open>
  C6. No approval goes unrecorded. In every interleaving of any number of instances, with any
  failures and restarts, the event stream grows only by approval events, and the requests
  answered with 200 by any instance are among them, each with an event of its own.
\<close>

theorem fleet_recorded:
  assumes "redis_server R" and "rtb_ok l" and "redis_ok R l r"
    and "(fleet_step R l)\<^sup>*\<^sup>* (fleet_start r bs) s"
    and "\<forall>(q, net) \<in> set (fl_executed s). time_ok (q_now q)"
  shows "\<exists>es. r_stream R (fl_server s) (eventStream l) = r_stream R r (eventStream l) @ map event_of es \<and>
    answered (fl_answers s) \<subseteq># mset (map fst es)"
proof -
  have inv: "fleet_inv R l r s" using fleet_reach_inv [OF assms(4) fleet_start_inv] .
  obtain es where es: "r_stream R (fl_server s) (eventStream l) = r_stream R r (eventStream l) @ map event_of es"
    "mset (approved_requests (map fst (fl_executed s)) (snd (run_redis R l r (fl_executed s)))) \<subseteq># mset (map fst es)"
    using redis_limiter.run_recorded [OF redis_limiterI [OF assms(1,2)] assms(3,5)] inv by (auto simp: fleet_inv_def)
  have "answered (fl_answers s) \<subseteq># answered (fl_answers s) + holding (fl_calls s)" by simp
  also have "\<dots> \<subseteq># mset (approved_requests (map fst (fl_executed s)) (snd (run_redis R l r (fl_executed s))))"
    using inv by (simp add: fleet_inv_def)
  also note es(2)
  finally show ?thesis using es(1) by blast
qed

text \<open>Two instances admit a request of 7 each before either reaches the server.\<close>

definition ex_call :: "nat \<Rightarrow> check_call" where
  "ex_call i = \<lparr>cc_instance = i, cc_key = ex_key, cc_cost = 7, cc_result = None, cc_alive = True\<rparr>"

definition ex_breakers :: "nat \<Rightarrow> CircuitBreakerLimiter" where
  "ex_breakers = (\<lambda>_. Pipeline.ex_breaker)"

lemma ex_admitted: "startRequest Pipeline.ex_breaker t = (Pipeline.ex_breaker, True)"
  by (simp add: startRequest_def Pipeline.ex_breaker_def)

lemma ex_fleet:
  obtains s where "(fleet_step mem_ops ex_rtb)\<^sup>*\<^sup>* (fleet_start ex_redis ex_breakers) s"
    "fl_executed s = [(ex_req unix_epoch 7, Delivered), (ex_req unix_epoch 7, Delivered)]" "length (fl_answers s) = 1"
proof -
  let ?step = "fleet_step mem_ops ex_rtb"
  define q where "q = (ex_req unix_epoch 7, Delivered)"
  let ?s = "\<lambda>r cs ex. \<lparr>fl_breakers = ex_breakers, fl_server = r, fl_calls = cs, fl_executed = ex, fl_answers = []\<rparr>"
  obtain r1 res1 where a1: "Redis_Allow mem_ops ex_rtb Delivered ex_redis None unix_epoch ex_key 7 = (r1, res1)" by force
  obtain r2 res2 where a2: "Redis_Allow mem_ops ex_rtb Delivered r1 None unix_epoch ex_key 7 = (r2, res2)" by force
  have s1: "?step (fleet_start ex_redis ex_breakers) (?s ex_redis [ex_call 0] [])"
    using admit [of "fleet_start ex_redis ex_breakers" 0 unix_epoch Pipeline.ex_breaker mem_ops ex_rtb ex_key 7]
    by (simp add: fleet_start_def ex_breakers_def ex_admitted ex_call_def fun_upd_idem)
  have s2: "?step (?s ex_redis [ex_call 0] []) (?s ex_redis [ex_call 0, ex_call 1] [])"
    using admit [of "?s ex_redis [ex_call 0] []" 1 unix_epoch Pipeline.ex_breaker mem_ops ex_rtb ex_key 7]
    by (simp add: ex_breakers_def ex_admitted ex_call_def fun_upd_idem)
  have s3: "?step (?s ex_redis [ex_call 0, ex_call 1] []) (?s r1 [(ex_call 0)\<lparr>cc_result := Some res1\<rparr>, ex_call 1] [q])"
    using execute [of "?s ex_redis [ex_call 0, ex_call 1] []" "[]" "ex_call 0" "[ex_call 1]" mem_ops ex_rtb Delivered None unix_epoch r1 res1] a1
    by (simp add: ex_call_def ex_req_def q_def)
  have s4: "?step (?s r1 [(ex_call 0)\<lparr>cc_result := Some res1\<rparr>, ex_call 1] [q])
      (?s r2 [(ex_call 0)\<lparr>cc_result := Some res1\<rparr>, (ex_call 1)\<lparr>cc_result := Some res2\<rparr>] [q, q])"
    using execute [of "?s r1 [(ex_call 0)\<lparr>cc_result := Some res1\<rparr>, ex_call 1] [q]" "[(ex_call 0)\<lparr>cc_result := Some res1\<rparr>]"
        "ex_call 1" "[]" mem_ops ex_rtb Delivered None unix_epoch r2 res2] a2
    by (simp add: ex_call_def ex_req_def q_def)
  have run: "?step\<^sup>*\<^sup>* (fleet_start ex_redis ex_breakers)
      (?s r2 [(ex_call 0)\<lparr>cc_result := Some res1\<rparr>, (ex_call 1)\<lparr>cc_result := Some res2\<rparr>] [q, q])"
    using s1 s2 s3 s4 by (meson rtranclp.rtrancl_into_rtrancl rtranclp.rtrancl_refl)
  obtain b res' where f: "finishRequest Pipeline.ex_breaker res2 None unix_epoch = (b, res')" by force
  let ?t = "?s r2 [(ex_call 0)\<lparr>cc_result := Some res1\<rparr>, (ex_call 1)\<lparr>cc_result := Some res2\<rparr>] [q, q]"
  let ?u = "?t\<lparr>fl_breakers := ex_breakers(1 := b), fl_calls := [(ex_call 0)\<lparr>cc_result := Some res1\<rparr>], fl_answers := [(ex_key, 7, res')]\<rparr>"
  have "?step ?t ?u"
    using finish [of ?t "[(ex_call 0)\<lparr>cc_result := Some res1\<rparr>]" "(ex_call 1)\<lparr>cc_result := Some res2\<rparr>" "[]" res2 None unix_epoch b res' mem_ops ex_rtb] f
    by (simp add: ex_call_def ex_breakers_def)
  with run have "?step\<^sup>*\<^sup>* (fleet_start ex_redis ex_breakers) ?u" by (rule rtranclp.rtrancl_into_rtrancl)
  then show thesis by (rule that) (simp_all add: q_def)
qed

theorem fleet_quota_witness:
  "\<exists>s. (fleet_step mem_ops ex_rtb)\<^sup>*\<^sup>* (fleet_start ex_redis ex_breakers) s \<and> length (fl_executed s) = 2 \<and>
     of_int (cost_of ex_key (answered (fl_answers s))) < (11 :: rat)"
proof -
  obtain s where s: "(fleet_step mem_ops ex_rtb)\<^sup>*\<^sup>* (fleet_start ex_redis ex_breakers) s"
    and ex: "fl_executed s = [(ex_req unix_epoch 7, Delivered), (ex_req unix_epoch 7, Delivered)]"
    by (rule ex_fleet)
  let ?p = "\<lparr>Limit = 10, Window = 60 * 10 ^ 9\<rparr>"
  have p: "map_of (rtb_policies ex_rtb) ex_key = Some ?p" by (simp add: ex_rtb_def ex_policies_def)
  have "of_int (cost_of ex_key (answered (fl_answers s))) \<le>
    of_int (Limit ?p) * (1 + of_nat (length (fl_executed s)) / 2 ^ 43) +
    (1 + 1 / 2 ^ 50) * (of_int (Limit ?p) / of_int (millisecondsRoundedUp (Window ?p)) * of_int (0 - 0) :: rat)"
    by (rule fleet_quota [OF mem.redis_server_axioms ex_rtb_ok ex_redis_ok p ex_bucket_none s])
      (simp_all add: ex ex_req_def ex_time_ok)
  then show ?thesis using s ex by (intro exI [of _ s]) simp
qed

theorem fleet_recorded_witness:
  "\<exists>s es. (fleet_step mem_ops ex_rtb)\<^sup>*\<^sup>* (fleet_start ex_redis ex_breakers) s \<and> length (fl_answers s) = 1 \<and>
     mem_stream (fl_server s) (eventStream ex_rtb) = map event_of es \<and> answered (fl_answers s) \<subseteq># mset (map fst es)"
proof -
  obtain s where s: "(fleet_step mem_ops ex_rtb)\<^sup>*\<^sup>* (fleet_start ex_redis ex_breakers) s" "length (fl_answers s) = 1"
    and ex: "fl_executed s = [(ex_req unix_epoch 7, Delivered), (ex_req unix_epoch 7, Delivered)]"
    by (rule ex_fleet)
  have "\<forall>(q, net) \<in> set (fl_executed s). time_ok (q_now q)" by (simp add: ex ex_req_def ex_time_ok)
  from fleet_recorded [OF mem.redis_server_axioms ex_rtb_ok ex_redis_ok s(1) this] s show ?thesis
    by (auto simp: mem_ops_def mem_stream_def ex_redis_def)
qed

end
