(* ===== verification/Service.thy ===== *)
theory Service
  imports Worker Api
begin

text \<open>
  The two programs from start to end: what \<open>main\<close> of \<open>cmd/api\<close> and \<open>cmd/worker\<close> build, with the pool
  of \<open>store/postgres.go\<close>, and the goroutines of the two \<open>run\<close> methods (\<open>api.go\<close>) as state machines.
  The environment includes what \<open>.env\<close> added to it. The pings, \<open>pgxpool.New\<close> and the run of a
  program that was built are arguments.
\<close>

section \<open>Starting\<close>

text \<open>\<open>NewPostgresPool\<close>, with the pools it closed.\<close>

definition OpenPostgresPool :: "(string \<Rightarrow> (string, 'p) result) \<Rightarrow> string \<Rightarrow> (string, 'p) result" where
  "OpenPostgresPool pgxpool_New databaseURL = pgxpool_New databaseURL"

definition NewPostgresPool ::
  "(string \<Rightarrow> (string, 'p) result) \<Rightarrow> ('p \<Rightarrow> string option) \<Rightarrow> string \<Rightarrow> (string, 'p) result \<times> 'p list" where
  "NewPostgresPool pgxpool_New pool_Ping databaseURL =
     (case OpenPostgresPool pgxpool_New databaseURL of
        Inl err \<Rightarrow> (Err err, [])
      | Inr pool \<Rightarrow> (case pool_Ping pool of Some err \<Rightarrow> (Err err, [pool]) | None \<Rightarrow> (Ok pool, [])))"

datatype run_error = ErrGroup redis_error | ErrListen string | ErrShutdown string

text \<open>The fatal exits of the two programs.\<close>

datatype fatal =
    InvalidConfiguration load_error
  | RedisNotConnected string
  | PostgresFailed string
  | LimiterNotCreated "redis_config_error + breaker_config_error"
  | ProcessorNotCreated processor_error
  | StoppedUnexpectedly run_error

record ('p, 'm) api_application =
  app_config :: api_config
  app_redisLimiter :: RedisTokenBucketRateLimiter
  app_rateLimiter :: CircuitBreakerLimiter
  app_redisClient :: redis_client
  app_database :: 'p
  app_metrics :: "'m apiMetrics"

definition api_build ::
  "(redis_client \<Rightarrow> string option) \<Rightarrow> (string \<Rightarrow> (string, 'p) result) \<Rightarrow> 'm metric_ops \<Rightarrow> 'm \<Rightarrow> environment \<Rightarrow>
   (fatal, ('p, 'm) api_application) result" where
  "api_build redis_Ping pgxpool_New M registry env =
     (case api_loadConfig env of
        Inl err \<Rightarrow> Err (InvalidConfiguration err)
      | Inr cfg \<Rightarrow>
          let redisClient = newRedisClient (api_redisCfg cfg)
          in case redis_Ping redisClient of
               Some err \<Rightarrow> Err (RedisNotConnected err)
             | None \<Rightarrow>
                 (case OpenPostgresPool pgxpool_New (api_databaseURL cfg) of
                    Inl err \<Rightarrow> Err (PostgresFailed err)
                  | Inr postgresPool \<Rightarrow>
                      (case api_limiter cfg of
                         Inl err \<Rightarrow> Err (LimiterNotCreated err)
                       | Inr (redisLimiter, protected) \<Rightarrow>
                           Ok \<lparr>app_config = cfg, app_redisLimiter = redisLimiter, app_rateLimiter = protected,
                               app_redisClient = redisClient, app_database = postgresPool,
                               app_metrics = newAPIMetrics M registry (api_tokenBucketPolicies cfg)\<rparr>)))"

definition api_main ::
  "(redis_client \<Rightarrow> string option) \<Rightarrow> (string \<Rightarrow> (string, 'p) result) \<Rightarrow> 'm metric_ops \<Rightarrow> 'm \<Rightarrow>
   (('p, 'm) api_application \<Rightarrow> run_error option) \<Rightarrow> environment \<Rightarrow> fatal option" where
  "api_main redis_Ping pgxpool_New M registry run env =
     (case api_build redis_Ping pgxpool_New M registry env of
        Inl err \<Rightarrow> Some err
      | Inr app \<Rightarrow> (case run app of Some err \<Rightarrow> Some (StoppedUnexpectedly err) | None \<Rightarrow> None))"

record 'p worker_application =
  wapp_config :: worker_config
  wapp_redisClient :: redis_client
  wapp_database :: 'p
  wapp_processor :: Config

definition worker_build ::
  "(redis_client \<Rightarrow> string option) \<Rightarrow> (string \<Rightarrow> (string, 'p) result) \<Rightarrow> ('p \<Rightarrow> string option) \<Rightarrow>
   (string, string) result \<Rightarrow> int \<Rightarrow> environment \<Rightarrow> (fatal, 'p worker_application) result \<times> 'p list" where
  "worker_build redis_Ping pgxpool_New pool_Ping hostname pid env =
     (case worker_loadConfig hostname pid env of
        Inl err \<Rightarrow> (Err (InvalidConfiguration err), [])
      | Inr cfg \<Rightarrow>
          let redisClient = worker_newRedisClient (wk_redis cfg)
          in case redis_Ping redisClient of
               Some err \<Rightarrow> (Err (RedisNotConnected err), [])
             | None \<Rightarrow>
                 let (r, closed) = NewPostgresPool pgxpool_New pool_Ping (wk_databaseURL cfg)
                 in case r of
                      Inl err \<Rightarrow> (Err (PostgresFailed err), closed)
                    | Inr postgresPool \<Rightarrow>
                        (case NewProcessor True True (wk_events cfg) of
                           Inl err \<Rightarrow> (Err (ProcessorNotCreated err), closed)
                         | Inr processor \<Rightarrow>
                             (Ok \<lparr>wapp_config = cfg, wapp_redisClient = redisClient, wapp_database = postgresPool,
                                  wapp_processor = processor\<rparr>, closed)))"

definition worker_main ::
  "(redis_client \<Rightarrow> string option) \<Rightarrow> (string \<Rightarrow> (string, 'p) result) \<Rightarrow> ('p \<Rightarrow> string option) \<Rightarrow>
   (string, string) result \<Rightarrow> int \<Rightarrow> ('p worker_application \<Rightarrow> run_error option) \<Rightarrow> environment \<Rightarrow> fatal option" where
  "worker_main redis_Ping pgxpool_New pool_Ping hostname pid run env =
     (case fst (worker_build redis_Ping pgxpool_New pool_Ping hostname pid env) of
        Inl err \<Rightarrow> Some err
      | Inr app \<Rightarrow> (case run app of Some err \<Rightarrow> Some (StoppedUnexpectedly err) | None \<Rightarrow> None))"

lemma api_limiter_starts:
  assumes "api_loadConfig env = Ok cfg" "worker_loadConfig hostname pid env = Ok wcfg"
  obtains l b where "api_limiter cfg = Ok (l, b)"
proof -
  have n: "positiveInt env ''RATE_LIMIT_EVENT_MAX_BACKLOG'' ''100000'' = Ok (wk_maxBacklog wcfg)"
    using worker_loadConfig_Ok(4) [OF assms(2)] .
  then have "\<not> GetEnvAsInt env ''RATE_LIMIT_EVENT_MAX_BACKLOG'' 100000 < 0"
    by (auto simp: positiveInt_def GetEnv_def GetEnvAsInt_def split: sum.splits if_splits option.splits)
  then show thesis using api_limiter_Ok [OF assms(1)] that by auto
qed

text \<open>
  PostgreSQL is not on the decision path. From one environment in which both programs
  load their configuration, with Redis reachable and a valid database URL but the database
  down, the API builds its service and serves requests, with the pool it opened, while the
  worker closes its pool and exits.
\<close>

theorem startup_dependencies:
  assumes "api_loadConfig env = Ok cfg" and "worker_loadConfig hostname pid env = Ok wcfg"
    and "redis_Ping (newRedisClient (api_redisCfg cfg)) = None" and "redis_Ping (worker_newRedisClient (wk_redis wcfg)) = None"
    and "pgxpool_New (api_databaseURL cfg) = Ok apiPool" and "pgxpool_New (wk_databaseURL wcfg) = Ok workerPool"
    and "pool_Ping workerPool = Some down"
  shows "(\<exists>app. api_build redis_Ping pgxpool_New M registry env = Ok app \<and> app_config app = cfg \<and>
      app_database app = apiPool \<and> breaker_ok (app_rateLimiter app) \<and>
      api_main redis_Ping pgxpool_New M registry run env = map_option StoppedUnexpectedly (run app)) \<and>
    worker_build redis_Ping pgxpool_New pool_Ping hostname pid env = (Err (PostgresFailed down), [workerPool]) \<and>
    worker_main redis_Ping pgxpool_New pool_Ping hostname pid wrun env = Some (PostgresFailed down)"
proof -
  obtain l b where l: "api_limiter cfg = Ok (l, b)" using api_limiter_starts [OF assms(1,2)] .
  have "breaker_ok b" using api_limiter_Ok [OF assms(1)] l by (auto split: if_splits)
  then show ?thesis
    using assms l
    by (auto simp: api_build_def api_main_def worker_build_def worker_main_def OpenPostgresPool_def NewPostgresPool_def
        split: option.splits)
qed

lemma ex_env_api: "\<exists>cfg. api_loadConfig ex_env = Ok cfg"
  by (simp add: api_loadConfig_def api_loadRedisConfig_def loadRedisConfig_def loadCircuitBreakerConfig_def
      default_values ex_env_def GetEnv_def)

theorem startup_dependencies_witness:
  "api_main (\<lambda>_. None) Ok mem_metric_ops ex_metrics (\<lambda>_. None) ex_env = None \<and>
   worker_main (\<lambda>_. None) Ok (\<lambda>_. Some ''connection refused'') (Ok ''host'') 7 (\<lambda>_. None) ex_env =
     Some (PostgresFailed ''connection refused'')"
proof -
  obtain cfg where a: "api_loadConfig ex_env = Ok cfg" using ex_env_api by blast
  obtain wcfg where w: "worker_loadConfig (Ok ''host'') 7 ex_env = Ok wcfg" using ex_env_worker by blast
  show ?thesis
    using startup_dependencies [OF a w, of "\<lambda>_. None" Ok "api_databaseURL cfg" "wk_databaseURL wcfg"
        "\<lambda>_. Some ''connection refused''" "''connection refused''" mem_metric_ops ex_metrics "\<lambda>_. None" "\<lambda>_. None"]
    by auto
qed

section \<open>Ending\<close>

text \<open>
  A machine whose steps use up a rank and which can step until it has halted: every run is
  bounded, and one that cannot be continued has halted.
\<close>

locale halting_machine =
  fixes step :: "'s \<Rightarrow> 's \<Rightarrow> bool" and ok :: "'s \<Rightarrow> bool" and rank :: "'s \<Rightarrow> nat" and halted :: "'s \<Rightarrow> bool"
  assumes step_ok: "ok s \<Longrightarrow> step s s' \<Longrightarrow> ok s'"
    and step_rank: "ok s \<Longrightarrow> step s s' \<Longrightarrow> rank s' < rank s"
    and progress: "ok s \<Longrightarrow> \<not> halted s \<Longrightarrow> \<exists>s'. step s s'"
begin

lemma run_bounded: "(step ^^ n) s s' \<Longrightarrow> ok s \<Longrightarrow> ok s' \<and> n + rank s' \<le> rank s"
proof (induction n arbitrary: s')
  case (Suc n)
  then obtain t where t: "(step ^^ n) s t" "step t s'" by auto
  then have "ok t" "n + rank t \<le> rank s" using Suc by auto
  then show ?case using step_ok [OF \<open>ok t\<close> t(2)] step_rank [OF \<open>ok t\<close> t(2)] by simp
qed auto

end

subsection \<open>The worker\<close>

text \<open>
  \<open>run\<close> of the worker once the group exists: the goroutine that serves HTTP, the goroutine that
  runs \<open>process\<close>, the channel \<open>stopped\<close> (of capacity 2) on which both send how they ended, and
  where the function itself is. \<open>ctx_done\<close> is whether the signal has arrived, \<open>shutdown_called\<close>
  whether \<open>server.Shutdown\<close> has been called, which makes \<open>ListenAndServe\<close> return
  \<open>ErrServerClosed\<close>; it may also return another error at any time.
\<close>

datatype run_point = Selecting | ShuttingDown | Receiving | Returned "run_error option"

record worker_run =
  ctx_done :: bool
  serving :: bool
  processing :: bool
  shutdown_called :: bool
  stopped :: "run_error option list"
  run_at :: run_point

definition worker_run_start :: "redis_error option \<Rightarrow> worker_run" where
  "worker_run_start group_err =
     (case group_err of
        Some e \<Rightarrow> \<lparr>ctx_done = False, serving = False, processing = False, shutdown_called = False, stopped = [],
                   run_at = Returned (Some (ErrGroup e))\<rparr>
      | None \<Rightarrow> \<lparr>ctx_done = False, serving = True, processing = True, shutdown_called = False, stopped = [],
                 run_at = Selecting\<rparr>)"

datatype actor = Signal | Server | Consumer | Runner

inductive worker_run_step :: "actor \<Rightarrow> worker_run \<Rightarrow> worker_run \<Rightarrow> bool" where
  signal: "\<not> ctx_done s \<Longrightarrow> worker_run_step Signal s (s\<lparr>ctx_done := True\<rparr>)"
| listen_failed: "\<lbrakk>serving s; length (stopped s) < 2\<rbrakk> \<Longrightarrow>
    worker_run_step Server s (s\<lparr>serving := False, stopped := stopped s @ [Some (ErrListen e)]\<rparr>)"
| server_closed: "\<lbrakk>serving s; shutdown_called s; length (stopped s) < 2\<rbrakk> \<Longrightarrow>
    worker_run_step Server s (s\<lparr>serving := False, stopped := stopped s @ [None]\<rparr>)"
| process_returns: "\<lbrakk>processing s; ctx_done s; length (stopped s) < 2\<rbrakk> \<Longrightarrow>
    worker_run_step Consumer s (s\<lparr>processing := False, stopped := stopped s @ [None]\<rparr>)"
| select_done: "\<lbrakk>run_at s = Selecting; ctx_done s\<rbrakk> \<Longrightarrow>
    worker_run_step Runner s (s\<lparr>shutdown_called := True, run_at := ShuttingDown\<rparr>)"
| select_stopped: "\<lbrakk>run_at s = Selecting; stopped s = r # rs\<rbrakk> \<Longrightarrow>
    worker_run_step Runner s (s\<lparr>stopped := rs, run_at := Returned r\<rparr>)"
| shutdown_failed: "run_at s = ShuttingDown \<Longrightarrow>
    worker_run_step Runner s (s\<lparr>run_at := Returned (Some (ErrShutdown e))\<rparr>)"
| shutdown_done: "run_at s = ShuttingDown \<Longrightarrow> worker_run_step Runner s (s\<lparr>run_at := Receiving\<rparr>)"
| receive: "\<lbrakk>run_at s = Receiving; stopped s = r # rs\<rbrakk> \<Longrightarrow>
    worker_run_step Runner s (s\<lparr>stopped := rs, run_at := Returned r\<rparr>)"

definition worker_any_step :: "worker_run \<Rightarrow> worker_run \<Rightarrow> bool" where
  "worker_any_step s s' \<longleftrightarrow> (\<exists>a. worker_run_step a s s')"

definition worker_returned :: "worker_run \<Rightarrow> bool" where
  "worker_returned s \<longleftrightarrow> (case run_at s of Returned r \<Rightarrow> True | _ \<Rightarrow> False)"

text \<open>
  The channel has room for everything still to be sent; until \<open>run\<close> has received, what is
  in the channel and what is still to come are the two results. A normal result is sent
  only after the signal, and the server is shut down only after it.
\<close>

definition results :: "worker_run \<Rightarrow> nat" where
  "results s = (if serving s then 1 else 0) + (if processing s then 1 else 0) + length (stopped s)"

definition worker_run_ok :: "worker_run \<Rightarrow> bool" where
  "worker_run_ok s \<longleftrightarrow>
     results s \<le> 2 \<and> (\<not> worker_returned s \<longrightarrow> results s = 2) \<and>
     (\<not> ctx_done s \<longrightarrow> \<not> shutdown_called s \<and> run_at s \<notin> {ShuttingDown, Receiving, Returned None} \<and> None \<notin> set (stopped s))"

fun run_rank :: "run_point \<Rightarrow> nat" where
  "run_rank Selecting = 3"
| "run_rank ShuttingDown = 2"
| "run_rank Receiving = 1"
| "run_rank (Returned r) = 0"

definition worker_rank :: "worker_run \<Rightarrow> nat" where
  "worker_rank s = of_bool (\<not> ctx_done s) + of_bool (serving s) + of_bool (processing s) + run_rank (run_at s)"

lemma worker_start_ok: "worker_run_ok (worker_run_start e)" "worker_rank (worker_run_start e) \<le> 6"
  by (auto simp: worker_run_ok_def results_def worker_run_start_def worker_returned_def worker_rank_def split: option.split)

lemma worker_step_results: "worker_run_step a s s' \<Longrightarrow> results s' \<le> results s \<and> (worker_returned s' \<or> results s' = results s)"
  by (erule worker_run_step.cases) (auto simp: results_def worker_returned_def)

lemma worker_step_returned: "worker_run_step a s s' \<Longrightarrow> worker_returned s \<Longrightarrow> worker_returned s'"
  by (erule worker_run_step.cases) (auto simp: worker_returned_def)

lemma worker_step_signal:
  assumes "worker_run_step a s s'" "worker_run_ok s" "\<not> ctx_done s'"
  shows "\<not> shutdown_called s' \<and> run_at s' \<notin> {ShuttingDown, Receiving, Returned None} \<and> None \<notin> set (stopped s')"
  using assms by (cases rule: worker_run_step.cases) (auto simp: worker_run_ok_def dest!: not_sym [of None])

lemma worker_step_ok: "worker_run_step a s s' \<Longrightarrow> worker_run_ok s \<Longrightarrow> worker_run_ok s'"
  using worker_step_results [of a s s'] worker_step_returned [of a s s'] worker_step_signal [of a s s']
  unfolding worker_run_ok_def [of s'] by (auto simp: worker_run_ok_def [of s])

lemma worker_step_rank: "worker_run_step a s s' \<Longrightarrow> worker_rank s' < worker_rank s"
  by (induction rule: worker_run_step.induct) (auto simp: worker_rank_def)

text \<open>After the signal the program itself can go on, whatever the server does.\<close>

lemma worker_run_progress:
  assumes "worker_run_ok s" "ctx_done s" "\<not> worker_returned s"
  shows "\<exists>a s'. a \<in> {Consumer, Runner} \<and> worker_run_step a s s'"
proof (cases "run_at s")
  case Receiving
  show ?thesis
  proof (cases "stopped s")
    case Nil
    then have "processing s" using assms(1,3) by (cases "serving s"; cases "processing s") (simp_all add: worker_run_ok_def results_def)
    then show ?thesis using process_returns [of s] assms(2) Nil by auto
  next
    case (Cons r rs)
    then show ?thesis using receive [OF Receiving Cons] by blast
  qed
qed (use assms in \<open>auto simp: worker_returned_def intro: select_done shutdown_done\<close>)

interpretation worker_run: halting_machine worker_any_step worker_run_ok worker_rank worker_returned
proof unfold_locales
  fix s s'
  assume ok: "worker_run_ok s"
  show "worker_any_step s s' \<Longrightarrow> worker_run_ok s'"
    using worker_step_ok ok by (auto simp: worker_any_step_def)
  show "worker_any_step s s' \<Longrightarrow> worker_rank s' < worker_rank s"
    using worker_step_rank by (auto simp: worker_any_step_def)
  show "\<not> worker_returned s \<Longrightarrow> \<exists>s'. worker_any_step s s'"
    using worker_run_progress [OF ok] signal [of s] by (cases "ctx_done s") (auto simp: worker_any_step_def)
qed

text \<open>
  C23. The worker ends. In every interleaving of the signal, the server, the consumer and
  \<open>run\<close>, the run takes at most six steps; no goroutine ever blocks on the channel; after the
  signal the consumer or \<open>run\<close> can always go on until \<open>run\<close> has returned; and \<open>run\<close> returns without
  an error only after the signal.
\<close>

theorem worker_run_ends:
  assumes "(worker_any_step ^^ n) (worker_run_start group_err) s"
  shows "n \<le> 6 \<and> ((serving s \<or> processing s) \<longrightarrow> length (stopped s) < 2) \<and>
    (ctx_done s \<and> \<not> worker_returned s \<longrightarrow> (\<exists>a s'. a \<in> {Consumer, Runner} \<and> worker_run_step a s s')) \<and>
    ((\<nexists>s'. worker_any_step s s') \<longrightarrow> worker_returned s) \<and>
    (run_at s = Returned None \<longrightarrow> ctx_done s)"
proof -
  have "worker_run_ok s" "n \<le> 6"
    using worker_run.run_bounded [OF assms worker_start_ok(1)] worker_start_ok(2) [of group_err] by simp_all
  then show ?thesis
    using worker_run_progress [of s] worker_run.progress [of s] by (auto simp: worker_run_ok_def results_def)
qed

text \<open>Two runs: \<open>run\<close> receives the server's result, or the consumer's, before the other has ended.\<close>

lemma worker_any_stepI: "worker_run_step a s t \<Longrightarrow> t = s' \<Longrightarrow> worker_any_step s s'"
  by (auto simp: worker_any_step_def)

definition ex_stopping :: "bool \<Rightarrow> bool \<Rightarrow> bool \<Rightarrow> run_error option list \<Rightarrow> run_point \<Rightarrow> worker_run" where
  "ex_stopping srv cons down rs pt =
     \<lparr>ctx_done = True, serving = srv, processing = cons, shutdown_called = down, stopped = rs, run_at = pt\<rparr>"

lemma ex_signalled: "(worker_any_step ^^ 1) (worker_run_start None) (ex_stopping True True False [] Selecting)"
proof -
  have "worker_any_step (worker_run_start None) (ex_stopping True True False [] Selecting)"
    by (rule worker_any_stepI, rule signal) (simp_all add: worker_run_start_def ex_stopping_def)
  then show ?thesis by (simp add: relcompp_apply)
qed

lemma ex_server_first:
  "(worker_any_step ^^ 5) (worker_run_start None) (ex_stopping False True True [] (Returned None))"
proof -
  have s1: "worker_any_step (ex_stopping True True False [] Selecting) (ex_stopping True True True [] ShuttingDown)"
    by (rule worker_any_stepI, rule select_done) (simp_all add: ex_stopping_def)
  have s2: "worker_any_step (ex_stopping True True True [] ShuttingDown) (ex_stopping False True True [None] ShuttingDown)"
    by (rule worker_any_stepI, rule server_closed) (simp_all add: ex_stopping_def)
  have s3: "worker_any_step (ex_stopping False True True [None] ShuttingDown) (ex_stopping False True True [None] Receiving)"
    by (rule worker_any_stepI, rule shutdown_done) (simp_all add: ex_stopping_def)
  have s4: "worker_any_step (ex_stopping False True True [None] Receiving) (ex_stopping False True True [] (Returned None))"
    by (rule worker_any_stepI, rule receive) (simp_all add: ex_stopping_def)
  show ?thesis
    using relpowp_Suc_I [OF relpowp_Suc_I [OF relpowp_Suc_I [OF relpowp_Suc_I [OF ex_signalled s1] s2] s3] s4] by (simp del: relpowp.simps add: eval_nat_numeral)
qed

lemma ex_consumer_first:
  "(worker_any_step ^^ 3) (worker_run_start None) (ex_stopping True False False [] (Returned None))"
proof -
  have s1: "worker_any_step (ex_stopping True True False [] Selecting) (ex_stopping True False False [None] Selecting)"
    by (rule worker_any_stepI, rule process_returns) (simp_all add: ex_stopping_def)
  have s2: "worker_any_step (ex_stopping True False False [None] Selecting) (ex_stopping True False False [] (Returned None))"
    by (rule worker_any_stepI, rule select_stopped) (simp_all add: ex_stopping_def)
  show ?thesis
    using relpowp_Suc_I [OF relpowp_Suc_I [OF ex_signalled s1] s2] by (simp del: relpowp.simps add: eval_nat_numeral)
qed

theorem worker_run_ends_witness:
  "(worker_any_step ^^ 5) (worker_run_start None) (ex_stopping False True True [] (Returned None)) \<and>
   ctx_done (ex_stopping False True True [] (Returned None))"
  using worker_run_ends [OF ex_server_first] ex_server_first by (simp add: ex_stopping_def)

text \<open>
  The worker does not wait for both goroutines. After the signal \<open>run\<close> receives one of the
  two results: it can return without an error while the consumer is still in a batch, whose
  connections \<open>main\<close> then closes, and it can return while the server is still serving, without
  having called \<open>Shutdown\<close>.
\<close>

theorem worker_returns_early:
  "(\<exists>n s. (worker_any_step ^^ n) (worker_run_start None) s \<and> run_at s = Returned None \<and> processing s) \<and>
   (\<exists>n s. (worker_any_step ^^ n) (worker_run_start None) s \<and> run_at s = Returned None \<and> serving s \<and> \<not> shutdown_called s)"
proof (intro conjI exI)
  show "run_at (ex_stopping False True True [] (Returned None)) = Returned None"
    "processing (ex_stopping False True True [] (Returned None))"
    "run_at (ex_stopping True False False [] (Returned None)) = Returned None"
    "serving (ex_stopping True False False [] (Returned None))"
    "\<not> shutdown_called (ex_stopping True False False [] (Returned None))"
    by (simp_all add: ex_stopping_def)
qed (rule ex_server_first ex_consumer_first)+

subsection \<open>The API\<close>

text \<open>
  \<open>run\<close> of the API: the goroutine that waits for the signal, calls \<open>Shutdown\<close> and sends its result
  on the channel \<open>shutdown\<close> (of capacity 1), and the function itself, which serves and then
  waits for that result.
\<close>

datatype quit_point = AwaitingSignal | CallingShutdown | ShutdownReturned "run_error option"
datatype api_point = Listening | AwaitingShutdown | ApiReturned "run_error option"

record api_run =
  quit_at :: quit_point
  shutdown_chan :: "run_error option list"
  api_at :: api_point

definition api_run_start :: api_run where
  "api_run_start = \<lparr>quit_at = AwaitingSignal, shutdown_chan = [], api_at = Listening\<rparr>"

inductive api_run_step :: "actor \<Rightarrow> api_run \<Rightarrow> api_run \<Rightarrow> bool" where
  quit: "quit_at s = AwaitingSignal \<Longrightarrow> api_run_step Signal s (s\<lparr>quit_at := CallingShutdown\<rparr>)"
| shutdown_ok: "\<lbrakk>quit_at s = CallingShutdown; length (shutdown_chan s) < 1\<rbrakk> \<Longrightarrow>
    api_run_step Server s (s\<lparr>quit_at := ShutdownReturned None, shutdown_chan := shutdown_chan s @ [None]\<rparr>)"
| shutdown_error: "\<lbrakk>quit_at s = CallingShutdown; length (shutdown_chan s) < 1\<rbrakk> \<Longrightarrow>
    api_run_step Server s (s\<lparr>quit_at := ShutdownReturned (Some (ErrShutdown e)),
      shutdown_chan := shutdown_chan s @ [Some (ErrShutdown e)]\<rparr>)"
| listen_error: "api_at s = Listening \<Longrightarrow> api_run_step Server s (s\<lparr>api_at := ApiReturned (Some (ErrListen e))\<rparr>)"
| listen_closed: "\<lbrakk>api_at s = Listening; quit_at s \<noteq> AwaitingSignal\<rbrakk> \<Longrightarrow>
    api_run_step Runner s (s\<lparr>api_at := AwaitingShutdown\<rparr>)"
| api_receive: "\<lbrakk>api_at s = AwaitingShutdown; shutdown_chan s = r # rs\<rbrakk> \<Longrightarrow>
    api_run_step Runner s (s\<lparr>shutdown_chan := rs, api_at := ApiReturned r\<rparr>)"

definition api_any_step :: "api_run \<Rightarrow> api_run \<Rightarrow> bool" where
  "api_any_step s s' \<longleftrightarrow> (\<exists>a. api_run_step a s s')"

definition api_returned :: "api_run \<Rightarrow> bool" where
  "api_returned s \<longleftrightarrow> (case api_at s of ApiReturned r \<Rightarrow> True | _ \<Rightarrow> False)"

text \<open>The channel holds the result of \<open>Shutdown\<close> until \<open>run\<close> returns it.\<close>

definition api_run_ok :: "api_run \<Rightarrow> bool" where
  "api_run_ok s \<longleftrightarrow>
     (case quit_at s of
        ShutdownReturned r \<Rightarrow> (\<not> api_returned s \<longrightarrow> shutdown_chan s = [r])
      | _ \<Rightarrow> shutdown_chan s = []) \<and>
     (case api_at s of
        Listening \<Rightarrow> True
      | AwaitingShutdown \<Rightarrow> quit_at s \<noteq> AwaitingSignal
      | ApiReturned r \<Rightarrow> (\<exists>e. r = Some (ErrListen e)) \<or> quit_at s = ShutdownReturned r)"

fun quit_rank :: "quit_point \<Rightarrow> nat" where
  "quit_rank AwaitingSignal = 2" | "quit_rank CallingShutdown = 1" | "quit_rank (ShutdownReturned r) = 0"

fun api_point_rank :: "api_point \<Rightarrow> nat" where
  "api_point_rank Listening = 2" | "api_point_rank AwaitingShutdown = 1" | "api_point_rank (ApiReturned r) = 0"

definition api_rank :: "api_run \<Rightarrow> nat" where
  "api_rank s = quit_rank (quit_at s) + api_point_rank (api_at s)"

lemma api_step_ok: "api_run_step a s s' \<Longrightarrow> api_run_ok s \<Longrightarrow> api_run_ok s'"
  by (erule api_run_step.cases) (auto simp: api_run_ok_def api_returned_def split: quit_point.splits api_point.splits)

lemma api_step_rank: "api_run_step a s s' \<Longrightarrow> api_rank s' < api_rank s"
  by (erule api_run_step.cases) (auto simp: api_rank_def)

text \<open>After the signal the run ends by itself: the server closes, \<open>Shutdown\<close> returns, \<open>run\<close> receives.\<close>

lemma api_run_progress:
  assumes "api_run_ok s" "\<not> api_returned s"
  shows "\<exists>s'. api_any_step s s'"
proof (cases "quit_at s")
  case AwaitingSignal
  then show ?thesis using quit [of s] by (auto simp: api_any_step_def)
next
  case CallingShutdown
  then show ?thesis using shutdown_ok [of s] assms(1) by (auto simp: api_any_step_def api_run_ok_def)
next
  case (ShutdownReturned r)
  then show ?thesis
    using assms listen_closed [of s] api_receive [of s]
    by (cases "api_at s") (auto simp: api_any_step_def api_run_ok_def api_returned_def)
qed

interpretation api_run: halting_machine api_any_step api_run_ok api_rank api_returned
  by unfold_locales (use api_step_ok api_step_rank api_run_progress in \<open>auto simp: api_any_step_def\<close>)

text \<open>
  C34. The API ends gracefully. In every interleaving the run takes at most four steps and can
  be continued until \<open>run\<close> has returned. It returns the error of \<open>ListenAndServe\<close>, or exactly
  the result of a call of \<open>Shutdown\<close> that has returned; without an error, every request in
  progress was answered.
\<close>

theorem api_run_graceful:
  assumes "(api_any_step ^^ n) api_run_start s"
  shows "n \<le> 4 \<and> ((\<nexists>s'. api_any_step s s') \<longrightarrow> api_returned s) \<and>
    (case api_at s of
       ApiReturned r \<Rightarrow> (\<exists>e. r = Some (ErrListen e)) \<or> quit_at s = ShutdownReturned r
     | _ \<Rightarrow> True)"
proof -
  have "api_run_ok api_run_start" "api_rank api_run_start = 4"
    by (simp_all add: api_run_start_def api_run_ok_def api_returned_def api_rank_def)
  then have "api_run_ok s" "n \<le> 4" using api_run.run_bounded [OF assms] by simp_all
  then show ?thesis using api_run.progress [of s] by (auto simp: api_run_ok_def split: api_point.splits)
qed

lemma ex_api_run:
  "(api_any_step ^^ 4) api_run_start \<lparr>quit_at = ShutdownReturned None, shutdown_chan = [], api_at = ApiReturned None\<rparr>"
proof -
  let ?s = "\<lambda>q c p. \<lparr>quit_at = q, shutdown_chan = c, api_at = p\<rparr>"
  have "api_any_step api_run_start (?s CallingShutdown [] Listening)"
    using quit [of api_run_start] by (auto simp: api_any_step_def api_run_start_def)
  moreover have "api_any_step (?s CallingShutdown [] Listening) (?s CallingShutdown [] AwaitingShutdown)"
    using listen_closed [of "?s CallingShutdown [] Listening"] by (auto simp: api_any_step_def)
  moreover have "api_any_step (?s CallingShutdown [] AwaitingShutdown) (?s (ShutdownReturned None) [None] AwaitingShutdown)"
    using shutdown_ok [of "?s CallingShutdown [] AwaitingShutdown"] by (auto simp: api_any_step_def)
  moreover have "api_any_step (?s (ShutdownReturned None) [None] AwaitingShutdown) (?s (ShutdownReturned None) [] (ApiReturned None))"
    using api_receive [of "?s (ShutdownReturned None) [None] AwaitingShutdown"] by (auto simp: api_any_step_def)
  ultimately show ?thesis by (auto simp: eval_nat_numeral relcompp_apply)
qed

theorem api_run_graceful_witness:
  "\<exists>s. (api_any_step ^^ 4) api_run_start s \<and> api_at s = ApiReturned None \<and> quit_at s = ShutdownReturned None"
  using api_run_graceful [OF ex_api_run] ex_api_run by auto

end
