(* ===== verification/Routes.thy ===== *)
theory Routes
  imports Service Pipeline
begin

text \<open>
  The HTTP interface of the two programs: the routes of \<open>mount\<close> in both \<open>api.go\<close> and the handler
  each leads to. The router package is a parameter that finds the handler of a method and a
  path. \<open>middleware.RequestID\<close> and \<open>middleware.Recoverer\<close> do not change the answers of handlers
  that do not panic.
\<close>

section \<open>The routing tables\<close>

type_synonym 'h routes = "(string \<times> string \<times> 'h) list"

text \<open>\<open>r.Route(prefix, ...)\<close>: the routes of the inner function below a prefix.\<close>

definition Route :: "string \<Rightarrow> 'h routes \<Rightarrow> 'h routes" where
  "Route prefix inner = map (\<lambda>(method, path, handler). (method, prefix @ path, handler)) inner"

datatype api_handler = MetricsPage | Health | Readiness | Check | Summary | Trends

definition api_mount :: "api_handler routes" where
  "api_mount =
     [(''GET'', ''/metrics'', MetricsPage)] @
     Route ''/v1''
       [(''GET'', ''/health'', Health),
        (''GET'', ''/readiness'', Readiness),
        (''POST'', ''/check'', Check),
        (''GET'', ''/analytics/summary'', Summary),
        (''GET'', ''/analytics/trends'', Trends)]"

datatype worker_handler = WorkerHealth | WorkerReadiness | WorkerStatus

definition worker_mount :: "worker_handler routes" where
  "worker_mount =
     Route ''/v1''
       [(''GET'', ''/health'', WorkerHealth),
        (''GET'', ''/readiness'', WorkerReadiness),
        (''GET'', ''/status'', WorkerStatus)]"

text \<open>
  What the router promises for patterns without parameters: it finds the handler registered
  for the method and the path, and nothing else.
\<close>

locale router =
  fixes dispatch :: "'h routes \<Rightarrow> string \<Rightarrow> string \<Rightarrow> 'h option"
  assumes dispatch_registered: "distinct (map (\<lambda>(m, p, h). (m, p)) rs) \<Longrightarrow> (m, p, h) \<in> set rs \<Longrightarrow> dispatch rs m p = Some h"
    and dispatch_sound: "dispatch rs m p = Some h \<Longrightarrow> (m, p, h) \<in> set rs"
begin

lemma dispatch_iff: "distinct (map (\<lambda>(m, p, h). (m, p)) rs) \<Longrightarrow> dispatch rs m p = Some h \<longleftrightarrow> (m, p, h) \<in> set rs"
  using dispatch_registered dispatch_sound by blast

end

definition exact_match :: "'h routes \<Rightarrow> string \<Rightarrow> string \<Rightarrow> 'h option" where
  "exact_match rs m p = map_of (map (\<lambda>(m, p, h). ((m, p), h)) rs) (m, p)"

interpretation exact: router exact_match
proof
  fix rs :: "'h routes" and m p h
  let ?xs = "map (\<lambda>(m, p, h). ((m, p), h)) rs"
  have f: "map fst ?xs = map (\<lambda>(m, p, h). (m, p)) rs" by (induction rs) auto
  show "distinct (map (\<lambda>(m, p, h). (m, p)) rs) \<Longrightarrow> (m, p, h) \<in> set rs \<Longrightarrow> exact_match rs m p = Some h"
    unfolding exact_match_def by (rule map_of_is_SomeI, simp only: f) force
  show "exact_match rs m p = Some h \<Longrightarrow> (m, p, h) \<in> set rs"
    unfolding exact_match_def by (drule map_of_SomeD) auto
qed

lemma mounts_distinct:
  "distinct (map (\<lambda>(m, p, h). (m, p)) api_mount)" "distinct (map (\<lambda>(m, p, h). (m, p)) worker_mount)"
  by (simp_all add: api_mount_def worker_mount_def Route_def)

section \<open>Serving a request\<close>

record http_request =
  rq_method :: string
  rq_path :: string
  rq_query :: "string \<Rightarrow> string"
  rq_body :: request_body

text \<open>
  What a request meets: the clocks, the state of its context, the connection to Redis, the
  answer of a ping, the rows the queries see and their faults, the faults of writes.
\<close>

record surroundings =
  su_ctx :: "ctx_error option"
  su_now :: go_time
  su_finished :: go_time
  su_late :: "ctx_error option"
  su_link :: link
  su_ping :: "limiter_error option"
  su_elapsed :: duration
  su_wfault :: "nat \<Rightarrow> string option"
  su_queryFault :: "string option"
  su_rowsFault :: query_faults
  su_view1 :: "go_time \<times> ApprovedRequest list"
  su_view2 :: "go_time \<times> ApprovedRequest list"

datatype 'm api_reply = NoRoute | Exposition 'm | Reply "report api_body writer"

definition api_serve ::
  "(api_handler routes \<Rightarrow> string \<Rightarrow> string \<Rightarrow> api_handler option) \<Rightarrow> (checkRateLimitPayload \<Rightarrow> string option) \<Rightarrow> 'm metric_ops \<Rightarrow>
   'r redis_ops \<Rightarrow> ('o::linorder) postgres \<Rightarrow> api_config \<Rightarrow> RedisTokenBucketRateLimiter \<Rightarrow>
   (CircuitBreakerLimiter \<times> 'r) \<times> 'm apiMetrics \<Rightarrow> surroundings \<times> http_request \<Rightarrow>
   ((CircuitBreakerLimiter \<times> 'r) \<times> 'm apiMetrics) \<times> 'm api_reply" where
  "api_serve dispatch validate M R db cfg l s x =
     (let e = fst x; rq = snd x
      in case dispatch api_mount (rq_method rq) (rq_path rq) of
           None \<Rightarrow> (s, NoRoute)
         | Some MetricsPage \<Rightarrow> (s, Exposition (store (snd s)))
         | Some Health \<Rightarrow> (s, Reply (api_healthCheckHandler cfg (su_wfault e)))
         | Some Readiness \<Rightarrow>
             (s, Reply (api_readinessCheckHandler cfg (su_wfault e) (redisReadinessCheck (fst (fst s)) (su_now e) (su_ping e))))
         | Some Check \<Rightarrow>
             (let (s', w) = checkRateLimitHandler validate M (api_allow R l (su_link e) (su_late e) (su_finished e)) cfg
                    (su_wfault e) (su_elapsed e) s (su_ctx e) (su_now e) (rq_body rq)
              in (s', Reply w))
         | Some Summary \<Rightarrow>
             (s, Reply (approvalSummaryHandler db (su_wfault e) (su_queryFault e) (su_rowsFault e) (su_view1 e) (su_view2 e) (rq_query rq)))
         | Some Trends \<Rightarrow> (s, Reply (approvalTrendsHandler db (su_wfault e) (su_rowsFault e) (su_view1 e) (rq_query rq))))"

definition worker_serve ::
  "(worker_handler routes \<Rightarrow> string \<Rightarrow> string \<Rightarrow> worker_handler option) \<Rightarrow> worker_config \<Rightarrow> go_time \<Rightarrow> string option \<Rightarrow>
   ready_error option \<Rightarrow> (status_error, Status) result \<Rightarrow> string \<Rightarrow> string \<Rightarrow> worker_body writer option" where
  "worker_serve dispatch cfg now wfault ready status method path =
     (case dispatch worker_mount method path of
        None \<Rightarrow> None
      | Some WorkerHealth \<Rightarrow> Some (healthCheckHandler wfault)
      | Some WorkerReadiness \<Rightarrow> Some (readinessCheckHandler wfault ready)
      | Some WorkerStatus \<Rightarrow> Some (statusHandler cfg now wfault status))"

lemma api_mount_set:
  "set api_mount = {(''GET'', ''/metrics'', MetricsPage), (''GET'', ''/v1/health'', Health), (''GET'', ''/v1/readiness'', Readiness),
     (''POST'', ''/v1/check'', Check), (''GET'', ''/v1/analytics/summary'', Summary), (''GET'', ''/v1/analytics/trends'', Trends)}"
  by (simp add: api_mount_def Route_def)

section \<open>Properties\<close>

text \<open>The statuses each endpoint answers with, as the API documents them.\<close>

definition documented_statuses :: "string \<Rightarrow> int set" where
  "documented_statuses path =
     (if path = ''/v1/check'' then {200, 400, 404, 429, 500, 503}
      else if path = ''/v1/health'' then {200}
      else if path = ''/v1/readiness'' then {200, 503}
      else {200, 400, 503})"

lemma decision_status_range: "decision_status r \<in> {200, 400, 404, 429, 500, 503}"
  by (cases r rule: decision_status.cases) auto

lemma check_handler_status:
  fixes w :: "'b api_body writer"
  assumes "checkRateLimitHandler validate M allow cfg (\<lambda>_. None) elapsed s ctx now body = (s', w)"
  shows "\<exists>st \<in> {200, 400, 404, 429, 500, 503}. sent_status w = Some st"
proof -
  obtain st' res outcome and w' :: "'b api_body writer" where c: "check_request validate allow cfg (\<lambda>_. None) (fst s) ctx now body = (st', res, outcome, w')"
    by (metis prod.exhaust)
  then have "w = w'" using assms by (simp add: checkRateLimitHandler_def Let_def)
  from c show ?thesis
  proof (cases rule: check_limiter_call)
    case bad
    then show ?thesis using \<open>w = w'\<close> by simp
  next
    case (error p e)
    then show ?thesis using \<open>w = w'\<close> decision_status_range [of "Err e"] by simp
  next
    case (decision p d)
    then show ?thesis using \<open>w = w'\<close> decision_status_range [of "Ok d"] by simp
  qed
qed

text \<open>
  C35. Every request is answered as documented. When writes succeed, a request to one of the
  six routes gets the page of the metrics or exactly a status that the API documents for its
  endpoint, and every other method or path has no route.
\<close>

theorem api_statuses:
  assumes "router dispatch" and "su_wfault e = (\<lambda>_. None)"
    and "api_serve dispatch validate M R db cfg l s (e, rq) = (s', reply)"
  shows "case reply of
      NoRoute \<Rightarrow> (rq_method rq, rq_path rq) \<notin> (\<lambda>(m, p, h). (m, p)) ` set api_mount
    | Exposition m \<Rightarrow> rq_method rq = ''GET'' \<and> rq_path rq = ''/metrics'' \<and> m = store (snd s)
    | Reply w \<Rightarrow> (rq_method rq, rq_path rq) \<in> (\<lambda>(m, p, h). (m, p)) ` set api_mount \<and>
        (\<exists>st \<in> documented_statuses (rq_path rq). sent_status w = Some st)"
proof (cases "dispatch api_mount (rq_method rq) (rq_path rq)")
  case None
  then have "(rq_method rq, rq_path rq, h) \<notin> set api_mount" for h
    using router.dispatch_iff [OF assms(1) mounts_distinct(1), of "rq_method rq" "rq_path rq" h] by simp
  then show ?thesis using None assms(3) by (auto simp: api_serve_def)
next
  case (Some h)
  then have reg: "(rq_method rq, rq_path rq, h) \<in> set api_mount"
    using router.dispatch_sound [OF assms(1)] by blast
  then have "(rq_method rq, rq_path rq) \<in> (\<lambda>(m, p, h). (m, p)) ` set api_mount" by force
  then show ?thesis
    using Some reg assms(2,3)
    by (cases h) (auto simp: api_serve_def api_mount_set documented_statuses_def api_healthCheckHandler_def
        api_readinessCheckHandler_def approvalSummaryHandler_def approvalTrendsHandler_def reply_defs Let_def
        dest: check_handler_status split: prod.splits sum.splits option.splits)
qed

section \<open>Examples\<close>

definition ex_around :: surroundings where
  "ex_around = \<lparr>su_ctx = None, su_now = unix_epoch, su_finished = unix_epoch, su_late = None, su_link = Delivered,
     su_ping = None, su_elapsed = 0, su_wfault = (\<lambda>_. None), su_queryFault = None, su_rowsFault = no_query_faults,
     su_view1 = (unix_epoch, []), su_view2 = (unix_epoch, [])\<rparr>"

definition ex_get :: "string \<Rightarrow> http_request" where
  "ex_get path = \<lparr>rq_method = ''GET'', rq_path = path, rq_query = (\<lambda>_. []), rq_body = ex_body ''1''\<rparr>"

definition ex_state :: "(CircuitBreakerLimiter \<times> mem_redis) \<times> mem_metrics apiMetrics" where
  "ex_state = ((Pipeline.ex_breaker, ex_redis), newAPIMetrics mem_metric_ops ex_metrics configured_policies)"

abbreviation ex_serve where
  "ex_serve \<equiv> api_serve exact_match tags_validate mem_metric_ops mem_ops utc_db ex_api ex_rtb"

theorem api_statuses_witness:
  "\<exists>w. snd (ex_serve ex_state (ex_around, ex_get ''/v1/health'')) = Reply w \<and> sent_status w = Some 200"
proof -
  obtain s' reply where a: "ex_serve ex_state (ex_around, ex_get ''/v1/health'') = (s', reply)"
    by (rule prod.exhaust)
  have "exact_match api_mount ''GET'' ''/v1/health'' = Some Health"
    by (simp add: exact_match_def api_mount_def Route_def)
  then obtain w where w: "reply = Reply w" using a by (auto simp: api_serve_def ex_get_def)
  have "su_wfault ex_around = (\<lambda>_. None)" by (simp add: ex_around_def)
  from api_statuses [OF exact.router_axioms this a] show ?thesis
    using a w by (auto simp: documented_statuses_def ex_get_def)
qed

end
