(* ===== verification/Spec2Isabelle.thy ===== *)
theory Spec2Isabelle
  imports FixedWindow SlidingLog TokenBucket Fleet Routes
begin

text \<open>
  Verification of the rate limiter service: a Go program that decides whether a request of a
  client for a resource is within its quota, records every approval and reports on them.

  \<^bold>\<open>The program.\<close> \<open>internal/ratelimiter\<close> holds the limiter contract, three limiters that keep
  their state in memory (fixed window, sliding log, token bucket), a token bucket whose state
  is shared in Redis and changed by one Lua script, and a circuit breaker around a limiter.
  \<open>cmd/api\<close> reads its configuration (\<open>internal/env\<close>), builds the shared token bucket behind the
  circuit breaker, and serves decisions, health, readiness and reports over HTTP. An approval
  appends an event to a Redis stream in the same script. \<open>cmd/worker\<close> consumes the stream
  (\<open>internal/events\<close>) into a PostgreSQL table (\<open>internal/database\<close>), recovers the messages of
  other workers, watches the backlog and serves its status. The reports of the API read that
  table.

  \<^bold>\<open>Which theory models what.\<close>

  \<^item> Foundations: \<open>Prelude\<close> (results of fallible functions, 64-bit integers with wrap-around,
    list lemmas), \<open>GoTime\<close>, \<open>GoStrings\<close>, \<open>GoDate\<close> (what is used of \<open>time\<close>, \<open>strconv\<close>, \<open>strings\<close>:
    durations, \<open>ParseInt\<close>, \<open>ParseDuration\<close>, \<open>Split\<close>, \<open>TrimSpace\<close>, the two date layouts), \<open>Float64\<close>
    and \<open>BucketArith\<close> (binary64 arithmetic with its rounding error), \<open>LuaNumber\<close> (Lua's
    \<open>tostring\<close> and \<open>tonumber\<close>), \<open>Http\<close> (the response writer and \<open>writeJSON\<close>).
  \<^item> \<open>RateLimiter\<close>: \<open>ratelimiter.go\<close>. The contract is the locale \<open>limiter\<close>: \<open>Allow\<close> keeps the
    invariant, validates in the source's order and answers well-formed decisions;
    \<open>isolated_limiter\<close> adds that a key has its own state. Every limiter interprets them.
  \<^item> \<open>FixedWindow\<close>, \<open>SlidingLog\<close>, \<open>TokenBucket\<close>: \<open>fixed-window.go\<close>, \<open>sliding-log.go\<close>,
    \<open>token-bucket.go\<close>, a state record each, one definition per function.
  \<^item> \<open>CircuitBreaker\<close>: \<open>circuit-breaker.go\<close>, with \<open>Allow\<close> as one call and, in \<open>cb_step\<close>, as the
    separate steps of its start and its end, so that concurrent requests interleave; a run
    (\<open>cb_run\<close>) records who was admitted, refused or answered.
  \<^item> \<open>RedisServer\<close>, \<open>RedisTokenBucket\<close>, \<open>RedisLimiter\<close>, \<open>RedisQuota\<close>: \<open>redis-token-bucket.go\<close>. The
    Lua script is a function on the server's state; a call can be lost before or after it ran.
  \<^item> \<open>Environment\<close>: \<open>env.go\<close>, both \<open>config.go\<close>, \<open>store/redis.go\<close> and both \<open>redis.go\<close>.
  \<^item> \<open>Events\<close>: \<open>internal/events\<close> and the insert of \<open>approved_requests.sql.go\<close>. Every command on the
    stream and the database can fail, before or after its effect.
  \<^item> \<open>Recovery\<close>: the consumer group with its pending messages and the times of their deliveries, which
    decide what a claim gets (\<open>RecoverPending\<close> of \<open>processor.go\<close>), that the history catches up after
    failures, and that a message that cannot be decoded starves those delivered with it.
  \<^item> \<open>Worker\<close>: \<open>worker.go\<close>, \<open>monitor.go\<close>, \<open>health.go\<close>, \<open>json.go\<close> of \<open>cmd/worker\<close>.
  \<^item> \<open>Reports\<close>, \<open>Analytics\<close>: the queries of \<open>approved_requests.sql.go\<close> and \<open>analytics.go\<close>.
  \<^item> \<open>Api\<close>: \<open>json.go\<close>, \<open>check.go\<close>, \<open>errors.go\<close>, \<open>metrics.go\<close>, \<open>health.go\<close>, \<open>redis.go\<close> of \<open>cmd/api\<close>.
  \<^item> \<open>Service\<close>: \<open>main.go\<close> of both programs with \<open>store/postgres.go\<close>, and the goroutines of the \<open>run\<close>
    methods of both \<open>api.go\<close> as step relations.
  \<^item> \<open>Pipeline\<close>: the composition, from the HTTP request through the breaker to the server and
    from the approval through its event and row to the report.
  \<^item> \<open>Fleet\<close>: several API instances on one server, with requests in flight at the same time and
    instances that stop and start again.
  \<^item> \<open>Routes\<close>: \<open>mount\<close> of both \<open>api.go\<close>, and what a request to each program is answered with.

  \<^bold>\<open>What is shown.\<close> The quota of every limiter, in its own terms: per aligned window, per
  rolling window, per period with refill, the last also with the rounding error of binary64
  and, for the shared bucket, with lost connections, expiring keys and any number of instances. The delays reported to
  a denied client. The sliding log refines the specification that keeps the whole history.
  In every interleaving of requests the breaker is transparent when the dependency does not fail, and
  bounds the calls of an outage by its threshold, the requests in flight and the open timeouts that
  pass; it lets a single probe through if calls end within the decision timeout. An approval appends exactly one event; whatever calls fail, the event
  is in the stream or in the table; if every event can be decoded, then once calls succeed, and the
  recoveries come after the claim interval, the worker empties the stream; the table, and the reports
  over it, then charge exactly the approved costs, but for approvals whose reply the API lost. The handlers answer as documented on every
  branch, with their bodies, and the metrics count every decision once. The configuration that loads starts the
  programs, and the two programs agree on the stream and the backlog. The API starts without
  its database, and both programs end in a bounded number of steps, the API only after its
  requests were answered.

  \<^bold>\<open>Conventions.\<close> \<open>int\<close> and \<open>int64\<close> are integers with explicit wrap-around (\<open>wrap64\<close>) where the code
  computes; invariants show where it does not occur. A mutex makes the section it protects
  one step. Loops are structural recursion or have a termination proof, so no fuel is used;
  the loops that run until shutdown (the consumer, the monitor) are functions of the finite
  sequence of events they have seen. \<open>now\<close> is an argument of every function that reads the clock.

  \<^bold>\<open>What is a parameter.\<close> The Redis commands (\<open>redis_server\<close>), the consumer-group commands
  (\<open>approval_stream\<close>, \<open>draining_stream\<close>, \<open>recovering_stream\<close>), the router (\<open>router\<close>), PostgreSQL's order of text and its clock
  (\<open>reporting_db\<close>), the validator (\<open>payload_validator\<close>) and the metrics library
  (\<open>metrics_library\<close>) are arguments with their documented laws as locales, each interpreted on
  an executable instance. The JSON scanner delivers a value or an error; URL queries are a
  function from names to values; the faults of writes and calls are arguments.

  \<^bold>\<open>Where the code falls short.\<close> Some theorems state behaviour that a comment or a document
  excludes: two probes at once when the decision timeout exceeds the open timeout, delays
  that are too short (\<open>FixedWindow\<close>, \<open>TokenBucket\<close>) or in the wrong unit (\<open>Api\<close>), a clock that goes
  back and refills twice (\<open>RedisQuota\<close>), an event that blocks its batch for ever (\<open>Events\<close>, \<open>Recovery\<close>), a 503 that has
  spent quota (\<open>Pipeline\<close>), an unreported resumption (\<open>Worker\<close>), and a worker that does not wait
  for its consumer (\<open>Service\<close>).

  \<^bold>\<open>Not modelled.\<close> The generated wrapper \<open>db.go\<close> and the format of the metrics page belong to
  libraries. Log messages are modelled where they are the function's result (the worker and
  its monitor), not their text. The timeouts of contexts appear as the errors they cause. The
  column \<open>created_at\<close>, which nothing reads, is left out of a row; \<open>tonumber\<close> reads the decimal numerals the
  script writes; the conversion of a delay from binary64 to \<open>int64\<close> is exact, which it is for windows
  that are not within rounding of \<open>2^63\<close> nanoseconds.
  Tests, benchmarks and deployment files are not part of the implementation.
\<close>

section \<open>Properties of all limiters in memory\<close>

text \<open>
  C33. Clients are isolated. In every in-memory limiter and for any sequence of requests of any
  keys, the results for one key are exactly those of a limiter that serves only the requests
  of that key, so no client can spend or delay another's quota.
\<close>

theorem limiters_isolated:
  "map snd (filter (\<lambda>(q, r). q_key q = k) (zip qs (snd (run_limiter FixedWindow_Allow fw qs)))) =
     snd (run_limiter FixedWindow_Allow fw (filter (\<lambda>q. q_key q = k) qs)) \<and>
   map snd (filter (\<lambda>(q, r). q_key q = k) (zip qs (snd (run_limiter SlidingLog_Allow sl qs)))) =
     snd (run_limiter SlidingLog_Allow sl (filter (\<lambda>q. q_key q = k) qs)) \<and>
   map snd (filter (\<lambda>(q, r). q_key q = k) (zip qs (snd (run_limiter TokenBucket_Allow tb qs)))) =
     snd (run_limiter TokenBucket_Allow tb (filter (\<lambda>q. q_key q = k) qs))"
  by (intro conjI fw.run_isolated sl.run_isolated tb.run_isolated)

end
